(* ===== verification/Prelude.thy ===== *)
theory Prelude
  imports Main "HOL-Library.Word" "HOL-Library.Multiset"
begin

unbundle bit_operations_syntax

text \<open>
  What every component of the development shares: the values of the Go language and of its
  standard library that the sources use (run-time panics, error values, slices, bytes, fixed-width
  integers), the named collections the component proofs are driven by, and the generic lemmas on
  lists, options and machine words.
\<close>

section \<open>Collections of facts\<close>

named_theorems go_slice_simps
  \<open>how the slice operations of Go act on lists\<close>

named_theorems bit_simps
  \<open>reading single bits of a 64-bit mask\<close>

section \<open>Panics and errors\<close>

text \<open>
  A Go function that can panic returns a value of type \<open>panic + 'a\<close>, with \<open>Inl\<close> for the
  panic.  \<open>Panic\<close> is a call of the builtin \<open>panic\<close> with its message; the others are the
  run-time panics of the language.
\<close>

datatype panic =
    Panic string
  | IndexOutOfRange
  | NilDereference
  | NegativeCounter int

type_synonym 'a may_panic = "panic + 'a"

text \<open>Sequencing of computations that may panic.\<close>

fun bindp :: "('e + 'a) \<Rightarrow> ('a \<Rightarrow> 'e + 'b) \<Rightarrow> 'e + 'b" where
  "bindp (Inl e) k = Inl e"
| "bindp (Inr x) k = k x"

lemma bindp_Inr_iff [simp]: "bindp m k = Inr y \<longleftrightarrow> (\<exists>x. m = Inr x \<and> k x = Inr y)"
  by (cases m) auto

text \<open>Case analysis on the branch of a conditional that gave the result, forgetting the condition.\<close>

lemma if_branchE:
  assumes "(if b then x else y) = z" and "x = z \<Longrightarrow> P" and "y = z \<Longrightarrow> P"
  shows P
  using assms by (auto split: if_splits)

section \<open>Slices\<close>

text \<open>
  \<open>go_index xs i\<close> and \<open>go_store xs i v\<close> are the expression \<open>xs[i]\<close> and the assignment
  \<open>xs[i] = v\<close>: both panic when \<open>i\<close> is out of range.  \<open>go_copy\<close> is the builtin \<open>copy\<close>, which
  overwrites as many leading elements as both slices have.
\<close>

definition in_range :: "'a list \<Rightarrow> int \<Rightarrow> bool" where
  "in_range xs i \<longleftrightarrow> 0 \<le> i \<and> i < int (length xs)"

definition go_index :: "'a list \<Rightarrow> int \<Rightarrow> 'a may_panic" where
  "go_index xs i = (if in_range xs i then Inr (xs ! nat i) else Inl IndexOutOfRange)"

definition go_store :: "'a list \<Rightarrow> int \<Rightarrow> 'a \<Rightarrow> 'a list may_panic" where
  "go_store xs i v = (if in_range xs i then Inr (xs[nat i := v]) else Inl IndexOutOfRange)"

definition go_copy :: "'a list \<Rightarrow> 'a list \<Rightarrow> 'a list" where
  "go_copy dst src = take (length dst) src @ drop (length src) dst"

text \<open>
  \<open>go_slice xs lo hi\<close> is the slice expression \<open>xs[lo:hi]\<close> on a slice whose capacity is its
  length, and \<open>go_make\<close> is \<open>make\<close> with a length, filled with the zero value of the element type.
\<close>

definition go_slice :: "'a list \<Rightarrow> int \<Rightarrow> int \<Rightarrow> 'a list may_panic" where
  "go_slice xs lo hi =
     (if 0 \<le> lo \<and> lo \<le> hi \<and> hi \<le> int (length xs)
      then Inr (take (nat (hi - lo)) (drop (nat lo) xs)) else Inl IndexOutOfRange)"

definition go_make :: "int \<Rightarrow> 'a \<Rightarrow> 'a list may_panic" where
  "go_make n z = (if 0 \<le> n then Inr (replicate (nat n) z) else Inl IndexOutOfRange)"

lemma length_go_copy [go_slice_simps]: "length (go_copy dst src) = length dst"
  by (simp add: go_copy_def)

text \<open>Two consecutive copies into a fresh slice lay the sources out one after the other.\<close>

lemma go_copy_two:
  "length s1 + length s2 + r = n \<Longrightarrow>
   take (length s1) (go_copy (replicate n z) s1) @ go_copy (drop (length s1) (go_copy (replicate n z) s1)) s2
     = s1 @ s2 @ replicate r z"
  by (auto simp: go_copy_def)

lemma go_index_in [go_slice_simps]: "i < length xs \<Longrightarrow> go_index xs (int i) = Inr (xs ! i)"
  by (simp add: go_index_def in_range_def)

lemma go_store_in [go_slice_simps]: "i < length xs \<Longrightarrow> go_store xs (int i) v = Inr (xs[i := v])"
  by (simp add: go_store_def in_range_def)

section \<open>Fixed-width integers\<close>

text \<open>Conversion of an integer to \<open>int32\<close> and \<open>int64\<close>: two's complement truncation.\<close>

definition to_int32 :: "int \<Rightarrow> int" where
  "to_int32 x = (x + 2 ^ 31) mod 2 ^ 32 - 2 ^ 31"

definition to_int64 :: "int \<Rightarrow> int" where
  "to_int64 x = (x + 2 ^ 63) mod 2 ^ 64 - 2 ^ 63"

lemma to_int32_id: "- (2 ^ 31) \<le> x \<Longrightarrow> x < 2 ^ 31 \<Longrightarrow> to_int32 x = x"
  by (simp add: to_int32_def)

lemma to_int64_id: "- (2 ^ 63) \<le> x \<Longrightarrow> x < 2 ^ 63 \<Longrightarrow> to_int64 x = x"
  by (simp add: to_int64_def)

lemma to_int32_range: "- (2 ^ 31) \<le> to_int32 x" "to_int32 x < 2 ^ 31"
  by (simp_all add: to_int32_def)

lemma to_int64_range: "- (2 ^ 63) \<le> to_int64 x" "to_int64 x < 2 ^ 63"
  by (simp_all add: to_int64_def)

lemma less_mult_iff_div_less:
  assumes "0 < (k::int)"
  shows "x < k * y \<longleftrightarrow> x div k < y"
proof -
  have x: "k * (x div k) \<le> x" "x < k * (x div k) + k"
    using assms by (simp_all add: minus_mod_eq_mult_div[symmetric])
  show ?thesis
  proof
    assume "x < k * y"
    then have "k * (x div k) < k * y" using x(1) by simp
    then show "x div k < y" using assms by simp
  next
    assume "x div k < y"
    then have "k * (x div k + 1) \<le> k * y" using assms by simp
    then show "x < k * y" using x(2) by (simp add: algebra_simps)
  qed
qed

section \<open>The FIFO contract\<close>

text \<open>
  Several components are FIFO queues behind different representations: the ring buffer of
  \<^verbatim>\<open>workpool/queue\<close>, the guarded queue of \<^verbatim>\<open>workpool/myqueue\<close> and the file-backed queue of
  \<^verbatim>\<open>diskqueue\<close>.  Their common contract: under the invariant, \<open>put\<close> of an admissible element to a queue
  shorter than its limit succeeds and appends to the abstract list; \<open>get\<close> succeeds exactly when the list
  is not empty and returns its head.
\<close>

datatype 'a fifo_op = Put_op 'a | Get_op

text \<open>A run of operations against a representation, collecting what the \<open>get\<close>s return.\<close>

fun fifo_run :: "('a \<Rightarrow> 's \<Rightarrow> 'e + 's) \<Rightarrow> ('s \<Rightarrow> 'e + ('a \<times> 's)) \<Rightarrow> 's \<Rightarrow> 'a fifo_op list
    \<Rightarrow> 'e + ('a list \<times> 's)" where
  "fifo_run put get s [] = Inr ([], s)"
| "fifo_run put get s (Put_op x # ops) = bindp (put x s) (\<lambda>s'. fifo_run put get s' ops)"
| "fifo_run put get s (Get_op # ops) =
     bindp (get s) (\<lambda>(x, s'). bindp (fifo_run put get s' ops) (\<lambda>(out, s''). Inr (x # out, s'')))"

text \<open>The same run on a plain list; \<open>None\<close> when it takes from the empty list.\<close>

fun fifo_spec :: "'a list \<Rightarrow> 'a fifo_op list \<Rightarrow> ('a list \<times> 'a list) option" where
  "fifo_spec q [] = Some ([], q)"
| "fifo_spec q (Put_op x # ops) = fifo_spec (q @ [x]) ops"
| "fifo_spec [] (Get_op # ops) = None"
| "fifo_spec (x # q) (Get_op # ops) =
     (case fifo_spec q ops of None \<Rightarrow> None | Some (out, q') \<Rightarrow> Some (x # out, q'))"

fun puts_of :: "'a fifo_op list \<Rightarrow> 'a list" where
  "puts_of [] = []"
| "puts_of (Put_op x # ops) = x # puts_of ops"
| "puts_of (Get_op # ops) = puts_of ops"

lemma fifo_spec_order:
  "fifo_spec q ops = Some (out, q') \<Longrightarrow> q @ puts_of ops = out @ q'"
  by (induction q ops arbitrary: out q' rule: fifo_spec.induct) (auto split: option.splits)

text \<open>A queue may have a limit on its length.\<close>

definition up_to :: "nat option \<Rightarrow> nat \<Rightarrow> bool" where
  "up_to limit n = (case limit of None \<Rightarrow> True | Some k \<Rightarrow> n \<le> k)"

lemma up_to_mono: "up_to limit n \<Longrightarrow> m \<le> n \<Longrightarrow> up_to limit m"
  by (auto simp: up_to_def split: option.splits)

locale fifo =
  fixes put :: "'a \<Rightarrow> 's \<Rightarrow> 'e + 's"
    and get :: "'s \<Rightarrow> 'e + ('a \<times> 's)"
    and contents :: "'s \<Rightarrow> 'a list"
    and inv :: "'s \<Rightarrow> bool"
    and admissible :: "'a \<Rightarrow> bool"
    and limit :: "nat option"
  assumes put_ok: "inv s \<Longrightarrow> admissible x \<Longrightarrow> up_to limit (length (contents s) + 1) \<Longrightarrow>
      \<exists>s'. put x s = Inr s' \<and> inv s' \<and> contents s' = contents s @ [x]"
    and get_ok: "inv s \<Longrightarrow> contents s = x # xs \<Longrightarrow>
      \<exists>s'. get s = Inr (x, s') \<and> inv s' \<and> contents s' = xs"
    and get_empty: "inv s \<Longrightarrow> contents s = [] \<Longrightarrow> \<exists>e. get s = Inl e"
begin

definition fits :: "'s \<Rightarrow> 'a fifo_op list \<Rightarrow> bool" where
  "fits s ops \<longleftrightarrow> list_all admissible (puts_of ops) \<and> up_to limit (length (contents s) + length (puts_of ops))"

lemma fits_put:
  assumes "fits s (Put_op x # ops)"
  shows "admissible x" "up_to limit (length (contents s) + 1)"
    and "contents s' = contents s @ [x] \<Longrightarrow> fits s' ops"
  using assms by (auto simp: fits_def elim: up_to_mono)

lemma fits_get: "fits s (Get_op # ops) \<Longrightarrow> contents s = x # contents s' \<Longrightarrow> fits s' ops"
  by (auto simp: fits_def elim: up_to_mono)

lemma run_refines:
  assumes "inv s" and "fits s ops"
    and "fifo_spec (contents s) ops = Some (out, q)"
  shows "\<exists>s'. fifo_run put get s ops = Inr (out, s') \<and> inv s' \<and> contents s' = q"
  using assms
proof (induction "contents s" ops arbitrary: s out q rule: fifo_spec.induct)
  case 1
  then show ?case by auto
next
  case (2 x ops)
  then obtain s' where s': "put x s = Inr s'" "inv s'" "contents s' = contents s @ [x]"
    using put_ok[of s x] fits_put[of s x ops] by blast
  with 2 show ?case using fits_put(3)[of s x ops s'] by (auto dest: "2.hyps"[OF s'(3)[symmetric]])
next
  case (3 ops)
  then show ?case by (metis fifo_spec.simps(3) option.distinct(1))
next
  case (4 x xs ops)
  from 4(2) have c: "contents s = x # xs" by simp
  obtain s' where s': "get s = Inr (x, s')" "inv s'" "contents s' = xs"
    using get_ok[OF 4(3) c] by blast
  obtain out' where out': "out = x # out'" "fifo_spec xs ops = Some (out', q)"
    using 4(5) c by (auto split: option.splits)
  then obtain s'' where "fifo_run put get s' ops = Inr (out', s'')" "inv s''" "contents s'' = q"
    using "4.hyps"(1)[OF s'(3)[symmetric] s'(2)] fits_get[OF 4(4), of x s'] c s'(3) by auto
  with s' out' show ?case by auto
qed

lemma run_fails_iff_spec_fails:
  assumes "inv s" and "fits s ops" and "fifo_spec (contents s) ops = None"
  shows "\<exists>e. fifo_run put get s ops = Inl e"
  using assms
proof (induction "contents s" ops arbitrary: s rule: fifo_spec.induct)
  case 1
  then show ?case by simp
next
  case (2 x ops)
  then obtain s' where s': "put x s = Inr s'" "inv s'" "contents s' = contents s @ [x]"
    using put_ok[of s x] fits_put[of s x ops] by blast
  with 2 show ?case using fits_put(3)[of s x ops s'] by (auto dest: "2.hyps"[OF s'(3)[symmetric]])
next
  case (3 ops)
  then have "\<exists>e. get s = Inl e" using get_empty by metis
  then show ?case by auto
next
  case (4 x xs ops)
  from 4(2) have c: "contents s = x # xs" by simp
  obtain s' where s': "get s = Inr (x, s')" "inv s'" "contents s' = xs"
    using get_ok[OF 4(3) c] by blast
  have "fifo_spec xs ops = None"
    using 4(5) c by (auto split: option.splits)
  then obtain e where "fifo_run put get s' ops = Inl e"
    using "4.hyps"(1)[OF s'(3)[symmetric] s'(2)] fits_get[OF 4(4), of x s'] c s'(3) by auto
  with s' show ?case by auto
qed

lemma delivered_in_order:
  assumes "inv s" and "fits s ops"
    and "fifo_run put get s ops = Inr (out, s')"
  shows "contents s @ puts_of ops = out @ contents s'"
proof -
  obtain out2 q where spec: "fifo_spec (contents s) ops = Some (out2, q)"
    using run_fails_iff_spec_fails[OF assms(1,2)] assms(3) by fastforce
  from run_refines[OF assms(1,2) spec] assms(3) have "out2 = out" "contents s' = q" by auto
  with fifo_spec_order[OF spec] show ?thesis by simp
qed

end

section \<open>Simulation of an abstract specification\<close>

text \<open>
  The contract of a component whose operations are total functions on its state: the specification works on an abstract
  state, and every operation gives the response and the abstract state the specification gives.  It then does so for every
  sequence of operations.
\<close>

fun run_ops :: "('op \<Rightarrow> 's \<Rightarrow> 'r \<times> 's) \<Rightarrow> 'op list \<Rightarrow> 's \<Rightarrow> 'r list \<times> 's" where
  "run_ops step [] s = ([], s)"
| "run_ops step (op # ops) s =
     (case step op s of (r, s1) \<Rightarrow> (case run_ops step ops s1 of (rs, s2) \<Rightarrow> (r # rs, s2)))"

locale simulation =
  fixes step :: "'op \<Rightarrow> 's \<Rightarrow> 'r \<times> 's"
    and spec :: "'op \<Rightarrow> 'a \<Rightarrow> 'r \<times> 'a"
    and abs :: "'s \<Rightarrow> 'a"
    and inv :: "'s \<Rightarrow> bool"
    and enabled :: "'op \<Rightarrow> bool"
  assumes step_inv: "inv s \<Longrightarrow> enabled op \<Longrightarrow> step op s = (r, s') \<Longrightarrow> inv s'"
    and step_spec: "inv s \<Longrightarrow> enabled op \<Longrightarrow> step op s = (r, s') \<Longrightarrow> spec op (abs s) = (r, abs s')"
begin

lemma run_keeps_inv: "inv s \<Longrightarrow> list_all enabled ops \<Longrightarrow> inv (snd (run_ops step ops s))"
proof (induction ops arbitrary: s)
  case (Cons op ops)
  obtain r s1 where "step op s = (r, s1)" by force
  then show ?case using Cons step_inv[of s op r s1] by (simp add: case_prod_unfold)
qed simp

lemma run_simulates:
  "inv s \<Longrightarrow> list_all enabled ops \<Longrightarrow>
   run_ops spec ops (abs s) = (fst (run_ops step ops s), abs (snd (run_ops step ops s)))"
proof (induction ops arbitrary: s)
  case (Cons op ops)
  obtain r s1 where s1: "step op s = (r, s1)" by force
  with Cons.prems have "inv s1" "spec op (abs s) = (r, abs s1)" using step_inv step_spec by auto
  with s1 Cons show ?case by (auto split: prod.splits)
qed simp

end

section \<open>Signals\<close>

text \<open>The signals of the operating system that the programs name.\<close>

datatype os_signal = SIGHUP | SIGQUIT | SIGTERM | SIGINT | SIGSTOP | SIGKILL | Other_signal nat

section \<open>Step relations\<close>

text \<open>
  Goroutines are step relations.  A step of a program that may panic yields the next state or the panic; \<open>reach\<close> are the states such a program reaches.
  The contract of a step relation is an invariant that every step keeps, and of one with panics also which panics a state of the invariant allows.
\<close>

abbreviation reach :: "('s \<Rightarrow> 'e + 's \<Rightarrow> bool) \<Rightarrow> 's \<Rightarrow> 's \<Rightarrow> bool" where
  "reach step \<equiv> (\<lambda>s s'. step s (Inr s'))\<^sup>*\<^sup>*"

lemma reach_step: "reach step s0 s \<Longrightarrow> step s (Inr s') \<Longrightarrow> reach step s0 s'"
  by (rule rtranclp.rtrancl_into_rtrancl)

lemma reach_three:
  "step s0 (Inr s1) \<Longrightarrow> step s1 (Inr s2) \<Longrightarrow> step s2 (Inr s3) \<Longrightarrow> reach step s0 s3"
  by (rule reach_step[OF reach_step[OF reach_step[OF rtranclp.rtrancl_refl]]])

locale keeps_invariant =
  fixes step :: "'s \<Rightarrow> 's \<Rightarrow> bool"
    and inv :: "'s \<Rightarrow> bool"
  assumes step_keeps: "inv s \<Longrightarrow> step s s' \<Longrightarrow> inv s'"
begin

lemma steps_keep: "step\<^sup>*\<^sup>* s s' \<Longrightarrow> inv s \<Longrightarrow> inv s'"
  by (induction rule: rtranclp_induct) (auto intro: step_keeps)

text \<open>A measure that no step of the invariant changes stays what it was.\<close>

lemma steps_constant:
  assumes "step\<^sup>*\<^sup>* s s'" "inv s" "\<And>u u'. inv u \<Longrightarrow> step u u' \<Longrightarrow> f u' = f u"
  shows "f s' = f s"
  using assms(1)
proof (induction rule: rtranclp_induct)
  case (step u u')
  then show ?case using assms(3)[of u u'] steps_keep[OF step.hyps(1) assms(2)] by simp
qed simp

end

locale panics_only =
  fixes step :: "'s \<Rightarrow> 'e + 's \<Rightarrow> bool"
    and inv :: "'s \<Rightarrow> bool"
    and allowed :: "'s \<Rightarrow> 'e \<Rightarrow> bool"
  assumes step_result: "inv s \<Longrightarrow> step s r \<Longrightarrow> (case r of Inl e \<Rightarrow> allowed s e | Inr s' \<Rightarrow> inv s')"

sublocale panics_only \<subseteq> keeps_invariant "\<lambda>s s'. step s (Inr s')" inv
  by unfold_locales (use step_result in fastforce)

context panics_only
begin

lemma reached_panic: "reach step s0 s \<Longrightarrow> inv s0 \<Longrightarrow> step s (Inl e) \<Longrightarrow> allowed s e"
  using steps_keep[of s0 s] step_result[of s "Inl e"] by simp

end

end
