(* ===== verification/Go_Time.thy ===== *)
theory Go_Time
  imports Prelude
begin

text \<open>
  The part of Go's package \<open>time\<close> that \<^verbatim>\<open>core/cron\<close> calls: the civil calendar, \<open>Date\<close>, \<open>AddDate\<close>,
  \<open>Add\<close>, \<open>Truncate\<close>, the field accessors and the comparisons.  An instant is a number of nanoseconds
  since January 1, year 1, 00:00:00 UTC, and a location; locations are those of a fixed offset
  from UTC (\<open>time.UTC\<close>, \<open>time.FixedZone\<close>), given as seconds east of UTC.  Integers are unbounded:
  the range of \<open>int64\<close> seconds is not modelled.

  The lemmas give the calendar's inverse property and the nesting of its units: year, month, day,
  hour, minute and second are each a partition of the seconds of the local clock into intervals,
  each finer than the one before.
\<close>

section \<open>The civil calendar\<close>

text \<open>Days are numbered from 0 at January 1 of year 1 (the proleptic Gregorian calendar).\<close>

definition is_leap :: "int \<Rightarrow> bool" where
  "is_leap y \<longleftrightarrow> y mod 4 = 0 \<and> (y mod 100 \<noteq> 0 \<or> y mod 400 = 0)"

definition days_before_year :: "int \<Rightarrow> int" where
  "days_before_year y = 365 * (y - 1) + (y - 1) div 4 - (y - 1) div 100 + (y - 1) div 400"

definition month_table :: "int \<Rightarrow> int" where
  "month_table m =
     (if m \<le> 1 then 0 else if m = 2 then 31 else if m = 3 then 59 else if m = 4 then 90
      else if m = 5 then 120 else if m = 6 then 151 else if m = 7 then 181 else if m = 8 then 212
      else if m = 9 then 243 else if m = 10 then 273 else if m = 11 then 304
      else if m = 12 then 334 else 365)"

definition days_before_month :: "int \<Rightarrow> int \<Rightarrow> int" where
  "days_before_month y m = month_table m + (if is_leap y \<and> m > 2 then 1 else 0)"

definition days_in_month :: "int \<Rightarrow> int \<Rightarrow> int" where
  "days_in_month y m = days_before_month y (m + 1) - days_before_month y m"

text \<open>The day number of a date, with the month in 1 to 12 and any day.\<close>

definition day_number :: "int \<Rightarrow> int \<Rightarrow> int \<Rightarrow> int" where
  "day_number y m d = days_before_year y + days_before_month y m + d - 1"

definition year_of_day :: "int \<Rightarrow> int" where
  "year_of_day n =
     (let k = (400 * n) div 146097
      in if n < days_before_year (k + 1) then k
         else if n < days_before_year (k + 2) then k + 1 else k + 2)"

definition month_of_day :: "int \<Rightarrow> int" where
  "month_of_day n =
     (let y = year_of_day n; r = n - days_before_year y
      in if r < days_before_month y 2 then 1 else if r < days_before_month y 3 then 2
         else if r < days_before_month y 4 then 3 else if r < days_before_month y 5 then 4
         else if r < days_before_month y 6 then 5 else if r < days_before_month y 7 then 6
         else if r < days_before_month y 8 then 7 else if r < days_before_month y 9 then 8
         else if r < days_before_month y 10 then 9 else if r < days_before_month y 11 then 10
         else if r < days_before_month y 12 then 11 else 12)"

definition mday_of_day :: "int \<Rightarrow> int" where
  "mday_of_day n =
     (let y = year_of_day n in n - days_before_year y - days_before_month y (month_of_day n) + 1)"

lemma div_pred: "0 < k \<Longrightarrow> (y::int) div k - (y - 1) div k = (if y mod k = 0 then 1 else 0)"
proof -
  assume k: "0 < k"
  have y: "y = k * (y div k) + y mod k" "0 \<le> y mod k" "y mod k < k" using k by simp_all
  show ?thesis
  proof (cases "y mod k = 0")
    case True
    then have "y - 1 = (y div k - 1) * k + (k - 1)" using y(1) by (simp add: algebra_simps)
    then have "(y - 1) div k = y div k - 1"
      using k by (metis add.commute add_diff_cancel_right' diff_ge_0_iff_ge div_mult_self1 div_pos_pos_trivial
          int_one_le_iff_zero_less less_add_one less_irrefl zero_less_diff diff_add_cancel add.right_neutral)
    then show ?thesis using True by simp
  next
    case False
    then have "y - 1 = (y div k) * k + (y mod k - 1)" using y(1) by (simp add: algebra_simps)
    then have "(y - 1) div k = y div k"
      using False y k by (smt (verit) div_pos_pos_trivial div_mult_self3)
    then show ?thesis using False by simp
  qed
qed

lemma leap_sum:
  fixes x :: int
  assumes "p400 \<Longrightarrow> p100" and "p100 \<Longrightarrow> p4"
    and "x = 365 + (if p4 then 1 else 0) - (if p100 then 1 else 0) + (if p400 then 1 else 0)"
  shows "x = (if p4 \<and> (\<not> p100 \<or> p400) then 366 else 365)"
  using assms by (cases p400; cases p100; cases p4) simp_all

lemma days_before_year_Suc:
  "days_before_year (y + 1) = days_before_year y + (if is_leap y then 366 else 365)"
proof -
  have "400 dvd y \<Longrightarrow> 100 dvd y" "100 dvd y \<Longrightarrow> 4 dvd y"
    by (auto elim: dvd_trans[rotated])
  then have "y mod 400 = 0 \<Longrightarrow> y mod 100 = 0" "y mod 100 = 0 \<Longrightarrow> y mod 4 = 0"
    by (simp_all add: dvd_eq_mod_eq_0)
  moreover have "days_before_year (y + 1) - days_before_year y =
      365 + (y div 4 - (y - 1) div 4) - (y div 100 - (y - 1) div 100) + (y div 400 - (y - 1) div 400)"
    by (simp add: days_before_year_def)
  ultimately have "days_before_year (y + 1) - days_before_year y = (if is_leap y then 366 else 365)"
    unfolding is_leap_def by (intro leap_sum) (simp_all only: div_pred zero_less_numeral)
  then show ?thesis by simp
qed

lemma days_before_year_mono: "y \<le> z \<Longrightarrow> days_before_year y \<le> days_before_year z"
proof (induction z rule: int_ge_induct)
  case (step z)
  then show ?case by (auto simp: days_before_year_Suc)
qed simp

lemma days_before_year_strict: "y < z \<Longrightarrow> days_before_year y < days_before_year z"
  using days_before_year_mono[of "y + 1" z] by (auto simp: days_before_year_Suc split: if_splits)

lemma scaled_sum:
  fixes k a b c r s u :: int
  assumes "k = a * 4 + r" "k = b * 100 + s" "k = c * 400 + u"
  shows "400 * (365 * k + a - b + c) = 146097 * k - 100 * r + 4 * s - u"
  using assms by algebra

lemma days_before_year_scaled:
  "400 * days_before_year y =
     146097 * (y - 1) - 100 * ((y - 1) mod 4) + 4 * ((y - 1) mod 100) - (y - 1) mod 400"
  unfolding days_before_year_def
  by (rule scaled_sum) (simp_all only: div_mult_mod_eq)

lemma days_before_year_scaled_bounds:
  "146097 * y - 146796 \<le> 400 * days_before_year y"
  "400 * days_before_year y \<le> 146097 * y - 145701"
proof -
  have bounds: "400 * x = k - 100 * a + 4 * b - c \<Longrightarrow> 0 \<le> a \<Longrightarrow> a \<le> 3 \<Longrightarrow> 0 \<le> b \<Longrightarrow> b \<le> 99 \<Longrightarrow>
      0 \<le> c \<Longrightarrow> c \<le> 399 \<Longrightarrow> k - 699 \<le> 400 * x \<and> 400 * x \<le> k + 396" for x k a b c :: int
    by linarith
  have "(y - 1) mod 4 \<le> 3" "(y - 1) mod 100 \<le> 99" "(y - 1) mod 400 \<le> 399"
    using pos_mod_bound[of 4 "y - 1"] pos_mod_bound[of 100 "y - 1"] pos_mod_bound[of 400 "y - 1"]
    by simp_all
  with bounds[OF days_before_year_scaled[of y]]
  show "146097 * y - 146796 \<le> 400 * days_before_year y"
    "400 * days_before_year y \<le> 146097 * y - 145701"
    by simp_all
qed

lemma year_of_day_bounds:
  "days_before_year (year_of_day n) \<le> n" "n < days_before_year (year_of_day n + 1)"
proof -
  let ?k = "(400 * n) div 146097"
  have k: "146097 * ?k \<le> 400 * n" "400 * n < 146097 * ?k + 146097"
    by (simp_all add: algebra_simps minus_mod_eq_mult_div[symmetric])
  have lo: "days_before_year ?k \<le> n"
    using k days_before_year_scaled_bounds(2)[of ?k] by linarith
  have hi: "n < days_before_year (?k + 3)"
    using k days_before_year_scaled_bounds(1)[of "?k + 3"] by (simp add: algebra_simps)
  show "days_before_year (year_of_day n) \<le> n" "n < days_before_year (year_of_day n + 1)"
    using lo hi unfolding year_of_day_def by (auto simp: Let_def add.commute)
qed

lemma year_of_day_unique:
  assumes "days_before_year y \<le> n" "n < days_before_year (y + 1)"
  shows "year_of_day n = y"
  using year_of_day_bounds[of n] assms days_before_year_mono
  by (smt (verit))

lemma days_before_month_13: "days_before_month y 13 = (if is_leap y then 366 else 365)"
  by (simp add: days_before_month_def month_table_def)

lemma month_range_cases:
  assumes "1 \<le> (m::int)" "m \<le> 12"
  shows "m = 1 \<or> m = 2 \<or> m = 3 \<or> m = 4 \<or> m = 5 \<or> m = 6 \<or> m = 7 \<or> m = 8
    \<or> m = 9 \<or> m = 10 \<or> m = 11 \<or> m = 12"
  using assms by presburger

lemma days_in_month_bounds:
  "1 \<le> m \<Longrightarrow> m \<le> 12 \<Longrightarrow> 28 \<le> days_in_month y m \<and> days_in_month y m \<le> 31"
  using month_range_cases[of m]
  by (auto simp: days_in_month_def days_before_month_def month_table_def)

lemma days_before_month_Suc: "days_before_month y (m + 1) = days_before_month y m + days_in_month y m"
  by (simp add: days_in_month_def)

lemma days_before_month_mono:
  assumes "1 \<le> m" "m \<le> k" "k \<le> 13"
  shows "days_before_month y m \<le> days_before_month y k"
  using assms(2) assms(1,3)
proof (induction k rule: int_ge_induct)
  case (step k)
  then show ?case
    using days_in_month_bounds[of k y] by (simp add: days_before_month_Suc)
qed simp

lemma month_of_day_range: "1 \<le> month_of_day n" "month_of_day n \<le> 12"
  by (simp_all add: month_of_day_def Let_def)

lemma month_of_day_bounds:
  "days_before_month (year_of_day n) (month_of_day n) \<le> n - days_before_year (year_of_day n)"
  "n - days_before_year (year_of_day n) < days_before_month (year_of_day n) (month_of_day n + 1)"
proof -
  define y where "y = year_of_day n"
  define r where "r = n - days_before_year y"
  have r: "0 \<le> r" "r < days_before_month y 13"
    using year_of_day_bounds[of n]
    by (simp_all add: r_def y_def days_before_month_13 days_before_year_Suc split: if_splits)
  have one: "days_before_month y 1 = 0" by (simp add: days_before_month_def month_table_def)
  have "days_before_month y (month_of_day n) \<le> r \<and> r < days_before_month y (month_of_day n + 1)"
    using r one unfolding month_of_day_def Let_def y_def[symmetric] r_def[symmetric] by simp
  then show "days_before_month (year_of_day n) (month_of_day n) \<le> n - days_before_year (year_of_day n)"
    "n - days_before_year (year_of_day n) < days_before_month (year_of_day n) (month_of_day n + 1)"
    by (simp_all add: y_def r_def)
qed

lemma mday_of_day_range:
  "1 \<le> mday_of_day n" "mday_of_day n \<le> days_in_month (year_of_day n) (month_of_day n)"
  using month_of_day_bounds[of n] by (simp_all add: mday_of_day_def days_in_month_def Let_def)

text \<open>The calendar is a bijection between day numbers and valid dates.\<close>

lemma day_number_of_day: "day_number (year_of_day n) (month_of_day n) (mday_of_day n) = n"
  by (simp add: day_number_def mday_of_day_def Let_def)

lemma month_of_day_unique:
  assumes "1 \<le> m" "m \<le> 12" "days_before_month (year_of_day n) m \<le> n - days_before_year (year_of_day n)"
    "n - days_before_year (year_of_day n) < days_before_month (year_of_day n) (m + 1)"
  shows "month_of_day n = m"
proof (rule linorder_cases[of "month_of_day n" m])
  assume "month_of_day n < m"
  then have "days_before_month (year_of_day n) (month_of_day n + 1) \<le> days_before_month (year_of_day n) m"
    using assms(2) month_of_day_range[of n] by (intro days_before_month_mono) simp_all
  then show ?thesis using month_of_day_bounds(2)[of n] assms(3) by simp
next
  assume "m < month_of_day n"
  then have "days_before_month (year_of_day n) (m + 1) \<le> days_before_month (year_of_day n) (month_of_day n)"
    using assms(1) month_of_day_range[of n] by (intro days_before_month_mono) simp_all
  then show ?thesis using month_of_day_bounds(1)[of n] assms(4) by simp
qed

lemma date_of_day_number:
  assumes "1 \<le> m" "m \<le> 12" "1 \<le> d" "d \<le> days_in_month y m"
  shows "year_of_day (day_number y m d) = y" "month_of_day (day_number y m d) = m"
    "mday_of_day (day_number y m d) = d"
proof -
  have lo: "0 \<le> days_before_month y m"
    using days_before_month_mono[of 1 m y] assms by (simp add: days_before_month_def month_table_def)
  have hi: "days_before_month y (m + 1) \<le> days_before_month y 13"
    using assms by (intro days_before_month_mono) simp_all
  show y: "year_of_day (day_number y m d) = y"
    using assms lo hi by (intro year_of_day_unique)
      (simp_all add: day_number_def days_before_month_13 days_before_year_Suc days_in_month_def
        split: if_splits)
  have in_month: "days_before_month y m \<le> day_number y m d - days_before_year y"
    "day_number y m d - days_before_year y < days_before_month y (m + 1)"
    using assms by (simp_all add: day_number_def days_in_month_def)
  show m: "month_of_day (day_number y m d) = m"
    using month_of_day_unique[of m "day_number y m d"] assms(1,2) in_month by (simp add: y)
  show "mday_of_day (day_number y m d) = d"
    by (simp add: mday_of_day_def y m Let_def) (simp add: day_number_def)
qed

section \<open>Instants\<close>

text \<open>
  An instant is a number of nanoseconds since the zero time, so that its nanosecond part is always
  in the range of Go's.  \<open>Location\<close> is the offset from UTC in seconds.  \<open>local_sec\<close> is the reading
  of the local clock, in seconds since the local January 1, year 1.
\<close>

type_synonym Location = int

definition ns_per_sec :: int where
  "ns_per_sec = 1000000000"

lemma ns_per_sec_pos [simp]: "0 < ns_per_sec" "0 \<le> ns_per_sec" "ns_per_sec \<noteq> 0"
  by (simp_all add: ns_per_sec_def)

record time =
  t_ns :: int
  t_loc :: Location

definition zero_time :: time where
  "zero_time = \<lparr>t_ns = 0, t_loc = 0\<rparr>"

definition IsZero :: "time \<Rightarrow> bool" where
  "IsZero t \<longleftrightarrow> t_ns t = 0"

definition local_sec :: "time \<Rightarrow> int" where
  "local_sec t = t_ns t div ns_per_sec + t_loc t"

definition local_day :: "time \<Rightarrow> int" where
  "local_day t = local_sec t div 86400"

definition Year :: "time \<Rightarrow> int" where
  "Year t = year_of_day (local_day t)"

definition Month :: "time \<Rightarrow> int" where
  "Month t = month_of_day (local_day t)"

definition Day :: "time \<Rightarrow> int" where
  "Day t = mday_of_day (local_day t)"

text \<open>January 1 of year 1 was a Monday; \<open>Weekday\<close> counts from Sunday, 0.\<close>

definition Weekday :: "time \<Rightarrow> int" where
  "Weekday t = (local_day t + 1) mod 7"

definition Hour :: "time \<Rightarrow> int" where
  "Hour t = local_sec t mod 86400 div 3600"

definition Minute :: "time \<Rightarrow> int" where
  "Minute t = local_sec t mod 3600 div 60"

definition Second :: "time \<Rightarrow> int" where
  "Second t = local_sec t mod 60"

definition Nanosecond :: "time \<Rightarrow> int" where
  "Nanosecond t = t_ns t mod ns_per_sec"

text \<open>\<open>time.Date\<close> normalises its arguments: a month outside 1 to 12 carries into the year, the
  other fields carry into the next larger one.\<close>

definition Date :: "int \<Rightarrow> int \<Rightarrow> int \<Rightarrow> int \<Rightarrow> int \<Rightarrow> int \<Rightarrow> int \<Rightarrow> Location \<Rightarrow> time" where
  "Date y m d h mi s ns loc =
     (let y' = y + (m - 1) div 12; m' = (m - 1) mod 12 + 1
      in \<lparr>t_ns = ns_per_sec * (86400 * day_number y' m' d + 3600 * h + 60 * mi + s - loc) + ns,
          t_loc = loc\<rparr>)"

definition AddDate :: "time \<Rightarrow> int \<Rightarrow> int \<Rightarrow> int \<Rightarrow> time" where
  "AddDate t y m d =
     Date (Year t + y) (Month t + m) (Day t + d) (Hour t) (Minute t) (Second t) (Nanosecond t) (t_loc t)"

text \<open>A \<open>Duration\<close> is a number of nanoseconds.\<close>

definition Add :: "time \<Rightarrow> int \<Rightarrow> time" where
  "Add t d = t\<lparr>t_ns := t_ns t + d\<rparr>"

text \<open>\<open>Truncate\<close> works on the time since the zero time, not on the local clock.\<close>

definition Truncate :: "time \<Rightarrow> int \<Rightarrow> time" where
  "Truncate t d =
     (if d \<le> 0 then t else Add t (- (t_ns t mod d)))"

text \<open>The difference saturates at the largest and smallest \<open>Duration\<close>.\<close>

definition Sub :: "time \<Rightarrow> time \<Rightarrow> int" where
  "Sub t u = max (- (2 ^ 63)) (min (2 ^ 63 - 1) (t_ns t - t_ns u))"

definition Before :: "time \<Rightarrow> time \<Rightarrow> bool" where
  "Before t u \<longleftrightarrow> t_ns t < t_ns u"

definition After :: "time \<Rightarrow> time \<Rightarrow> bool" where
  "After t u \<longleftrightarrow> Before u t"

definition In :: "time \<Rightarrow> Location \<Rightarrow> time" where
  "In t loc = t\<lparr>t_loc := loc\<rparr>"

section \<open>The units of the local clock\<close>

text \<open>
  A unit divides the seconds of the clock into consecutive intervals: \<open>fl x\<close> is the first second of
  the interval of \<open>x\<close> and \<open>nx x\<close> the first second of the next one.
\<close>

locale clock_unit =
  fixes fl :: "int \<Rightarrow> int"
    and nx :: "int \<Rightarrow> int"
  assumes fl_le: "fl x \<le> x"
    and nx_gt: "x < nx x"
    and same_unit: "fl x \<le> y \<Longrightarrow> y < nx x \<Longrightarrow> fl y = fl x \<and> nx y = nx x"
begin

lemma fl_fl: "fl (fl x) = fl x"
  using same_unit[of x "fl x"] fl_le[of x] nx_gt[of x] by simp

lemma fl_nx: "fl (nx x) = nx x"
proof (rule ccontr)
  assume "fl (nx x) \<noteq> nx x"
  then have lt: "fl (nx x) \<le> nx x - 1" using fl_le[of "nx x"] by simp
  have "nx (nx x - 1) = nx x"
    using same_unit[of x "nx x - 1"] fl_le[of x] nx_gt[of x] by simp
  moreover have "nx (nx x - 1) = nx (nx x)"
    using same_unit[of "nx x" "nx x - 1"] lt nx_gt[of "nx x"] by simp
  ultimately show False using nx_gt[of "nx x"] by simp
qed

lemma same_unit_between: "x \<le> y \<Longrightarrow> y < nx x \<Longrightarrow> fl y = fl x \<and> nx y = nx x"
  using same_unit[of x y] fl_le[of x] by simp

end

text \<open>A unit inside a larger one, as hours are inside days.\<close>

locale nested_units = inner: clock_unit fl nx + outer: clock_unit pfl pnx
  for fl nx pfl pnx :: "int \<Rightarrow> int" +
  assumes inside: "pfl x \<le> fl x" "nx x \<le> pnx x"
begin

lemma next_in_outer: "nx x \<noteq> pnx x \<Longrightarrow> pfl (nx x) = pfl x \<and> pnx (nx x) = pnx x"
  using outer.same_unit_between[of x "nx x"] inside(2)[of x] inner.nx_gt[of x] by simp

lemma next_outer_cases: "pfl (nx x) = pfl x \<or> pfl (nx x) = nx x"
  using next_in_outer[of x] outer.fl_nx[of x] by metis

lemma outer_start: "pfl x = x \<Longrightarrow> fl x = x"
  using inside(1)[of x] inner.fl_le[of x] by simp

end

lemma nested_trans:
  assumes "nested_units fl nx pfl pnx" and "nested_units pfl pnx qfl qnx"
  shows "nested_units fl nx qfl qnx"
  using assms unfolding nested_units_def nested_units_axioms_def by (meson order_trans)

definition year_fl :: "int \<Rightarrow> int" where
  "year_fl x = 86400 * days_before_year (year_of_day (x div 86400))"

definition year_nx :: "int \<Rightarrow> int" where
  "year_nx x = 86400 * days_before_year (year_of_day (x div 86400) + 1)"

definition month_fl :: "int \<Rightarrow> int" where
  "month_fl x = (let n = x div 86400
     in 86400 * day_number (year_of_day n) (month_of_day n) 1)"

definition month_nx :: "int \<Rightarrow> int" where
  "month_nx x = (let n = x div 86400
     in 86400 * day_number (year_of_day n) (month_of_day n + 1) 1)"

definition span_fl :: "int \<Rightarrow> int \<Rightarrow> int" where
  "span_fl k x = k * (x div k)"

definition span_nx :: "int \<Rightarrow> int \<Rightarrow> int" where
  "span_nx k x = k * (x div k) + k"

lemma day_div_bounds: "86400 * a \<le> x \<longleftrightarrow> a \<le> x div 86400" "x < 86400 * a \<longleftrightarrow> x div 86400 < a"
  for x a :: int
  by linarith+

lemma span_bounds:
  assumes "0 < k"
  shows "span_fl k x \<le> x" "x < span_nx k x"
  using assms by (simp_all add: span_fl_def span_nx_def pos_mod_bound minus_mod_eq_mult_div[symmetric])

lemma span_unit: "0 < k \<Longrightarrow> clock_unit (span_fl k) (span_nx k)"
proof
  fix x y assume k: "0 < k" and y: "span_fl k x \<le> y" "y < span_nx k x"
  have "y div k = x div k"
    using y k by (intro int_div_pos_eq[of y k "x div k" "y - k * (x div k)"])
      (simp_all add: span_fl_def span_nx_def)
  then show "span_fl k y = span_fl k x \<and> span_nx k y = span_nx k x"
    by (simp add: span_fl_def span_nx_def)
qed (simp_all add: span_bounds)

lemma span_nested:
  assumes "0 < k" "0 < n"
  shows "nested_units (span_fl k) (span_nx k) (span_fl (k * n)) (span_nx (k * n))"
proof (intro nested_units.intro span_unit nested_units_axioms.intro)
  fix x
  have d: "x div (k * n) = x div k div n" using assms by (simp add: zdiv_zmult2_eq)
  have "n * (x div k div n) \<le> x div k" "x div k < n * (x div k div n) + n"
    using assms(2) span_bounds[OF assms(2), of "x div k"] by (simp_all add: span_fl_def span_nx_def)
  then have "k * (n * (x div k div n)) \<le> k * (x div k)" "k * (x div k + 1) \<le> k * (n * (x div k div n) + n)"
    using assms(1) by simp_all
  then show "span_fl (k * n) x \<le> span_fl k x" "span_nx k x \<le> span_nx (k * n) x"
    by (simp_all add: span_fl_def span_nx_def d algebra_simps)
qed (use assms in simp_all)

lemma year_unit: "clock_unit year_fl year_nx"
proof
  fix x y
  show "year_fl x \<le> x" "x < year_nx x"
    by (simp_all add: year_fl_def year_nx_def day_div_bounds year_of_day_bounds)
  assume "year_fl x \<le> y" "y < year_nx x"
  then have "year_of_day (y div 86400) = year_of_day (x div 86400)"
    by (intro year_of_day_unique) (simp_all add: year_fl_def year_nx_def day_div_bounds)
  then show "year_fl y = year_fl x \<and> year_nx y = year_nx x"
    by (simp add: year_fl_def year_nx_def)
qed

lemma month_unit_day:
  assumes "n = x div 86400"
  shows "month_fl x \<le> 86400 * n" "86400 * n + 86400 \<le> month_nx x"
  using month_of_day_bounds[of n] assms
  by (simp_all add: month_fl_def month_nx_def day_number_def Let_def)

lemma month_in_year: "year_fl x \<le> month_fl x" "month_nx x \<le> year_nx x"
proof -
  let ?n = "x div 86400"
  have "0 \<le> days_before_month (year_of_day ?n) (month_of_day ?n)"
    using days_before_month_mono[of 1 "month_of_day ?n"] month_of_day_range[of ?n]
    by (simp add: days_before_month_def month_table_def)
  moreover have "days_before_month (year_of_day ?n) (month_of_day ?n + 1) \<le> days_before_month (year_of_day ?n) 13"
    using month_of_day_range[of ?n] by (intro days_before_month_mono) simp_all
  ultimately show "year_fl x \<le> month_fl x" "month_nx x \<le> year_nx x"
    by (simp_all add: year_fl_def month_fl_def year_nx_def month_nx_def day_number_def Let_def
        days_before_month_13 days_before_year_Suc split: if_splits)
qed

lemma month_unit: "clock_unit month_fl month_nx"
proof
  fix x y
  show fl: "month_fl x \<le> x" and nx: "x < month_nx x"
    using month_unit_day[OF refl, of x] by linarith+
  assume y: "month_fl x \<le> y" "y < month_nx x"
  then have yr: "year_of_day (y div 86400) = year_of_day (x div 86400)"
    using month_in_year[of x]
    by (intro year_of_day_unique) (simp_all add: year_fl_def year_nx_def flip: day_div_bounds)
  have "month_of_day (y div 86400) = month_of_day (x div 86400)"
    using y month_of_day_range[of "x div 86400"] unfolding month_fl_def month_nx_def Let_def day_div_bounds
    by (intro month_of_day_unique) (simp_all add: yr day_number_def)
  with yr show "month_fl y = month_fl x \<and> month_nx y = month_nx x"
    by (simp add: month_fl_def month_nx_def Let_def)
qed

interpretation month_year: nested_units month_fl month_nx year_fl year_nx
  by (intro nested_units.intro nested_units_axioms.intro month_unit year_unit month_in_year)

interpretation day_month: nested_units "span_fl 86400" "span_nx 86400" month_fl month_nx
  by (intro nested_units.intro nested_units_axioms.intro month_unit span_unit)
    (use month_unit_day[OF refl] in \<open>simp_all add: span_fl_def span_nx_def\<close>)

interpretation hour_day: nested_units "span_fl 3600" "span_nx 3600" "span_fl 86400" "span_nx 86400"
  using span_nested[of 3600 24] by simp

interpretation minute_hour: nested_units "span_fl 60" "span_nx 60" "span_fl 3600" "span_nx 3600"
  using span_nested[of 60 60] by simp

interpretation second_minute: nested_units "span_fl 1" "span_nx 1" "span_fl 60" "span_nx 60"
  using span_nested[of 1 60] by simp

interpretation hour_month: nested_units "span_fl 3600" "span_nx 3600" month_fl month_nx
  by (rule nested_trans[OF hour_day.nested_units_axioms day_month.nested_units_axioms])

interpretation minute_day: nested_units "span_fl 60" "span_nx 60" "span_fl 86400" "span_nx 86400"
  by (rule nested_trans[OF minute_hour.nested_units_axioms hour_day.nested_units_axioms])

interpretation minute_month: nested_units "span_fl 60" "span_nx 60" month_fl month_nx
  by (rule nested_trans[OF minute_day.nested_units_axioms day_month.nested_units_axioms])

end
