(* ===== verification/Cron_Spec.thy ===== *)
theory Cron_Spec
  imports Go_Time
begin

unbundle bit_operations_syntax

text \<open>
  The schedules of \<^verbatim>\<open>core/cron/spec.go\<close>: a crontab schedule as six 64-bit masks with its
  \<open>Next\<close>.  The labelled loop of \<open>Next\<close> is one
  function per field loop and one for the jump back to the label \<open>WRAP\<close>; each terminates by a
  measure.  The main result, in
  the theory \<open>Cron_Next\<close>, is that \<open>Next\<close> returns the earliest matching second after the given
  time, or the zero time when there is none up to the end of the fifth following year.
\<close>

section \<open>Schedules\<close>

type_synonym mask = "64 word"

record SpecSchedule =
  s_Second :: mask
  s_Minute :: mask
  s_Hour :: mask
  s_Dom :: mask
  s_Month :: mask
  s_Dow :: mask

record bounds =
  b_min :: "64 word"
  b_max :: "64 word"
  b_names :: "(string \<times> 64 word) list option"

text \<open>A Go map literal is the association list of its entries; \<open>nil\<close> is \<open>None\<close>.\<close>

definition seconds :: bounds where
  "seconds = \<lparr>b_min = 0, b_max = 59, b_names = None\<rparr>"

definition minutes :: bounds where
  "minutes = \<lparr>b_min = 0, b_max = 59, b_names = None\<rparr>"

definition hours :: bounds where
  "hours = \<lparr>b_min = 0, b_max = 23, b_names = None\<rparr>"

definition dom :: bounds where
  "dom = \<lparr>b_min = 1, b_max = 31, b_names = None\<rparr>"

definition months :: bounds where
  "months = \<lparr>b_min = 1, b_max = 12, b_names = Some
     [(''jan'', 1), (''feb'', 2), (''mar'', 3), (''apr'', 4), (''may'', 5), (''jun'', 6),
      (''jul'', 7), (''aug'', 8), (''sep'', 9), (''oct'', 10), (''nov'', 11), (''dec'', 12)]\<rparr>"

definition dow :: bounds where
  "dow = \<lparr>b_min = 0, b_max = 6, b_names = Some
     [(''sun'', 0), (''mon'', 1), (''tue'', 2), (''wed'', 3), (''thu'', 4), (''fri'', 5), (''sat'', 6)]\<rparr>"

definition starBit :: mask where
  "starBit = push_bit 63 1"

section \<open>Next\<close>

text \<open>The test \<open>1<<uint(v) & mask\<close>, whose value the code compares with 0.\<close>

definition field_bits :: "int \<Rightarrow> mask \<Rightarrow> mask" where
  "field_bits v m = push_bit (nat v) 1 AND m"

definition dayMatches :: "SpecSchedule \<Rightarrow> time \<Rightarrow> bool" where
  "dayMatches s t =
     (let domMatch = field_bits (Day t) (s_Dom s) > 0;
          dowMatch = field_bits (Weekday t) (s_Dow s) > 0
      in if s_Dom s AND starBit > 0 \<or> s_Dow s AND starBit > 0
         then domMatch \<and> dowMatch else domMatch \<or> dowMatch)"

text \<open>A field loop ends by falling through to the next field or by a jump to \<open>WRAP\<close>, with the
  current values of \<open>t\<close> and \<open>added\<close>.\<close>

datatype loop_exit = Fall time bool | Wrap time bool

definition month_advance :: "time \<Rightarrow> bool \<Rightarrow> time" where
  "month_advance t added =
     AddDate (if added then t else Date (Year t) (Month t) 1 0 0 0 0 (t_loc t)) 0 1 0"

definition day_advance :: "time \<Rightarrow> bool \<Rightarrow> time" where
  "day_advance t added =
     AddDate (if added then t else Date (Year t) (Month t) (Day t) 0 0 0 0 (t_loc t)) 0 0 1"

definition hour_advance :: "time \<Rightarrow> bool \<Rightarrow> time" where
  "hour_advance t added =
     Add (if added then t else Date (Year t) (Month t) (Day t) (Hour t) 0 0 0 (t_loc t))
       (3600 * ns_per_sec)"

definition minute_advance :: "time \<Rightarrow> bool \<Rightarrow> time" where
  "minute_advance t added =
     Add (if added then t else Truncate t (60 * ns_per_sec)) (60 * ns_per_sec)"

definition second_advance :: "time \<Rightarrow> bool \<Rightarrow> time" where
  "second_advance t added =
     Add (if added then t else Truncate t ns_per_sec) ns_per_sec"

section \<open>What the calendar operations do to the local clock\<close>

lemma local_sec_split:
  "local_sec t = 86400 * local_day t + 3600 * Hour t + 60 * Minute t + Second t"
proof -
  let ?x = "local_sec t"
  have "?x = 86400 * (?x div 86400) + ?x mod 86400" by simp
  also have "?x mod 86400 = 3600 * (?x mod 86400 div 3600) + ?x mod 3600"
    using mult_div_mod_eq[of 3600 "?x mod 86400"] mod_mod_cancel[of 3600 86400 ?x] by simp
  also have "?x mod 3600 = 60 * (?x mod 3600 div 60) + ?x mod 60"
    using mult_div_mod_eq[of 60 "?x mod 3600"] mod_mod_cancel[of 60 3600 ?x] by simp
  finally show ?thesis by (simp add: local_day_def Hour_def Minute_def Second_def)
qed

lemma clock_ranges:
  "0 \<le> Hour t" "Hour t \<le> 23" "0 \<le> Minute t" "Minute t \<le> 59" "0 \<le> Second t" "Second t \<le> 59"
  unfolding Hour_def Minute_def Second_def
  using pos_mod_bound[of 86400 "local_sec t"] pos_mod_bound[of 3600 "local_sec t"]
    pos_mod_bound[of 60 "local_sec t"]
  by (simp_all add: div_int_pos_iff)

lemma date_ranges:
  "1 \<le> Month t" "Month t \<le> 12" "1 \<le> Day t" "Day t \<le> days_in_month (Year t) (Month t)" "Day t \<le> 31"
  using month_of_day_range[of "local_day t"] mday_of_day_range[of "local_day t"]
    days_in_month_bounds[of "Month t" "Year t"]
  by (auto simp: Month_def Day_def Year_def)

lemma day_number_local: "day_number (Year t) (Month t) (Day t) = local_day t"
  by (simp add: Year_def Month_def Day_def day_number_of_day)

lemma Date_local:
  assumes "0 \<le> ns" "ns < ns_per_sec"
  shows "local_sec (Date y m d h mi s ns loc) =
    86400 * day_number (y + (m - 1) div 12) ((m - 1) mod 12 + 1) d + 3600 * h + 60 * mi + s"
  using assms by (simp add: Date_def local_sec_def Let_def)

lemma Date_local_day:
  assumes "0 \<le> ns" "ns < ns_per_sec" "0 \<le> h" "h \<le> 23" "0 \<le> mi" "mi \<le> 59" "0 \<le> s" "s \<le> 59"
  shows "local_day (Date y m d h mi s ns loc) = day_number (y + (m - 1) div 12) ((m - 1) mod 12 + 1) d"
proof -
  have "0 \<le> 3600 * h + 60 * mi + s" "3600 * h + 60 * mi + s < 86400" using assms(3-8) by linarith+
  then show ?thesis
    by (simp add: local_day_def Date_local[OF assms(1,2)] div_pos_pos_trivial add.assoc)
qed

lemma AddDate_local_day:
  "local_day (AddDate t y m d) =
     day_number (Year t + y + (Month t + m - 1) div 12) ((Month t + m - 1) mod 12 + 1) (Day t + d)"
  unfolding AddDate_def Nanosecond_def using clock_ranges[of t] by (intro Date_local_day) simp_all

lemma mod_mult_div: "0 < k \<Longrightarrow> 0 < m \<Longrightarrow> (x::int) mod (k * m) div k = x div k mod m"
  by (simp add: zmod_zmult2_eq)

lemma Hour_alt: "Hour t = local_sec t div 3600 mod 24"
  using mod_mult_div[of 3600 24 "local_sec t"] by (simp add: Hour_def)

lemma Minute_alt: "Minute t = local_sec t div 60 mod 60"
  using mod_mult_div[of 60 60 "local_sec t"] by (simp add: Minute_def)

lemma mod_Suc_int:
  assumes "0 < (m::int)"
  shows "(y + 1) mod m = (if y mod m = m - 1 then 0 else y mod m + 1)"
proof -
  have "(y + 1) mod m = (y mod m + 1) mod m" by (simp add: mod_simps)
  moreover have "0 \<le> y mod m" "y mod m < m" using assms by simp_all
  ultimately show ?thesis by (auto simp: mod_pos_pos_trivial)
qed

lemma next_day_number: "n + 1 = day_number (year_of_day n) (month_of_day n) (mday_of_day n + 1)"
  using day_number_of_day[of n] by (simp add: day_number_def)

lemma next_day_last:
  assumes d: "mday_of_day n = days_in_month (year_of_day n) (month_of_day n)"
  shows "mday_of_day (n + 1) = 1"
proof (cases "month_of_day n = 12")
  case True
  then have "n + 1 = day_number (year_of_day n + 1) 1 1"
    using next_day_number[of n] d
    by (simp add: day_number_def days_in_month_def days_before_year_Suc days_before_month_13)
      (simp add: days_before_month_def month_table_def)
  then show ?thesis
    using date_of_day_number(3)[of 1 1 "year_of_day n + 1"] days_in_month_bounds[of 1 "year_of_day n + 1"]
    by simp
next
  case False
  then have "n + 1 = day_number (year_of_day n) (month_of_day n + 1) 1"
    using next_day_number[of n] d by (simp add: day_number_def days_in_month_def)
  then show ?thesis
    using date_of_day_number(3)[of "month_of_day n + 1" 1 "year_of_day n"]
      days_in_month_bounds[of "month_of_day n + 1" "year_of_day n"] False month_of_day_range[of n]
    by simp
qed

lemma next_day_cases:
  "mday_of_day (n + 1) = 1 \<or> mday_of_day (n + 1) = mday_of_day n + 1"
proof (cases "mday_of_day n < days_in_month (year_of_day n) (month_of_day n)")
  case True
  then show ?thesis
    using date_of_day_number(3)[of "month_of_day n" "mday_of_day n + 1" "year_of_day n"]
      next_day_number[of n] month_of_day_range[of n] mday_of_day_range[of n]
    by simp
next
  case False
  then show ?thesis using next_day_last[of n] mday_of_day_range[of n] by simp
qed

lemma next_month_cases:
  "Month (AddDate t 0 1 0) = 1 \<or> Month t < Month (AddDate t 0 1 0)"
proof (cases "Month t = 12")
  case True
  have "days_in_month (Year t + 1) 1 = 31"
    by (simp add: days_in_month_def days_before_month_def month_table_def)
  then show ?thesis
    using True AddDate_local_day[of t 0 1 0] date_ranges[of t] date_of_day_number(2)[of 1 "Day t" "Year t + 1"]
    by (simp add: Month_def)
next
  case False
  let ?m = "Month t + 1" and ?y = "Year t"
  have m: "1 \<le> ?m" "?m \<le> 12" using False date_ranges[of t] by simp_all
  have ld: "local_day (AddDate t 0 1 0) = day_number ?y ?m (Day t)"
    using AddDate_local_day[of t 0 1 0] m by simp
  show ?thesis
  proof (cases "Day t \<le> days_in_month ?y ?m")
    case True
    then have "Month (AddDate t 0 1 0) = ?m"
      using ld date_of_day_number(2)[of ?m "Day t" ?y] m date_ranges[of t] by (simp add: Month_def)
    then show ?thesis by simp
  next
    case False
    have "days_in_month ?y 12 = 31"
      by (simp add: days_in_month_def days_before_month_def month_table_def)
    then have "?m \<noteq> 12" using False date_ranges[of t] by auto
    then have m1: "?m + 1 \<le> 12" using m by simp
    have "local_day (AddDate t 0 1 0) = day_number ?y (?m + 1) (Day t - days_in_month ?y ?m)"
      using ld by (simp add: day_number_def days_in_month_def)
    moreover have "1 \<le> Day t - days_in_month ?y ?m" "Day t - days_in_month ?y ?m \<le> days_in_month ?y (?m + 1)"
      using False days_in_month_bounds[of ?m ?y] days_in_month_bounds[of "?m + 1" ?y] m m1 date_ranges[of t]
      by linarith+
    ultimately have "Month (AddDate t 0 1 0) = ?m + 1"
      using date_of_day_number(2)[of "?m + 1" _ ?y] m m1 by (simp add: Month_def)
    then show ?thesis by simp
  qed
qed

lemma Date_same_month: "Month (Date (Year t) (Month t) 1 0 0 0 0 loc) = Month t"
  using Date_local_day[of 0 0 0 0 "Year t" "Month t" 1 loc] date_ranges[of t]
    date_of_day_number(2)[of "Month t" 1 "Year t"]
  by (simp add: Month_def)

lemma Date_same_day: "local_day (Date (Year t) (Month t) (Day t) h 0 0 0 loc) = local_day t"
  if "0 \<le> h" "h \<le> 23"
  using Date_local_day[of 0 h 0 0 "Year t" "Month t" "Day t" loc] date_ranges[of t]
    day_number_local[of t] that
  by simp

lemma AddDate_next_day: "local_day (AddDate t 0 0 1) = local_day t + 1"
  using AddDate_local_day[of t 0 0 1] date_ranges[of t] day_number_local[of t]
  by (simp add: day_number_def)

lemma Add_local: "local_sec (Add t (k * ns_per_sec)) = local_sec t + k"
  by (simp add: Add_def local_sec_def)

lemma Hour_Add: "Hour (Add t (3600 * ns_per_sec)) = (if Hour t = 23 then 0 else Hour t + 1)"
  using mod_Suc_int[of 24 "local_sec t div 3600"]
  by (simp add: Hour_alt Add_local div_add_self2)

lemma Minute_Add: "Minute (Add t (60 * ns_per_sec)) = (if Minute t = 59 then 0 else Minute t + 1)"
  using mod_Suc_int[of 60 "local_sec t div 60"]
  by (simp add: Minute_alt Add_local div_add_self2)

lemma Second_Add: "Second (Add t ns_per_sec) = (if Second t = 59 then 0 else Second t + 1)"
  using mod_Suc_int[of 60 "local_sec t"] Add_local[of t 1] by (simp add: Second_def)

section \<open>The loops of Next\<close>

text \<open>
  Each field loop: while the field's bit is not set, reset the smaller fields on the first
  increment (\<open>added\<close>), increment, and jump to \<open>WRAP\<close> when the field came back to its beginning.
\<close>

lemma month_advance_cases: "Month (month_advance t a) = 1 \<or> Month t < Month (month_advance t a)"
  unfolding month_advance_def
  using next_month_cases[of "if a then t else Date (Year t) (Month t) 1 0 0 0 0 (t_loc t)"]
    Date_same_month[of t "t_loc t"]
  by (cases a) auto

lemma day_advance_cases: "Day (day_advance t a) = 1 \<or> Day (day_advance t a) = Day t + 1"
proof -
  let ?u = "if a then t else Date (Year t) (Month t) (Day t) 0 0 0 0 (t_loc t)"
  have "local_day ?u = local_day t" using Date_same_day[of 0 t "t_loc t"] by simp
  then have "local_day (day_advance t a) = local_day t + 1"
    unfolding day_advance_def by (simp add: AddDate_next_day)
  then show ?thesis using next_day_cases[of "local_day t"] by (simp add: Day_def)
qed

lemma hour_reset: "Hour (Date (Year t) (Month t) (Day t) (Hour t) 0 0 0 loc) = Hour t"
  using Date_local[of 0 "Year t" "Month t" "Day t" "Hour t" 0 0 loc] clock_ranges[of t]
  by (simp add: Hour_def mod_pos_pos_trivial)

lemma hour_advance_cases: "Hour (hour_advance t a) = 0 \<or> Hour (hour_advance t a) = Hour t + 1"
  using hour_reset[of t "t_loc t"] by (auto simp: hour_advance_def Hour_Add)

lemma minute_advance_cases:
  "a \<Longrightarrow> Minute (minute_advance t a) = 0 \<or> Minute (minute_advance t a) = Minute t + 1"
  by (auto simp: minute_advance_def Minute_Add)

lemma second_advance_cases:
  "a \<Longrightarrow> Second (second_advance t a) = 0 \<or> Second (second_advance t a) = Second t + 1"
  by (auto simp: second_advance_def Second_Add)

function month_loop :: "SpecSchedule \<Rightarrow> time \<Rightarrow> bool \<Rightarrow> loop_exit" where
  "month_loop s t added =
     (if field_bits (Month t) (s_Month s) \<noteq> 0 then Fall t added
      else let t' = month_advance t added
           in if Month t' = 1 then Wrap t' True else month_loop s t' True)"
  by pat_completeness auto
termination
proof (relation "measure (\<lambda>(s, t, a). nat (13 - Month t))", goal_cases)
  case (2 s t a t')
  then show ?case using month_advance_cases[of t a] date_ranges[of t'] by auto
qed simp

function day_loop :: "SpecSchedule \<Rightarrow> time \<Rightarrow> bool \<Rightarrow> loop_exit" where
  "day_loop s t added =
     (if dayMatches s t then Fall t added
      else let t' = day_advance t added
           in if Day t' = 1 then Wrap t' True else day_loop s t' True)"
  by pat_completeness auto
termination
proof (relation "measure (\<lambda>(s, t, a). nat (32 - Day t))", goal_cases)
  case (2 s t a t')
  then show ?case using day_advance_cases[of t a] date_ranges[of t] by auto
qed simp

function hour_loop :: "SpecSchedule \<Rightarrow> time \<Rightarrow> bool \<Rightarrow> loop_exit" where
  "hour_loop s t added =
     (if field_bits (Hour t) (s_Hour s) \<noteq> 0 then Fall t added
      else let t' = hour_advance t added
           in if Hour t' = 0 then Wrap t' True else hour_loop s t' True)"
  by pat_completeness auto
termination
proof (relation "measure (\<lambda>(s, t, a). nat (24 - Hour t))", goal_cases)
  case (2 s t a t')
  then show ?case using hour_advance_cases[of t a] clock_ranges[of t] by auto
qed simp

function minute_loop :: "SpecSchedule \<Rightarrow> time \<Rightarrow> bool \<Rightarrow> loop_exit" where
  "minute_loop s t added =
     (if field_bits (Minute t) (s_Minute s) \<noteq> 0 then Fall t added
      else let t' = minute_advance t added
           in if Minute t' = 0 then Wrap t' True else minute_loop s t' True)"
  by pat_completeness auto
termination
proof (relation "measure (\<lambda>(s, t, a). (if a then 0 else 100) + nat (60 - Minute t))", goal_cases)
  case (2 s t a t')
  then show ?case using minute_advance_cases[of a t] clock_ranges[of t] clock_ranges[of t']
    by (cases a) auto
qed simp

function second_loop :: "SpecSchedule \<Rightarrow> time \<Rightarrow> bool \<Rightarrow> loop_exit" where
  "second_loop s t added =
     (if field_bits (Second t) (s_Second s) \<noteq> 0 then Fall t added
      else let t' = second_advance t added
           in if Second t' = 0 then Wrap t' True else second_loop s t' True)"
  by pat_completeness auto
termination
proof (relation "measure (\<lambda>(s, t, a). (if a then 0 else 100) + nat (60 - Second t))", goal_cases)
  case (2 s t a t')
  then show ?case using second_advance_cases[of a t] clock_ranges[of t] clock_ranges[of t']
    by (cases a) auto
qed simp

lemmas loop_simps = month_loop.simps day_loop.simps hour_loop.simps minute_loop.simps second_loop.simps

declare loop_simps [simp del]

section \<open>Every loop moves forward\<close>

text \<open>
  The contract of a field loop: it repeats \<open>advance\<close> until \<open>ok\<close> or \<open>first\<close>, each \<open>advance\<close> keeps the
  location and moves the local clock forward, and a rank shows that it ends.
\<close>

definition forward_exit :: "time \<Rightarrow> loop_exit \<Rightarrow> bool" where
  "forward_exit t e = (case e of
     Fall t' a' \<Rightarrow> t_loc t' = t_loc t \<and> local_sec t \<le> local_sec t'
   | Wrap t' a' \<Rightarrow> t_loc t' = t_loc t \<and> local_sec t < local_sec t')"

locale field_loop =
  fixes loop :: "time \<Rightarrow> bool \<Rightarrow> loop_exit"
    and ok :: "time \<Rightarrow> bool"
    and advance :: "time \<Rightarrow> bool \<Rightarrow> time"
    and first :: "time \<Rightarrow> bool"
    and rank :: "time \<Rightarrow> bool \<Rightarrow> nat"
  assumes loop_eq: "loop t a = (if ok t then Fall t a
      else let t' = advance t a in if first t' then Wrap t' True else loop t' True)"
    and rank_less: "\<not> first (advance t a) \<Longrightarrow> rank (advance t a) True < rank t a"
    and advance_loc: "t_loc (advance t a) = t_loc t"
    and advance_gt: "local_sec t < local_sec (advance t a)"
begin

lemma exit_forward: "forward_exit t (loop t a)"
  unfolding forward_exit_def
proof (induction "rank t a" arbitrary: t a rule: less_induct)
  case less
  show ?case
  proof (cases "ok t \<or> first (advance t a)")
    case True
    then show ?thesis
      using advance_loc[of t a] advance_gt[of t a] by (subst loop_eq) (auto simp: Let_def)
  next
    case False
    then have "loop t a = loop (advance t a) True" by (subst loop_eq) (simp add: Let_def)
    with less[of "advance t a" True] rank_less[of t a] False advance_loc[of t a] advance_gt[of t a] show ?thesis
      by (auto split: loop_exit.splits)
  qed
qed

lemma fall_ok: "loop t a = Fall t' a' \<Longrightarrow> ok t'"
proof (induction "rank t a" arbitrary: t a rule: less_induct)
  case less
  then show ?case
    using less(1)[of "advance t a" True] rank_less[of t a] loop_eq[of t a] by (auto simp: Let_def split: if_splits)
qed

end

lemma Date_loc: "t_loc (Date y m d h mi s ns loc) = loc"
  by (simp add: Date_def Let_def)

lemma AddDate_loc [simp]: "t_loc (AddDate t y m d) = t_loc t"
  by (simp add: AddDate_def Date_loc)

lemma Add_loc [simp]: "t_loc (Add t d) = t_loc t"
  by (simp add: Add_def)

lemma Truncate_loc [simp]: "t_loc (Truncate t d) = t_loc t"
  by (simp add: Truncate_def)

lemmas advance_defs = month_advance_def day_advance_def hour_advance_def minute_advance_def second_advance_def

lemma advance_locs:
  "t_loc (month_advance t a) = t_loc t" "t_loc (day_advance t a) = t_loc t"
  "t_loc (hour_advance t a) = t_loc t" "t_loc (minute_advance t a) = t_loc t"
  "t_loc (second_advance t a) = t_loc t"
  by (simp_all add: advance_defs Date_loc)

lemma AddDate_local:
  "local_sec (AddDate t y m d) = 86400 * local_day (AddDate t y m d) + (local_sec t - 86400 * local_day t)"
proof -
  have "local_sec (AddDate t y m d) = 86400 * local_day (AddDate t y m d) + 3600 * Hour t + 60 * Minute t + Second t"
    unfolding AddDate_local_day unfolding AddDate_def Nanosecond_def by (subst Date_local) simp_all
  then show ?thesis using local_sec_split[of t] by simp
qed

text \<open>The first second of the next unit, reached when the smaller fields have been reset.\<close>

lemma month_fl_local: "month_fl (local_sec t) = 86400 * day_number (Year t) (Month t) 1"
  by (simp add: month_fl_def Year_def Month_def local_day_def Let_def)

lemma month_nx_local: "month_nx (local_sec t) = 86400 * day_number (Year t) (Month t + 1) 1"
  by (simp add: month_nx_def Year_def Month_def local_day_def Let_def)

lemma day_number_next_month:
  assumes "1 \<le> m" "m \<le> 12"
  shows "day_number (y + m div 12) (m mod 12 + 1) d = day_number y (m + 1) d"
proof (cases "m = 12")
  case True
  then show ?thesis
    by (simp add: day_number_def days_before_year_Suc days_before_month_13)
       (simp add: days_before_month_def month_table_def)
next
  case False
  then show ?thesis using assms by simp
qed

lemma AddDate_next_month:
  "local_day (AddDate t 0 1 0) = local_day t + days_in_month (Year t) (Month t)"
  using AddDate_local_day[of t 0 1 0] day_number_next_month[of "Month t" "Year t" "Day t"] date_ranges[of t]
    day_number_local[of t]
  by (simp add: day_number_def days_in_month_def)

lemma month_start_local:
  "local_sec (Date (Year t) (Month t) 1 0 0 0 0 loc) = month_fl (local_sec t)"
  using date_ranges[of t] by (simp add: Date_local month_fl_local)

lemma month_advance_start:
  assumes "local_sec t = month_fl (local_sec t)"
  shows "local_sec (AddDate t 0 1 0) = month_nx (local_sec t)"
proof -
  have "86400 * local_day t = month_fl (local_sec t)"
    using assms unfolding month_fl_local by (simp add: local_day_def)
  then have "local_sec (AddDate t 0 1 0) = month_fl (local_sec t) + 86400 * days_in_month (Year t) (Month t)"
    using assms AddDate_local[of t 0 1 0] AddDate_next_month[of t] by simp
  then show ?thesis
    unfolding month_nx_local month_fl_local by (simp add: day_number_def days_in_month_def)
qed

lemma month_advance_local:
  assumes "a \<Longrightarrow> month_fl (local_sec t) = local_sec t"
  shows "local_sec (month_advance t a) = month_nx (local_sec t)"
proof -
  let ?u = "if a then t else Date (Year t) (Month t) 1 0 0 0 0 (t_loc t)"
  have u: "local_sec ?u = month_fl (local_sec t)"
    using assms month_start_local[of t] by simp
  then have "local_sec (AddDate ?u 0 1 0) = month_nx (local_sec ?u)"
    using month_year.inner.fl_fl[of "local_sec t"] by (intro month_advance_start) simp
  also have "\<dots> = month_nx (local_sec t)"
    using u month_year.inner.same_unit[of "local_sec t" "local_sec ?u"] month_year.inner.fl_le[of "local_sec t"]
      month_year.inner.nx_gt[of "local_sec t"] by simp
  finally show ?thesis by (simp add: month_advance_def)
qed

lemma day_advance_local:
  assumes "a \<Longrightarrow> span_fl 86400 (local_sec t) = local_sec t"
  shows "local_sec (day_advance t a) = span_nx 86400 (local_sec t)"
proof -
  let ?u = "if a then t else Date (Year t) (Month t) (Day t) 0 0 0 0 (t_loc t)"
  have "local_sec ?u = 86400 * local_day t"
    using assms date_ranges[of t] day_number_local[of t]
    by (auto simp: Date_local span_fl_def local_day_def)
  moreover from this have "local_day ?u = local_day t" by (simp add: local_day_def)
  ultimately show ?thesis
    using AddDate_local[of ?u 0 0 1] AddDate_next_day[of ?u]
    by (simp add: day_advance_def span_nx_def local_day_def)
qed

lemma hour_start_local:
  "local_sec (Date (Year t) (Month t) (Day t) (Hour t) 0 0 0 loc) = span_fl 3600 (local_sec t)"
proof -
  have "local_sec t = 3600 * (24 * local_day t + Hour t) + (60 * Minute t + Second t)"
    using local_sec_split[of t] by simp
  moreover have "0 \<le> 60 * Minute t + Second t" "60 * Minute t + Second t < 3600"
    using clock_ranges[of t] by linarith+
  ultimately have "local_sec t div 3600 = 24 * local_day t + Hour t"
    by (metis div_pos_pos_trivial div_mult_self4 add.right_neutral zero_neq_numeral)
  then show ?thesis
    using date_ranges[of t] day_number_local[of t] by (simp add: Date_local span_fl_def)
qed

lemma hour_advance_local:
  "(a \<Longrightarrow> span_fl 3600 (local_sec t) = local_sec t) \<Longrightarrow>
   local_sec (hour_advance t a) = span_nx 3600 (local_sec t)"
  by (auto simp: hour_advance_def Add_local hour_start_local span_fl_def span_nx_def)

text \<open>
  The loops for minutes and seconds reset by \<open>Truncate\<close>, which rounds the time since the zero time.
  That is the start of the local minute only where the offset from UTC is a whole number of minutes.
\<close>

definition whole_second :: "time \<Rightarrow> bool" where
  "whole_second t \<longleftrightarrow> t_ns t mod ns_per_sec = 0"

lemma Truncate_ns: "0 < d \<Longrightarrow> t_ns (Truncate t d) = d * (t_ns t div d)"
  by (simp add: Truncate_def Add_def minus_mod_eq_mult_div)

lemma div_60_ns: "t_ns t div (60 * ns_per_sec) = t_ns t div ns_per_sec div 60"
  by (simp add: zdiv_zmult2_eq mult.commute[of 60])

lemma Truncate_minute_sec:
  "local_sec (Truncate t (60 * ns_per_sec)) = 60 * (t_ns t div ns_per_sec div 60) + t_loc t"
proof -
  have "t_ns (Truncate t (60 * ns_per_sec)) = ns_per_sec * (60 * (t_ns t div ns_per_sec div 60))"
    by (simp add: Truncate_ns div_60_ns)
  then show ?thesis by (simp add: local_sec_def)
qed

lemma Truncate_second_sec: "local_sec (Truncate t ns_per_sec) = local_sec t"
  by (simp add: local_sec_def Truncate_ns)

lemma offset_minutes: "t_loc t mod 60 = 0 \<Longrightarrow>
  60 * (t_ns t div ns_per_sec div 60) + t_loc t = span_fl 60 (local_sec t)"
  by (auto simp: span_fl_def local_sec_def elim!: dvdE simp flip: dvd_eq_mod_eq_0)

lemma minute_advance_local:
  "t_loc t mod 60 = 0 \<Longrightarrow> (a \<Longrightarrow> span_fl 60 (local_sec t) = local_sec t) \<Longrightarrow>
   local_sec (minute_advance t a) = span_nx 60 (local_sec t)"
  using offset_minutes[of t] Add_local[of _ 60]
  by (auto simp: minute_advance_def Truncate_minute_sec span_nx_def span_fl_def)

lemma second_advance_local: "local_sec (second_advance t a) = span_nx 1 (local_sec t)"
  using Add_local[of _ 1] by (simp add: second_advance_def Truncate_second_sec span_nx_def)

lemma advance_gts:
  "local_sec t < local_sec (month_advance t a)" "local_sec t < local_sec (day_advance t a)"
  "local_sec t < local_sec (hour_advance t a)" "local_sec t < local_sec (minute_advance t a)"
  "local_sec t < local_sec (second_advance t a)"
proof -
  have div60: "x < 60 * (x div 60) + 60" for x :: int by linarith
  have "local_sec t < local_sec (AddDate t 0 1 0)"
    using AddDate_local[of t 0 1 0] AddDate_next_month[of t] days_in_month_bounds[of "Month t" "Year t"]
      date_ranges[of t] by simp
  then show "local_sec t < local_sec (month_advance t a)"
    using month_advance_local[of a t] month_year.inner.nx_gt[of "local_sec t"]
    by (cases a) (simp_all add: month_advance_def)
  have "local_sec t < local_sec (AddDate t 0 0 1)"
    using AddDate_local[of t 0 0 1] AddDate_next_day[of t] by simp
  then show "local_sec t < local_sec (day_advance t a)"
    using day_advance_local[of a t] day_month.inner.nx_gt[of "local_sec t"]
    by (cases a) (simp_all add: day_advance_def)
  show "local_sec t < local_sec (hour_advance t a)"
    using hour_advance_local[of a t] hour_day.inner.nx_gt[of "local_sec t"] Add_local[of t 3600]
    by (cases a) (simp_all add: hour_advance_def)
  show "local_sec t < local_sec (minute_advance t a)"
    using Add_local[of _ 60] Truncate_minute_sec[of t] div60[of "t_ns t div ns_per_sec"]
    by (simp add: minute_advance_def) (simp add: local_sec_def)
  show "local_sec t < local_sec (second_advance t a)"
    by (simp add: second_advance_local span_nx_def)
qed

interpretation month: field_loop "month_loop s" "\<lambda>t. field_bits (Month t) (s_Month s) \<noteq> 0"
    month_advance "\<lambda>t. Month t = 1" "\<lambda>t a. nat (13 - Month t)" for s
proof
  fix t a assume "Month (month_advance t a) \<noteq> 1"
  then show "nat (13 - Month (month_advance t a)) < nat (13 - Month t)"
    using month_advance_cases[of t a] date_ranges[of "month_advance t a"] by auto
qed (simp_all add: month_loop.simps advance_locs advance_gts)

interpretation day: field_loop "day_loop s" "dayMatches s" day_advance "\<lambda>t. Day t = 1"
    "\<lambda>t a. nat (32 - Day t)" for s
proof
  fix t a assume "Day (day_advance t a) \<noteq> 1"
  then show "nat (32 - Day (day_advance t a)) < nat (32 - Day t)"
    using day_advance_cases[of t a] date_ranges[of t] by auto
qed (simp_all add: day_loop.simps advance_locs advance_gts)

interpretation hour: field_loop "hour_loop s" "\<lambda>t. field_bits (Hour t) (s_Hour s) \<noteq> 0"
    hour_advance "\<lambda>t. Hour t = 0" "\<lambda>t a. nat (24 - Hour t)" for s
proof
  fix t a assume "Hour (hour_advance t a) \<noteq> 0"
  then show "nat (24 - Hour (hour_advance t a)) < nat (24 - Hour t)"
    using hour_advance_cases[of t a] clock_ranges[of t] by auto
qed (simp_all add: hour_loop.simps advance_locs advance_gts)

interpretation minute: field_loop "minute_loop s" "\<lambda>t. field_bits (Minute t) (s_Minute s) \<noteq> 0"
    minute_advance "\<lambda>t. Minute t = 0" "\<lambda>t a. (if a then 0 else 100) + nat (60 - Minute t)" for s
proof
  fix t a assume "Minute (minute_advance t a) \<noteq> 0"
  then show "(if True then 0 else 100) + nat (60 - Minute (minute_advance t a))
      < (if a then 0 else 100) + nat (60 - Minute t)"
    using minute_advance_cases[of a t] clock_ranges[of t] clock_ranges[of "minute_advance t a"]
    by (cases a) auto
qed (simp_all add: minute_loop.simps advance_locs advance_gts)

interpretation second: field_loop "second_loop s" "\<lambda>t. field_bits (Second t) (s_Second s) \<noteq> 0"
    second_advance "\<lambda>t. Second t = 0" "\<lambda>t a. (if a then 0 else 100) + nat (60 - Second t)" for s
proof
  fix t a assume "Second (second_advance t a) \<noteq> 0"
  then show "(if True then 0 else 100) + nat (60 - Second (second_advance t a))
      < (if a then 0 else 100) + nat (60 - Second t)"
    using second_advance_cases[of a t] clock_ranges[of t] clock_ranges[of "second_advance t a"]
    by (cases a) auto
qed (simp_all add: second_loop.simps advance_locs advance_gts)

section \<open>The jump back to WRAP\<close>

fun and_then :: "loop_exit \<Rightarrow> (time \<Rightarrow> bool \<Rightarrow> loop_exit) \<Rightarrow> loop_exit" where
  "and_then (Wrap t a) k = Wrap t a"
| "and_then (Fall t a) k = k t a"

definition fields_pass :: "SpecSchedule \<Rightarrow> time \<Rightarrow> bool \<Rightarrow> loop_exit" where
  "fields_pass s t added =
     and_then (month_loop s t added) (\<lambda>t added.
     and_then (day_loop s t added) (\<lambda>t added.
     and_then (hour_loop s t added) (\<lambda>t added.
     and_then (minute_loop s t added) (\<lambda>t added.
     second_loop s t added))))"

lemma and_then_forward:
  assumes "forward_exit t e" and "\<And>t' a'. e = Fall t' a' \<Longrightarrow> forward_exit t' (k t' a')"
  shows "forward_exit t (and_then e k)"
proof (cases e)
  case (Fall t' a')
  with assms(1) assms(2)[OF Fall] show ?thesis
    by (auto simp: forward_exit_def split: loop_exit.splits)
qed (use assms(1) in simp)

lemma fields_pass_forward: "forward_exit t (fields_pass s t a)"
  unfolding fields_pass_def
  by (intro and_then_forward month.exit_forward day.exit_forward hour.exit_forward
      minute.exit_forward second.exit_forward)

lemma Year_le_iff: "Year t \<le> y \<longleftrightarrow> local_sec t < 86400 * days_before_year (y + 1)"
  unfolding Year_def day_div_bounds local_day_def[symmetric]
  using year_of_day_bounds[of "local_day t"] days_before_year_mono[of "year_of_day (local_day t) + 1" "y + 1"]
    days_before_year_mono[of "y + 1" "year_of_day (local_day t)"]
  by linarith

text \<open>
  From the label \<open>WRAP\<close>: give up past the year limit, run the field loops, start again on a jump.
  The clock moves forward in every round, and a round starts only before the end of the limit.
\<close>

function next_from :: "SpecSchedule \<Rightarrow> int \<Rightarrow> time \<Rightarrow> bool \<Rightarrow> time" where
  "next_from s yearLimit t added =
     (if Year t > yearLimit then zero_time
      else case fields_pass s t added of
             Wrap t' added' \<Rightarrow> next_from s yearLimit t' added'
           | Fall t' added' \<Rightarrow> t')"
  by pat_completeness auto
termination
proof (relation "measure (\<lambda>(s, lim, t, a). nat (86400 * days_before_year (lim + 1) - local_sec t))", goal_cases)
  case (2 s lim t a t' a')
  then show ?case
    using fields_pass_forward[of t s a] Year_le_iff[of t lim] by (simp add: forward_exit_def)
qed simp

declare next_from.simps [simp del]

definition Next :: "SpecSchedule \<Rightarrow> time \<Rightarrow> time" where
  "Next s t =
     (let t = Add t (ns_per_sec - Nanosecond t); yearLimit = Year t + 5
      in next_from s yearLimit t False)"

end
