(* ===== verification/Go_Strings.thy ===== *)
theory Go_Strings
  imports Prelude
begin

text \<open>
  The functions of Go's packages \<open>strings\<close>, \<open>strconv\<close> and \<open>time\<close> that the sources apply to text:
  splitting, lower-casing, decimal conversion and duration syntax.  Text is a list of bytes;
  white space and letter case are those of ASCII.
\<close>

section \<open>Splitting\<close>

fun split_by :: "(char \<Rightarrow> bool) \<Rightarrow> string \<Rightarrow> string list" where
  "split_by p [] = [[]]"
| "split_by p (c # cs) =
     (if p c then [] # split_by p cs
      else case split_by p cs of [] \<Rightarrow> [[c]] | w # ws \<Rightarrow> (c # w) # ws)"

text \<open>\<open>strings.Split\<close> with a one-byte separator keeps empty parts; \<open>strings.FieldsFunc\<close> and
  \<open>strings.Fields\<close> drop them.\<close>

definition Split :: "string \<Rightarrow> char \<Rightarrow> string list" where
  "Split s sep = split_by (\<lambda>c. c = sep) s"

definition FieldsFunc :: "string \<Rightarrow> (char \<Rightarrow> bool) \<Rightarrow> string list" where
  "FieldsFunc s p = filter (\<lambda>w. w \<noteq> []) (split_by p s)"

definition is_space :: "char \<Rightarrow> bool" where
  "is_space c \<longleftrightarrow> c = CHR '' '' \<or> 9 \<le> (of_char c :: nat) \<and> (of_char c :: nat) \<le> 13"

definition Fields :: "string \<Rightarrow> string list" where
  "Fields s = FieldsFunc s is_space"

lemma split_by_nonempty: "split_by p s \<noteq> []"
  by (induction s) (auto split: list.splits)

lemma split_by_no_sep: "w \<in> set (split_by p s) \<Longrightarrow> c \<in> set w \<Longrightarrow> \<not> p c"
  by (induction s arbitrary: w) (fastforce split: if_splits list.splits)+

definition ToLower :: "string \<Rightarrow> string" where
  "ToLower s = map (\<lambda>c. if 65 \<le> (of_char c :: nat) \<and> (of_char c :: nat) \<le> 90
     then char_of (of_char c + 32 :: nat) else c) s"

definition HasPrefix :: "string \<Rightarrow> string \<Rightarrow> bool" where
  "HasPrefix s pre \<longleftrightarrow> take (length pre) s = pre"

section \<open>Decimal numbers\<close>

definition is_digit :: "char \<Rightarrow> bool" where
  "is_digit c \<longleftrightarrow> 48 \<le> (of_char c :: nat) \<and> (of_char c :: nat) \<le> 57"

definition digit_val :: "char \<Rightarrow> int" where
  "digit_val c = int (of_char c) - 48"

definition digits_val :: "string \<Rightarrow> int" where
  "digits_val ds = foldl (\<lambda>n c. 10 * n + digit_val c) 0 ds"

text \<open>\<open>strconv.Atoi\<close>: an optional sign, then one or more digits, in the range of a 64-bit \<open>int\<close>.
  \<open>None\<close> is either of its errors.\<close>

definition Atoi :: "string \<Rightarrow> int option" where
  "Atoi s =
     (let neg = (s \<noteq> [] \<and> hd s = CHR ''-'');
          ds = (if s \<noteq> [] \<and> (hd s = CHR ''-'' \<or> hd s = CHR ''+'') then tl s else s)
      in if ds = [] \<or> \<not> list_all is_digit ds then None
         else let n = (if neg then - digits_val ds else digits_val ds)
              in if - (2 ^ 63) \<le> n \<and> n < 2 ^ 63 then Some n else None)"

text \<open>\<open>strconv.Itoa\<close> and the verb \<open>%d\<close>.\<close>

definition digit_char :: "nat \<Rightarrow> char" where
  "digit_char n = char_of (n + 48)"

function nat_digits :: "nat \<Rightarrow> string" where
  "nat_digits n = (if n < 10 then [digit_char n] else nat_digits (n div 10) @ [digit_char (n mod 10)])"
  by pat_completeness auto
termination by (relation "measure id") auto

declare nat_digits.simps [simp del]

definition Itoa :: "int \<Rightarrow> string" where
  "Itoa n = (if n < 0 then CHR ''-'' # nat_digits (nat (- n)) else nat_digits (nat n))"

lemma digit_char_props:
  assumes "n < 10"
  shows "is_digit (digit_char n)" "digit_val (digit_char n) = int n"
  using assms by (simp_all add: is_digit_def digit_char_def digit_val_def)

lemma nat_digits_all: "list_all is_digit (nat_digits n)"
  by (induction n rule: nat_digits.induct) (subst nat_digits.simps, simp add: digit_char_props)

lemma nat_digits_nonempty: "nat_digits n \<noteq> []"
  by (subst nat_digits.simps) simp

lemma digits_val_nat_digits: "digits_val (nat_digits n) = int n"
proof (induction n rule: nat_digits.induct)
  case (1 n)
  show ?case
  proof (cases "n < 10")
    case True
    then show ?thesis by (subst nat_digits.simps) (simp add: digits_val_def digit_char_props)
  next
    case False
    have "digits_val (nat_digits n) = 10 * digits_val (nat_digits (n div 10)) + int (n mod 10)"
      using False by (subst nat_digits.simps) (simp add: digits_val_def digit_char_props)
    with 1 False show ?thesis by (simp add: zdiv_int zmod_int)
  qed
qed

lemma nat_digits_hd: "is_digit (hd (nat_digits n))"
  using nat_digits_all[of n] nat_digits_nonempty[of n] by (cases "nat_digits n") auto

lemma not_digit_sign: "\<not> is_digit (CHR ''-'')" "\<not> is_digit (CHR ''+'')" "\<not> is_digit (CHR '','')"
  "\<not> is_digit (CHR 0x0A)" "\<not> is_digit (CHR '' '')"
  by (simp_all add: is_digit_def)

lemma Atoi_Itoa:
  assumes "- (2 ^ 63) \<le> n" "n < 2 ^ 63"
  shows "Atoi (Itoa n) = Some n"
proof -
  have ne: "hd (nat_digits k) \<noteq> CHR ''-''" "hd (nat_digits k) \<noteq> CHR ''+''" for k
    using nat_digits_hd[of k] not_digit_sign by metis+
  show ?thesis
    using assms ne by (simp add: Atoi_def Itoa_def nat_digits_all nat_digits_nonempty digits_val_nat_digits Let_def)
qed

section \<open>Durations\<close>

text \<open>
  \<open>time.ParseDuration\<close>: an optional sign, then one or more of a decimal number with an optional
  fraction and a unit; \<open>"0"\<close> alone needs no unit.  Durations are nanoseconds in the range of
  \<open>int64\<close>.  The contribution of a fraction is computed exactly and rounded towards zero; the library
  computes it in \<open>float64\<close>.
\<close>

definition unit_ns :: "string \<Rightarrow> int option" where
  "unit_ns u = map_of
     [(''ns'', 1), (''us'', 1000),
      ([char_of (0xC2::nat), char_of (0xB5::nat), CHR ''s''], 1000),
      ([char_of (0xCE::nat), char_of (0xBC::nat), CHR ''s''], 1000),
      (''ms'', 1000000), (''s'', 1000000000), (''m'', 60000000000), (''h'', 3600000000000)] u"

abbreviation max_int64 :: int where
  "max_int64 \<equiv> 2 ^ 63 - 1"

text \<open>The fraction keeps only as many digits as fit in \<open>int64\<close>; the others are skipped.\<close>

fun leading_fraction :: "string \<Rightarrow> int \<Rightarrow> int \<Rightarrow> int \<times> int" where
  "leading_fraction [] f scale = (f, scale)"
| "leading_fraction (c # cs) f scale =
     (if f > max_int64 div 10 \<or> 10 * f + digit_val c > max_int64 then (f, scale)
      else leading_fraction cs (10 * f + digit_val c) (scale * 10))"

text \<open>The digits before and after the point of the next number, and the rest of the text.\<close>

definition scan_number :: "string \<Rightarrow> string \<times> string \<times> string" where
  "scan_number s =
     (let s1 = dropWhile is_digit s
      in if s1 \<noteq> [] \<and> hd s1 = CHR ''.''
         then (takeWhile is_digit s, takeWhile is_digit (tl s1), dropWhile is_digit (tl s1))
         else (takeWhile is_digit s, [], s1))"

definition item_value :: "string \<Rightarrow> string \<Rightarrow> string \<Rightarrow> int option" where
  "item_value ds fs u =
     (let v = digits_val ds; (f, scale) = leading_fraction fs 0 1
      in if v > max_int64 \<or> ds = [] \<and> fs = [] \<or> u = [] then None
         else case unit_ns u of
                None \<Rightarrow> None
              | Some unit \<Rightarrow>
                  if v > max_int64 div unit then None
                  else let w = v * unit + (f * unit) div scale
                       in if w > max_int64 then None else Some w)"

definition is_unit_char :: "char \<Rightarrow> bool" where
  "is_unit_char c \<longleftrightarrow> c \<noteq> CHR ''.'' \<and> \<not> is_digit c"

definition duration_item :: "string \<Rightarrow> (int \<times> string) option" where
  "duration_item s =
     (if s = [] \<or> \<not> (hd s = CHR ''.'' \<or> is_digit (hd s)) then None
      else case scan_number s of
             (ds, fs, s2) \<Rightarrow>
               map_option (\<lambda>w. (w, dropWhile is_unit_char s2))
                 (item_value ds fs (takeWhile is_unit_char s2)))"

lemma scan_number_shorter: "scan_number s = (ds, fs, s2) \<Longrightarrow> length s2 \<le> length s"
  unfolding scan_number_def Let_def
  using length_dropWhile_le[of is_digit s] length_dropWhile_le[of is_digit "tl (dropWhile is_digit s)"]
  by (simp split: if_splits)

lemma item_value_unit: "item_value ds fs u = Some w \<Longrightarrow> u \<noteq> []"
  by (auto simp: item_value_def Let_def split: prod.splits if_splits)

lemma duration_item_shorter: "duration_item s = Some (w, s') \<Longrightarrow> length s' < length s"
proof -
  assume "duration_item s = Some (w, s')"
  then obtain ds fs s2 where sc: "scan_number s = (ds, fs, s2)"
      and iv: "item_value ds fs (takeWhile is_unit_char s2) = Some w"
      and s': "s' = dropWhile is_unit_char s2"
    by (auto simp: duration_item_def split: if_splits prod.splits)
  have "0 < length (takeWhile is_unit_char s2)" using item_value_unit[OF iv] by simp
  moreover have "length (takeWhile is_unit_char s2) + length s' = length s2"
    unfolding s' by (metis length_append takeWhile_dropWhile_id)
  ultimately show ?thesis using scan_number_shorter[OF sc] by linarith
qed

function duration_loop :: "string \<Rightarrow> int \<Rightarrow> int option" where
  "duration_loop s d =
     (if s = [] then Some d
      else case duration_item s of
             None \<Rightarrow> None
           | Some (w, s') \<Rightarrow> if d + w > max_int64 then None else duration_loop s' (d + w))"
  by pat_completeness auto
termination
  by (relation "measure (length \<circ> fst)") (auto dest: duration_item_shorter)

declare duration_loop.simps [simp del]

definition ParseDuration :: "string \<Rightarrow> int option" where
  "ParseDuration s =
     (let neg = (s \<noteq> [] \<and> hd s = CHR ''-'');
          s1 = (if s \<noteq> [] \<and> (hd s = CHR ''-'' \<or> hd s = CHR ''+'') then tl s else s)
      in if s1 = ''0'' then Some 0
         else if s1 = [] then None
         else map_option (\<lambda>d. if neg then - d else d) (duration_loop s1 0))"

end
