(* ===== verification/Cron_Parser.thy ===== *)
theory Cron_Parser
  imports Cron_Spec Go_Strings
begin

unbundle bit_operations_syntax

text \<open>
  The parser of crontab specifications, \<^verbatim>\<open>core/cron/parser.go\<close>, and the constant delay of
  \<^verbatim>\<open>core/cron/constantdelay.go\<close> that its \<open>@every\<close> descriptor returns.  Errors are values; the two
  ways the code could fail to return (an index out of range in \<open>expandFields\<close>, a loop of \<open>getBits\<close>
  that does not end) are values too, and are proved not to occur.
\<close>

section \<open>Constant delays\<close>

record ConstantDelaySchedule =
  cd_Delay :: int

text \<open>The remainder of Go truncates towards zero.\<close>

definition go_rem :: "int \<Rightarrow> int \<Rightarrow> int" where
  "go_rem a b = sgn a * (\<bar>a\<bar> mod \<bar>b\<bar>)"

definition Every :: "int \<Rightarrow> ConstantDelaySchedule" where
  "Every duration =
     (let duration = (if duration < ns_per_sec then ns_per_sec else duration)
      in \<lparr>cd_Delay = duration - go_rem duration ns_per_sec\<rparr>)"

definition ConstantDelay_Next :: "ConstantDelaySchedule \<Rightarrow> time \<Rightarrow> time" where
  "ConstantDelay_Next sched t = Add t (cd_Delay sched - Nanosecond t)"

section \<open>Schedules and parse errors\<close>

datatype Schedule = Spec SpecSchedule | Constant ConstantDelaySchedule

fun Schedule_Next :: "Schedule \<Rightarrow> time \<Rightarrow> time" where
  "Schedule_Next (Spec s) t = Next s t"
| "Schedule_Next (Constant c) t = ConstantDelay_Next c t"

datatype parse_error =
    EmptySpec
  | ExpectedExactly int int string
  | ExpectedBetween int int int string
  | TooManyHyphens string
  | TooManySlashes string
  | BelowMinimum "64 word" "64 word" string
  | AboveMaximum "64 word" "64 word" string
  | BeyondEnd "64 word" "64 word" string
  | ZeroStep string
  | NotAnInt string
  | NegativeNumber int string
  | BadDuration string
  | UnrecognizedDescriptor string
  | FieldIndexPanic
  | LoopDiverges

section \<open>Ranges\<close>

definition mustParseInt :: "string \<Rightarrow> parse_error + 64 word" where
  "mustParseInt expr =
     (case Atoi expr of
        None \<Rightarrow> Inl (NotAnInt expr)
      | Some num \<Rightarrow> if num < 0 then Inl (NegativeNumber num expr) else Inr (word_of_int num))"

definition parseIntOrName :: "string \<Rightarrow> (string \<times> 64 word) list option \<Rightarrow> parse_error + 64 word" where
  "parseIntOrName expr names =
     (case names of
        None \<Rightarrow> mustParseInt expr
      | Some ns \<Rightarrow>
          (case map_of ns (ToLower expr) of
             Some namedInt \<Rightarrow> Inr namedInt
           | None \<Rightarrow> mustParseInt expr))"

text \<open>The loop of \<open>getBits\<close>; \<open>None\<close> when it does not end, as for a step of 0.\<close>

partial_function (option) getBits_loop ::
    "64 word \<Rightarrow> 64 word \<Rightarrow> 64 word \<Rightarrow> mask \<Rightarrow> mask option" where
  "getBits_loop i hi step bits =
     (if i \<le> hi then getBits_loop (i + step) hi step (bits OR push_bit (unat i) 1) else Some bits)"

definition getBits :: "64 word \<Rightarrow> 64 word \<Rightarrow> 64 word \<Rightarrow> mask option" where
  "getBits lo hi step =
     (if step = 1
      then Some (NOT (push_bit (unat (hi + 1)) (- 1)) AND push_bit (unat lo) (- 1))
      else getBits_loop lo hi step 0)"

definition range_ends :: "string \<Rightarrow> bounds \<Rightarrow> parse_error + (64 word \<times> 64 word \<times> mask)" where
  "range_ends expr r =
     (let rangeAndStep = Split expr (CHR ''/''); lowAndHigh = Split (rangeAndStep ! 0) (CHR ''-'')
      in if lowAndHigh ! 0 = ''*'' \<or> lowAndHigh ! 0 = ''?''
         then Inr (b_min r, b_max r, starBit)
         else bindp (parseIntOrName (lowAndHigh ! 0) (b_names r)) (\<lambda>start.
              if length lowAndHigh = 1 then Inr (start, start, 0)
              else if length lowAndHigh = 2
              then bindp (parseIntOrName (lowAndHigh ! 1) (b_names r)) (\<lambda>end. Inr (start, end, 0))
              else Inl (TooManyHyphens expr)))"

definition range_step :: "string \<Rightarrow> bounds \<Rightarrow> 64 word \<Rightarrow> parse_error + (64 word \<times> 64 word)" where
  "range_step expr r end =
     (let rangeAndStep = Split expr (CHR ''/'');
          singleDigit = length (Split (rangeAndStep ! 0) (CHR ''-'')) = 1
      in if length rangeAndStep = 1 then Inr (1, end)
         else if length rangeAndStep = 2
         then bindp (mustParseInt (rangeAndStep ! 1)) (\<lambda>step.
                Inr (step, if singleDigit then b_max r else end))
         else Inl (TooManySlashes expr))"

definition getRange :: "string \<Rightarrow> bounds \<Rightarrow> parse_error + mask" where
  "getRange expr r =
     bindp (range_ends expr r) (\<lambda>(start, end0, extra).
     bindp (range_step expr r end0) (\<lambda>(step, end).
       if start < b_min r then Inl (BelowMinimum start (b_min r) expr)
       else if end > b_max r then Inl (AboveMaximum end (b_max r) expr)
       else if start > end then Inl (BeyondEnd start end expr)
       else if step = 0 then Inl (ZeroStep expr)
       else case getBits start end step of
              None \<Rightarrow> Inl LoopDiverges
            | Some bits \<Rightarrow> Inr (bits OR extra)))"

fun getField_loop :: "string list \<Rightarrow> bounds \<Rightarrow> mask \<Rightarrow> parse_error + mask" where
  "getField_loop [] r bits = Inr bits"
| "getField_loop (expr # ranges) r bits =
     bindp (getRange expr r) (\<lambda>bit. getField_loop ranges r (bits OR bit))"

definition getField :: "string \<Rightarrow> bounds \<Rightarrow> parse_error + mask" where
  "getField field r = getField_loop (FieldsFunc field (\<lambda>c. c = CHR '','')) r 0"

definition all_bits :: "bounds \<Rightarrow> mask" where
  "all_bits r = the (getBits (b_min r) (b_max r) 1) OR starBit"

section \<open>Descriptors\<close>

definition bit_at :: "64 word \<Rightarrow> mask" where
  "bit_at v = push_bit (unat v) 1"

definition parseDescriptor :: "string \<Rightarrow> parse_error + Schedule" where
  "parseDescriptor descriptor =
     (if descriptor = ''@yearly'' \<or> descriptor = ''@annually'' then Inr (Spec
        \<lparr>s_Second = bit_at (b_min seconds), s_Minute = bit_at (b_min minutes), s_Hour = bit_at (b_min hours),
         s_Dom = bit_at (b_min dom), s_Month = bit_at (b_min months), s_Dow = all_bits dow\<rparr>)
      else if descriptor = ''@monthly'' then Inr (Spec
        \<lparr>s_Second = bit_at (b_min seconds), s_Minute = bit_at (b_min minutes), s_Hour = bit_at (b_min hours),
         s_Dom = bit_at (b_min dom), s_Month = all_bits months, s_Dow = all_bits dow\<rparr>)
      else if descriptor = ''@weekly'' then Inr (Spec
        \<lparr>s_Second = bit_at (b_min seconds), s_Minute = bit_at (b_min minutes), s_Hour = bit_at (b_min hours),
         s_Dom = all_bits dom, s_Month = all_bits months, s_Dow = bit_at (b_min dow)\<rparr>)
      else if descriptor = ''@daily'' \<or> descriptor = ''@midnight'' then Inr (Spec
        \<lparr>s_Second = bit_at (b_min seconds), s_Minute = bit_at (b_min minutes), s_Hour = bit_at (b_min hours),
         s_Dom = all_bits dom, s_Month = all_bits months, s_Dow = all_bits dow\<rparr>)
      else if descriptor = ''@hourly'' then Inr (Spec
        \<lparr>s_Second = bit_at (b_min seconds), s_Minute = bit_at (b_min minutes), s_Hour = all_bits hours,
         s_Dom = all_bits dom, s_Month = all_bits months, s_Dow = all_bits dow\<rparr>)
      else if HasPrefix descriptor ''@every ''
      then (case ParseDuration (drop (length ''@every '') descriptor) of
              None \<Rightarrow> Inl (BadDuration descriptor)
            | Some duration \<Rightarrow> Inr (Constant (Every duration)))
      else Inl (UnrecognizedDescriptor descriptor))"

section \<open>Parsers\<close>

type_synonym ParseOption = int

definition o_Second :: ParseOption where "o_Second = push_bit 0 1"
definition o_Minute :: ParseOption where "o_Minute = push_bit 1 1"
definition o_Hour :: ParseOption where "o_Hour = push_bit 2 1"
definition o_Dom :: ParseOption where "o_Dom = push_bit 3 1"
definition o_Month :: ParseOption where "o_Month = push_bit 4 1"
definition o_Dow :: ParseOption where "o_Dow = push_bit 5 1"
definition o_DowOptional :: ParseOption where "o_DowOptional = push_bit 6 1"
definition o_Descriptor :: ParseOption where "o_Descriptor = push_bit 7 1"

definition places :: "ParseOption list" where
  "places = [o_Second, o_Minute, o_Hour, o_Dom, o_Month, o_Dow]"

definition defaults :: "string list" where
  "defaults = [''0'', ''0'', ''0'', ''*'', ''*'', ''*'']"

record Parser =
  p_options :: ParseOption
  p_optionals :: int

definition NewParser :: "ParseOption \<Rightarrow> Parser" where
  "NewParser options =
     (if options AND o_DowOptional > 0
      then \<lparr>p_options = options OR o_Dow, p_optionals = 1\<rparr>
      else \<lparr>p_options = options, p_optionals = 0\<rparr>)"

text \<open>The loop over \<open>places\<close> with the slots of \<open>expFields\<close> still to be visited and the index \<open>n\<close>.\<close>

fun expandFields_loop :: "string list \<Rightarrow> ParseOption \<Rightarrow> (ParseOption \<times> string) list \<Rightarrow> nat
    \<Rightarrow> parse_error + string list" where
  "expandFields_loop flds options [] n = Inr []"
| "expandFields_loop flds options ((place, dflt) # rest) n =
     (if options AND place > 0 \<and> \<not> n < length flds then Inl FieldIndexPanic
      else let exp = (if options AND place > 0 then flds ! n else dflt);
               n' = (if options AND place > 0 then n + 1 else n)
           in if n' = length flds then Inr (exp # map snd rest)
              else bindp (expandFields_loop flds options rest n') (\<lambda>es. Inr (exp # es)))"

definition expandFields :: "string list \<Rightarrow> ParseOption \<Rightarrow> parse_error + string list" where
  "expandFields flds options = expandFields_loop flds options (zip places defaults) 0"

definition parse_fields :: "string list \<Rightarrow> parse_error + Schedule" where
  "parse_fields flds =
     bindp (getField (flds ! 0) seconds) (\<lambda>second.
     bindp (getField (flds ! 1) minutes) (\<lambda>minute.
     bindp (getField (flds ! 2) hours) (\<lambda>hour.
     bindp (getField (flds ! 3) dom) (\<lambda>dayofmonth.
     bindp (getField (flds ! 4) months) (\<lambda>month.
     bindp (getField (flds ! 5) dow) (\<lambda>dayofweek.
       Inr (Spec \<lparr>s_Second = second, s_Minute = minute, s_Hour = hour,
                  s_Dom = dayofmonth, s_Month = month, s_Dow = dayofweek\<rparr>)))))))"

definition max_fields :: "Parser \<Rightarrow> int" where
  "max_fields p = int (length (filter (\<lambda>place. p_options p AND place > 0) places))"

definition Parser_Parse :: "Parser \<Rightarrow> string \<Rightarrow> parse_error + Schedule" where
  "Parser_Parse p spec =
     (if length spec = 0 then Inl EmptySpec
      else if spec ! 0 = CHR ''@'' \<and> p_options p AND o_Descriptor > 0 then parseDescriptor spec
      else let most = max_fields p; least = most - p_optionals p; flds = Fields spec; count = int (length flds)
           in if count < least \<or> count > most
              then (if least = most then Inl (ExpectedExactly least count spec)
                    else Inl (ExpectedBetween least most count spec))
              else bindp (expandFields flds (p_options p)) parse_fields)"

definition standardParser :: Parser where
  "standardParser =
     NewParser (o_Minute OR o_Hour OR o_Dom OR o_Month OR o_Dow OR o_Descriptor)"

definition ParseStandard :: "string \<Rightarrow> parse_error + Schedule" where
  "ParseStandard standardSpec = Parser_Parse standardParser standardSpec"

definition defaultParser :: Parser where
  "defaultParser =
     NewParser (o_Second OR o_Minute OR o_Hour OR o_Dom OR o_Month OR o_DowOptional OR o_Descriptor)"

definition Parse :: "string \<Rightarrow> parse_error + Schedule" where
  "Parse spec = Parser_Parse defaultParser spec"

section \<open>Bits of a range\<close>

text \<open>The values a range with a step denotes.\<close>

definition stepped :: "nat \<Rightarrow> nat \<Rightarrow> nat \<Rightarrow> nat set" where
  "stepped lo hi step = {i. lo \<le> i \<and> i \<le> hi \<and> step dvd (i - lo)}"

lemma stepped_unfold:
  assumes "lo \<le> hi" "0 < step"
  shows "stepped lo hi step = insert lo (stepped (lo + step) hi step)"
proof -
  have "i = lo \<or> lo + step \<le> i \<and> step dvd (i - (lo + step))" if "lo \<le> i" "step dvd (i - lo)" for i
  proof (cases "i = lo")
    case False
    with that have "step \<le> i - lo" by (auto intro: dvd_imp_le)
    moreover have "i - (lo + step) = (i - lo) - step" by simp
    ultimately show ?thesis using that by (metis dvd_minus_self le_diff_conv2 add.commute linorder_not_less)
  qed simp
  moreover have "lo \<le> i \<and> step dvd (i - lo)" if "lo + step \<le> i" "step dvd (i - (lo + step))" for i
  proof -
    have "i - lo = (i - (lo + step)) + step" using that by simp
    then show ?thesis using that by (metis dvd_add_triv_right_iff le_add1 le_trans)
  qed
  ultimately show ?thesis using assms by (auto simp: stepped_def)
qed

lemma stepped_empty: "hi < lo \<Longrightarrow> stepped lo hi step = {}"
  by (auto simp: stepped_def)

lemma bit_push_one [bit_simps]:
  "bit (push_bit n 1 :: mask) j \<longleftrightarrow> j = n \<and> n < 64"
  "bit (2 ^ n :: mask) j \<longleftrightarrow> j = n \<and> n < 64"
  by (auto simp: bit_exp_iff)

lemma getBits_loop_bits:
  assumes "hi < 64" "0 < step" "unat step < 2 ^ 63" "unat i < 2 ^ 63 + 64"
  shows "\<exists>m. getBits_loop i hi step bits = Some m \<and>
           (\<forall>j. bit m j \<longleftrightarrow> bit bits j \<or> j \<in> stepped (unat i) (unat hi) (unat step))"
  using assms(4)
proof (induction "unat hi + 1 - unat i" arbitrary: i bits rule: less_induct)
  case less
  have hi: "unat hi < 64" using assms(1) by (simp add: word_less_nat_alt)
  have st: "0 < unat step" using assms(2) by (simp add: word_less_nat_alt)
  show ?case
  proof (cases "i \<le> hi")
    case False
    then show ?thesis
      by (subst getBits_loop.simps) (simp add: stepped_empty word_le_nat_alt)
  next
    case True
    then have i: "unat i \<le> unat hi" by (simp add: word_le_nat_alt)
    have "unat (i + step) = unat i + unat step"
      using i hi assms(3) by (subst unat_add_lem[THEN iffD1]) (simp_all)
    then obtain m where m: "getBits_loop (i + step) hi step (bits OR push_bit (unat i) 1) = Some m"
        "\<forall>j. bit m j \<longleftrightarrow> bit (bits OR push_bit (unat i) 1) j \<or> j \<in> stepped (unat i + unat step) (unat hi) (unat step)"
      using less.hyps[of "i + step" "bits OR push_bit (unat i) 1"] i hi st assms(3) by fastforce
    from m show ?thesis
      using True i hi by (subst getBits_loop.simps) (auto simp: stepped_unfold[OF i st] bit_or_iff bit_simps)
  qed
qed

lemma getBits_bits:
  assumes "lo \<le> hi" "hi < 63" "0 < step" "unat step < 2 ^ 63"
  shows "\<exists>m. getBits lo hi step = Some m \<and> (\<forall>j. bit m j \<longleftrightarrow> j \<in> stepped (unat lo) (unat hi) (unat step))"
proof (cases "step = 1")
  case True
  have hi: "unat hi < 63" using assms(2) by (simp add: word_less_nat_alt)
  then have "unat (hi + 1) = unat hi + 1"
    by (subst unat_add_lem[THEN iffD1]) simp_all
  then show ?thesis
    using True hi by (auto simp: getBits_def stepped_def bit_and_iff bit_not_iff bit_push_bit_iff bit_minus_iff bit_mask_iff)
next
  case False
  have "hi < 64" using assms(2) by (simp add: word_less_nat_alt)
  moreover have "unat lo < 2 ^ 63 + 64"
    using assms(1,2) by (simp add: word_less_nat_alt word_le_nat_alt)
  ultimately show ?thesis
    using getBits_loop_bits[of hi step lo 0] assms(3,4) False by (simp add: getBits_def)
qed

text \<open>A number is valid in a step position and in a range only below $2^{63}$.\<close>

lemma mustParseInt_range: "mustParseInt e = Inr v \<Longrightarrow> unat v < 2 ^ 63"
proof -
  assume "mustParseInt e = Inr v"
  then obtain n where n: "Atoi e = Some n" "0 \<le> n" "v = word_of_int n"
    by (auto simp: mustParseInt_def split: option.splits if_splits)
  then have "n < 2 ^ 63" by (auto simp: Atoi_def Let_def split: if_splits)
  then have "uint v = n" using n by (simp add: uint_word_of_int)
  then have "int (unat v) < int (2 ^ 63)" using \<open>n < 2 ^ 63\<close> by simp
  then show ?thesis by (simp only: of_nat_less_iff)
qed

definition cron_bounds :: "bounds list" where
  "cron_bounds = [seconds, minutes, hours, dom, months, dow]"

lemma cron_bounds_max: "r \<in> set cron_bounds \<Longrightarrow> b_min r \<le> b_max r \<and> b_max r < 63"
  by (auto simp: cron_bounds_def seconds_def minutes_def hours_def dom_def months_def dow_def)

lemma range_step_positive: "range_step e r h = Inr (step, h') \<Longrightarrow> unat step < 2 ^ 63"
  by (auto simp: range_step_def Let_def dest: mustParseInt_range split: if_splits)

lemma range_ends_extra: "range_ends e r = Inr (a, b, x) \<Longrightarrow> x = 0 \<or> x = starBit"
  by (auto simp: range_ends_def Let_def split: if_splits)

lemma getRange_cases:
  assumes "r \<in> set cron_bounds"
  obtains (err) e where "getRange expr r = Inl e" "e \<noteq> LoopDiverges" "e \<noteq> FieldIndexPanic"
  | (ok) m lo h0 x step h where "getRange expr r = Inr (m OR x)" "range_ends expr r = Inr (lo, h0, x)"
      "range_step expr r h0 = Inr (step, h)" "0 < step" "b_min r \<le> lo" "lo \<le> h" "h \<le> b_max r"
      "\<forall>j. bit m j \<longleftrightarrow> j \<in> stepped (unat lo) (unat h) (unat step)"
proof -
  have e1: "e \<noteq> LoopDiverges \<and> e \<noteq> FieldIndexPanic" if "range_ends expr r = Inl e" for e
    using that by (auto simp: range_ends_def Let_def parseIntOrName_def mustParseInt_def
        split: if_splits option.splits)
  have e2: "e \<noteq> LoopDiverges \<and> e \<noteq> FieldIndexPanic" if "range_step expr r h = Inl e" for e h
    using that by (auto simp: range_step_def Let_def mustParseInt_def split: if_splits option.splits)
  consider e where "range_ends expr r = Inl e" | lo h0 x e where "range_ends expr r = Inr (lo, h0, x)" "range_step expr r h0 = Inl e"
    | lo h0 x step h where "range_ends expr r = Inr (lo, h0, x)" "range_step expr r h0 = Inr (step, h)"
    by (metis old.sum.exhaust surj_pair)
  then show thesis
  proof cases
    case 1
    then show ?thesis using e1 err by (simp add: getRange_def)
  next
    case 2
    then show ?thesis using e2 err by (simp add: getRange_def)
  next
    case 3
    show ?thesis
    proof (cases "b_min r \<le> lo \<and> h \<le> b_max r \<and> lo \<le> h \<and> 0 < step")
      case False
      with 3 have "\<exists>e. getRange expr r = Inl e \<and> e \<noteq> LoopDiverges \<and> e \<noteq> FieldIndexPanic"
        by (auto simp: getRange_def not_less not_le word_gt_0)
      then show ?thesis using err by blast
    next
      case True
      then have "h < 63" using cron_bounds_max[OF assms] by auto
      with True getBits_bits[of lo h step] range_step_positive[OF 3(2)] obtain m where
        "getBits lo h step = Some m" "\<forall>j. bit m j \<longleftrightarrow> j \<in> stepped (unat lo) (unat h) (unat step)" by auto
      with 3 True show ?thesis by (intro ok[of m x lo h0 step h]) (auto simp: getRange_def not_less not_le word_gt_0)
    qed
  qed
qed

lemma bit_starBit [bit_simps]: "bit starBit j \<longleftrightarrow> j = 63"
  by (auto simp: starBit_def bit_simps simp del: push_bit_of_1)

lemma getRange_bounds:
  assumes "r \<in> set cron_bounds" "getRange expr r = Inr m" "bit m j"
  shows "unat (b_min r) \<le> j \<and> j \<le> unat (b_max r) \<or> j = 63"
  using assms(1)
proof (cases rule: getRange_cases[of r expr])
  case (ok m' lo h0 x step h)
  with assms(2,3) range_ends_extra[OF ok(2)] show ?thesis
    by (auto simp: bit_or_iff bit_simps stepped_def word_le_nat_alt)
qed (use assms in auto)

lemma getField_loop_bounds:
  assumes "r \<in> set cron_bounds"
  shows "getField_loop es r b = Inr m \<Longrightarrow> bit m j \<Longrightarrow>
    bit b j \<or> unat (b_min r) \<le> j \<and> j \<le> unat (b_max r) \<or> j = 63"
proof (induction es arbitrary: b)
  case (Cons e es)
  then obtain m1 where m1: "getRange e r = Inr m1" "getField_loop es r (b OR m1) = Inr m" by auto
  from Cons.IH[OF m1(2) Cons.prems(2)] getRange_bounds[OF assms m1(1), of j]
  show ?case by (auto simp: bit_or_iff)
qed simp

lemma getField_bounds:
  assumes "r \<in> set cron_bounds" "getField f r = Inr m" "bit m j"
  shows "unat (b_min r) \<le> j \<and> j \<le> unat (b_max r) \<or> j = 63"
  using getField_loop_bounds[OF assms(1) assms(2)[unfolded getField_def] assms(3)] by simp

lemma getField_loop_returns:
  assumes "r \<in> set cron_bounds"
  shows "getField_loop es r b = Inl e \<Longrightarrow> e \<noteq> LoopDiverges \<and> e \<noteq> FieldIndexPanic"
proof (induction es arbitrary: b)
  case (Cons x es)
  show ?case
    using assms by (cases rule: getRange_cases[of r x]) (use Cons in auto)
qed simp

lemma getField_returns:
  "r \<in> set cron_bounds \<Longrightarrow> getField f r = Inl e \<Longrightarrow> e \<noteq> LoopDiverges \<and> e \<noteq> FieldIndexPanic"
  unfolding getField_def by (rule getField_loop_returns)

lemma expandFields_loop_ok:
  assumes "n < length flds \<or> length flds = n \<and> (\<forall>(p, d) \<in> set pds. \<not> opts AND p > 0) \<or> pds \<noteq> [] \<and> length flds = n \<and> \<not> opts AND fst (hd pds) > 0"
    and "n + length (filter (\<lambda>(p, d). opts AND p > 0) pds) \<ge> length flds"
  shows "\<exists>es. expandFields_loop flds opts pds n = Inr es \<and> length es = length pds"
  using assms
proof (induction pds arbitrary: n)
  case (Cons pd pds)
  obtain p d where pd: "pd = (p, d)" by force
  show ?case
  proof (cases "opts AND p > 0")
    case True
    with Cons.prems pd have n: "n < length flds" by auto
    show ?thesis
    proof (cases "n + 1 = length flds")
      case False
      then have "\<exists>es. expandFields_loop flds opts pds (n + 1) = Inr es \<and> length es = length pds"
        using Cons.prems n True pd by (intro Cons.IH) auto
      then show ?thesis using True n False pd by (auto simp: Let_def)
    qed (use True n pd in \<open>auto simp: Let_def\<close>)
  next
    case ff: False
    show ?thesis
    proof (cases "n = length flds")
      case False
      then have "\<exists>es. expandFields_loop flds opts pds n = Inr es \<and> length es = length pds"
        using Cons.prems ff pd by (intro Cons.IH) auto
      then show ?thesis using ff False pd by (auto simp: Let_def)
    qed (use ff pd in \<open>auto simp: Let_def\<close>)
  qed
qed simp

lemma NewParser_dow:
  assumes "p = NewParser options" "p_optionals p \<noteq> 0"
  shows "p_optionals p = 1" "p_options p AND o_Dow > 0"
proof -
  have "(options OR o_Dow) AND o_Dow = o_Dow"
    by (rule bit_eqI) (auto simp: bit_or_iff bit_and_iff)
  then show "p_optionals p = 1" "p_options p AND o_Dow > 0"
    using assms by (auto simp: NewParser_def o_Dow_def split: if_splits)
qed

lemma expandFields_ok:
  assumes "int (length flds) \<le> max_fields p" "max_fields p - p_optionals p \<le> int (length flds)"
    and "p = NewParser options"
  shows "\<exists>es. expandFields flds (p_options p) = Inr es \<and> length es = 6"
proof -
  have "flds \<noteq> [] \<or> \<not> p_options p AND o_Second > 0"
  proof (rule ccontr)
    assume "\<not> ?thesis"
    then have e: "flds = []" "p_options p AND o_Second > 0" by auto
    then have "max_fields p \<ge> 1" by (simp add: max_fields_def places_def)
    with e(1) assms have opt: "p_optionals p \<noteq> 0" by auto
    from NewParser_dow[OF assms(3) this] e(2) have "max_fields p \<ge> 2"
      by (simp add: max_fields_def places_def)
    with e(1) assms NewParser_dow(1)[OF assms(3) opt] show False by simp
  qed
  then have start: "0 < length flds \<or> length flds = 0 \<and> (\<forall>(q, d) \<in> set (zip places defaults). \<not> p_options p AND q > 0)
      \<or> zip places defaults \<noteq> [] \<and> length flds = 0 \<and> \<not> p_options p AND fst (hd (zip places defaults)) > 0"
    by (cases flds) (simp_all add: places_def defaults_def)
  have "length (filter (\<lambda>(q, d). p_options p AND q > 0) (zip places defaults))
      = length (filter (\<lambda>q. p_options p AND q > 0) (map fst (zip places defaults)))"
    by (simp add: filter_map comp_def case_prod_unfold)
  also have "map fst (zip places defaults) = places" by (simp add: places_def defaults_def)
  finally have "length flds \<le> 0 + length (filter (\<lambda>(q, d). p_options p AND q > 0) (zip places defaults))"
    using assms(1) by (simp add: max_fields_def)
  moreover have "length (zip places defaults) = 6" by (simp add: places_def defaults_def)
  ultimately show ?thesis using expandFields_loop_ok[OF start] by (simp add: expandFields_def)
qed

lemma parse_fields_returns:
  "parse_fields es = Inl e \<Longrightarrow> e \<noteq> LoopDiverges \<and> e \<noteq> FieldIndexPanic"
proof -
  have g: "bindp (getField f r) k = Inl e \<Longrightarrow> r \<in> set cron_bounds \<Longrightarrow>
      (\<And>m. k m = Inl e \<Longrightarrow> e \<noteq> LoopDiverges \<and> e \<noteq> FieldIndexPanic) \<Longrightarrow> e \<noteq> LoopDiverges \<and> e \<noteq> FieldIndexPanic"
    for f r and k :: "mask \<Rightarrow> parse_error + Schedule"
    using getField_returns[of r f] by (cases "getField f r") auto
  assume "parse_fields es = Inl e"
  then show ?thesis
    unfolding parse_fields_def
    by (elim g) (auto simp: cron_bounds_def)
qed

text \<open>C13: \<open>Parse\<close> is total for every parser that \<open>NewParser\<close> builds and every text: \<open>expandFields\<close> never
  indexes past the fields and the loop of \<open>getBits\<close> always ends; a rejected text gives one of the error
  values of the source.\<close>

theorem Parser_Parse_returns:
  "Parser_Parse (NewParser options) spec = Inl e \<Longrightarrow> e \<noteq> LoopDiverges \<and> e \<noteq> FieldIndexPanic"
proof -
  assume a: "Parser_Parse (NewParser options) spec = Inl e"
  let ?p = "NewParser options" and ?f = "Fields spec"
  have d: "parseDescriptor spec = Inl e \<Longrightarrow> e \<noteq> LoopDiverges \<and> e \<noteq> FieldIndexPanic"
    by (auto simp: parseDescriptor_def split: if_splits option.splits)
  show ?thesis
  proof (cases "int (length ?f) \<le> max_fields ?p \<and> max_fields ?p - p_optionals ?p \<le> int (length ?f)")
    case True
    then obtain es where "expandFields ?f (p_options ?p) = Inr es"
      using expandFields_ok[of ?f ?p options] by auto
    with True a d parse_fields_returns[of es e] show ?thesis
      by (auto simp: Parser_Parse_def Let_def split: if_splits)
  next
    case False
    with a d show ?thesis by (auto simp: Parser_Parse_def Let_def split: if_splits)
  qed
qed

lemma bit_all_bits:
  assumes "r \<in> set cron_bounds"
  shows "bit (all_bits r) j \<longleftrightarrow> unat (b_min r) \<le> j \<and> j \<le> unat (b_max r) \<or> j = 63"
proof -
  obtain m where "getBits (b_min r) (b_max r) 1 = Some m"
      "\<forall>j. bit m j \<longleftrightarrow> j \<in> stepped (unat (b_min r)) (unat (b_max r)) (unat (1 :: 64 word))"
    using getBits_bits[of "b_min r" "b_max r" 1] cron_bounds_max[OF assms] by auto
  then show ?thesis by (simp add: all_bits_def bit_or_iff bit_simps stepped_def)
qed

text \<open>All bits of a mask are values of its field, or the star bit.\<close>

definition within :: "bounds \<Rightarrow> mask \<Rightarrow> bool" where
  "within r m \<longleftrightarrow> (\<forall>j. bit m j \<longrightarrow> unat (b_min r) \<le> j \<and> j \<le> unat (b_max r) \<or> j = 63)"

definition masks_within :: "SpecSchedule \<Rightarrow> bool" where
  "masks_within s \<longleftrightarrow> within seconds (s_Second s) \<and> within minutes (s_Minute s) \<and> within hours (s_Hour s)
     \<and> within dom (s_Dom s) \<and> within months (s_Month s) \<and> within dow (s_Dow s)"

lemma within_all_bits: "r \<in> set cron_bounds \<Longrightarrow> within r (all_bits r)"
  by (simp add: within_def bit_all_bits)

lemma within_bit_at: "r \<in> set cron_bounds \<Longrightarrow> within r (bit_at (b_min r))"
  using cron_bounds_max[of r] by (auto simp: within_def bit_at_def bit_simps word_le_nat_alt simp del: push_bit_of_1)

lemma within_getField: "r \<in> set cron_bounds \<Longrightarrow> getField f r = Inr m \<Longrightarrow> within r m"
  unfolding within_def using getField_bounds by blast

lemma cron_bounds_members [simp]:
  "seconds \<in> set cron_bounds" "minutes \<in> set cron_bounds" "hours \<in> set cron_bounds"
  "dom \<in> set cron_bounds" "months \<in> set cron_bounds" "dow \<in> set cron_bounds"
  by (simp_all add: cron_bounds_def)

text \<open>C14: Whatever the text, every mask of a parsed schedule holds only values inside the bounds of its
  field, and possibly the star bit.\<close>

theorem Parse_masks_within:
  assumes "Parser_Parse p spec = Inr (Spec s)"
  shows "masks_within s"
proof (cases "parseDescriptor spec = Inr (Spec s)")
  case True
  show ?thesis
    using True unfolding parseDescriptor_def
    by (elim if_branchE) (auto simp: masks_within_def within_all_bits within_bit_at split: option.splits)
next
  case False
  then obtain es where "parse_fields es = Inr (Spec s)"
    using assms by (auto simp: Parser_Parse_def Let_def split: if_splits)
  then show ?thesis by (auto simp: parse_fields_def masks_within_def within_getField)
qed

theorem Parser_Parse_returns_witness:
  "Parser_Parse (NewParser (o_Dom OR o_DowOptional)) ''40 1'' = Inl (AboveMaximum 40 31 ''40'')
     \<and> AboveMaximum 40 31 ''40'' \<noteq> LoopDiverges \<and> AboveMaximum 40 31 ''40'' \<noteq> FieldIndexPanic"
proof -
  have "Parser_Parse (NewParser (o_Dom OR o_DowOptional)) ''40 1'' = Inl (AboveMaximum 40 31 ''40'')"
    by code_simp
  with Parser_Parse_returns[OF this] show ?thesis by blast
qed

theorem Parse_masks_within_witness:
  "masks_within \<lparr>s_Second = 1, s_Minute = 1, s_Hour = 1, s_Dom = 2, s_Month = 2, s_Dow = all_bits dow\<rparr>"
proof -
  have "Parser_Parse standardParser ''@yearly''
      = Inr (Spec \<lparr>s_Second = 1, s_Minute = 1, s_Hour = 1, s_Dom = 2, s_Month = 2, s_Dow = all_bits dow\<rparr>)"
    by code_simp
  from Parse_masks_within[OF this] show ?thesis .
qed

text \<open>Each predefined descriptor parses to the same schedule as the six-field text its
  documentation gives for it.\<close>

theorem descriptor_equivalents:
  "Parse ''@yearly'' = Parse ''0 0 0 1 1 *'' \<and> Parse ''@annually'' = Parse ''0 0 0 1 1 *'' \<and>
   Parse ''@monthly'' = Parse ''0 0 0 1 * *'' \<and> Parse ''@weekly'' = Parse ''0 0 0 * * 0'' \<and>
   Parse ''@daily'' = Parse ''0 0 0 * * *'' \<and> Parse ''@midnight'' = Parse ''0 0 0 * * *'' \<and>
   Parse ''@hourly'' = Parse ''0 0 * * * *''"
  by (intro conjI; code_simp)

lemma FieldsFunc_commas: "list_all (\<lambda>c. c = CHR '','') f \<Longrightarrow> FieldsFunc f (\<lambda>c. c = CHR '','') = []"
  by (induction f) (auto simp: FieldsFunc_def)

text \<open>Two forms outside the documented grammar are accepted: a field of commas only gives the empty
  mask, and whatever follows a leading star and a hyphen is ignored.\<close>

theorem lax_fields:
  "(list_all (\<lambda>c. c = CHR '','') f \<longrightarrow> getField f r = Inr 0) \<and>
   (r \<in> set cron_bounds \<and> list_all (\<lambda>c. c \<noteq> CHR ''/'') junk \<longrightarrow> getRange (''*-'' @ junk) r = getRange ''*'' r)"
proof -
  have "split_by (\<lambda>c. c = CHR ''/'') junk = [junk]" if "list_all (\<lambda>c. c \<noteq> CHR ''/'') junk"
    using that by (induction junk) auto
  then have "Split (''*-'' @ junk) (CHR ''/'') = [''*-'' @ junk]" if "list_all (\<lambda>c. c \<noteq> CHR ''/'') junk"
    using that by (simp add: Split_def)
  moreover have "Split (''*-'' @ junk) (CHR ''-'') ! 0 = ''*''" "Split ''*'' (CHR ''-'') = [''*'']"
    "Split ''*'' (CHR ''/'') = [''*'']"
    by (simp_all add: Split_def)
  ultimately have "getRange (''*-'' @ junk) r = getRange ''*'' r"
    if "r \<in> set cron_bounds" "list_all (\<lambda>c. c \<noteq> CHR ''/'') junk"
    using that cron_bounds_max[of r] by (simp add: getRange_def range_ends_def range_step_def not_less[symmetric])
  then show ?thesis by (simp add: getField_def FieldsFunc_commas)
qed

theorem lax_fields_witness:
  "getField '','' seconds = Inr 0 \<and> getRange ''*-5-7'' hours = getRange ''*'' hours"
  using lax_fields[of "'',''" seconds "''5-7''"] lax_fields[of "'',''" hours "''5-7''"] by simp

section \<open>Firing times of constant delays\<close>

lemma Every_delay: "cd_Delay (Every d) = ns_per_sec * max 1 (d div ns_per_sec)"
proof (cases "d < ns_per_sec")
  case True
  then have "d div ns_per_sec < 1" using less_mult_iff_div_less[of ns_per_sec d 1] by simp
  with True show ?thesis by (simp add: Every_def go_rem_def)
next
  case False
  then have "\<not> d div ns_per_sec < 1" using less_mult_iff_div_less[of ns_per_sec d 1] by simp
  moreover have "0 < d" using False ns_per_sec_pos(1) by linarith
  ultimately show ?thesis
    using False by (simp add: Every_def go_rem_def minus_mod_eq_mult_div)
qed

text \<open>A constant delay is rounded down to whole seconds and is at least one second; it fires on a
  whole second, after \<open>t\<close>, at most the delay later and more than the delay less one second later.\<close>

theorem Every_fires:
  "let D = cd_Delay (Every d); r = ConstantDelay_Next (Every d) t
   in D = ns_per_sec * max 1 (d div ns_per_sec) \<and> whole_second r \<and> After r t
      \<and> t_ns r - t_ns t \<le> D \<and> D - ns_per_sec < t_ns r - t_ns t"
proof -
  define D r where "D = cd_Delay (Every d)" and "r = ConstantDelay_Next (Every d) t"
  have r: "t_ns r = ns_per_sec * (t_ns t div ns_per_sec) + D"
    by (simp add: r_def D_def ConstantDelay_Next_def Add_def Nanosecond_def minus_mod_eq_mult_div[symmetric])
  have D: "D = ns_per_sec * max 1 (d div ns_per_sec)" unfolding D_def by (rule Every_delay)
  then have "t_ns r mod ns_per_sec = 0" by (simp add: r)
  moreover have "ns_per_sec \<le> D" using mult_left_mono[of 1 "max 1 (d div ns_per_sec)" ns_per_sec] D by simp
  moreover have "0 \<le> t_ns t mod ns_per_sec" "t_ns t mod ns_per_sec < ns_per_sec" by simp_all
  moreover have "t_ns t = ns_per_sec * (t_ns t div ns_per_sec) + t_ns t mod ns_per_sec" by simp
  ultimately show ?thesis
    using D r unfolding D_def[symmetric] r_def[symmetric] Let_def whole_second_def After_def Before_def
    by linarith
qed

end
