(* ===== verification/Cron_Next.thy ===== *)
theory Cron_Next
  imports Cron_Spec
begin

text \<open>
  Correctness of \<open>Next\<close>: it returns the earliest whole second after the given time at which every
  field of the schedule matches, and the zero time only when there is none up to the end of the
  fifth following year.  The proof is layered: a locale proves what one field loop does from the
  nesting of clock units, five interpretations instantiate it, and the loops are then composed.
\<close>

section \<open>What one field loop finds\<close>

abbreviation L :: "time \<Rightarrow> int" where
  "L \<equiv> local_sec"

definition on_grid :: "time \<Rightarrow> bool" where
  "on_grid t \<longleftrightarrow> whole_second t \<and> t_loc t mod 60 = 0"

text \<open>No time \<open>u\<close> with \<open>p u\<close> has its local clock in the half-open interval.\<close>

definition none_in :: "(time \<Rightarrow> bool) \<Rightarrow> int \<Rightarrow> int \<Rightarrow> bool" where
  "none_in p x y \<longleftrightarrow> (\<forall>u. x \<le> L u \<and> L u < y \<longrightarrow> \<not> p u)"

lemma none_in_join: "none_in p x y \<Longrightarrow> none_in p y z \<Longrightarrow> none_in p x z"
  unfolding none_in_def by (meson not_le)

lemma none_in_mono: "none_in p x y \<Longrightarrow> (\<And>u. q u \<Longrightarrow> p u) \<Longrightarrow> none_in q x y"
  unfolding none_in_def by blast

lemma none_in_empty: "none_in p x x"
  by (auto simp: none_in_def)

locale exact_loop = field_loop loop ok advance first rank + nested_units fl nx pfl pnx
  for loop ok advance first rank fl nx pfl pnx +
  assumes ok_unit: "fl (L t) = fl (L u) \<Longrightarrow> ok t = ok u"
    and advance_exact: "on_grid t \<Longrightarrow> (a \<Longrightarrow> fl (L t) = L t) \<Longrightarrow>
      L (advance t a) = nx (L t) \<and> whole_second (advance t a)"
    and first_iff: "L u = nx (L t) \<Longrightarrow> first u \<longleftrightarrow> nx (L t) = pnx (L t)"
begin

definition exact_exit :: "time \<Rightarrow> bool \<Rightarrow> loop_exit \<Rightarrow> bool" where
  "exact_exit t a e = (case e of
     Fall t' a' \<Rightarrow> on_grid t' \<and> ok t' \<and> L t \<le> L t' \<and> L t' < pnx (L t) \<and> none_in ok (L t) (L t')
       \<and> (t' = t \<and> a' = a \<or> a' \<and> fl (L t') = L t')
   | Wrap t' a' \<Rightarrow> on_grid t' \<and> a' \<and> L t' = pnx (L t) \<and> none_in ok (L t) (L t'))"

lemma none_in_unit: "\<not> ok t \<Longrightarrow> none_in ok (L t) (nx (L t))"
  unfolding none_in_def
proof (intro allI impI)
  fix u assume "\<not> ok t" and "L t \<le> L u \<and> L u < nx (L t)"
  then show "\<not> ok u"
    using inner.same_unit_between[of "L t" "L u"] ok_unit[of t u] by simp
qed

lemma exit_exact:
  assumes "on_grid t" and "a \<Longrightarrow> ok t \<or> fl (L t) = L t"
  shows "exact_exit t a (loop t a)"
  using assms
proof (induction "rank t a" arbitrary: t a rule: less_induct)
  case less
  show ?case
  proof (cases "ok t")
    case True
    then show ?thesis using less.prems(1) outer.nx_gt[of "L t"]
      by (subst loop_eq) (simp add: exact_exit_def none_in_empty)
  next
    case False
    let ?t = "advance t a"
    have adv: "L ?t = nx (L t)" "on_grid ?t"
      using advance_exact[OF less.prems(1), of a] less.prems False advance_loc[of t a]
      by (auto simp: on_grid_def)
    have none: "none_in ok (L t) (L ?t)" using none_in_unit[OF False] adv(1) by simp
    show ?thesis
    proof (cases "first ?t")
      case True
      then have "loop t a = Wrap ?t True" using False by (subst loop_eq) simp
      moreover have "L ?t = pnx (L t)" using first_iff[OF adv(1)] True adv(1) by simp
      ultimately show ?thesis using adv none by (simp add: exact_exit_def)
    next
      case nf: False
      then have eq: "loop t a = loop ?t True" using False by (subst loop_eq) simp
      have al: "fl (L ?t) = L ?t" using adv(1) inner.fl_nx by simp
      have pn: "pnx (L ?t) = pnx (L t)"
        using next_in_outer[of "L t"] first_iff[OF adv(1)] nf adv(1) by simp
      have "exact_exit ?t True (loop ?t True)"
        using less.hyps[of ?t True] rank_less[OF nf] adv(2) al by simp
      then show ?thesis
        using none eq pn al adv(1) inner.nx_gt[of "L t"]
        by (auto simp: exact_exit_def split: loop_exit.splits intro: none_in_join)
    qed
  qed
qed

end

section \<open>The five loops\<close>

abbreviation ok_month :: "SpecSchedule \<Rightarrow> time \<Rightarrow> bool" where
  "ok_month s \<equiv> \<lambda>t. field_bits (Month t) (s_Month s) \<noteq> 0"

abbreviation ok_hour :: "SpecSchedule \<Rightarrow> time \<Rightarrow> bool" where
  "ok_hour s \<equiv> \<lambda>t. field_bits (Hour t) (s_Hour s) \<noteq> 0"

abbreviation ok_minute :: "SpecSchedule \<Rightarrow> time \<Rightarrow> bool" where
  "ok_minute s \<equiv> \<lambda>t. field_bits (Minute t) (s_Minute s) \<noteq> 0"

abbreviation ok_second :: "SpecSchedule \<Rightarrow> time \<Rightarrow> bool" where
  "ok_second s \<equiv> \<lambda>t. field_bits (Second t) (s_Second s) \<noteq> 0"

text \<open>A field of the clock depends on the start of its unit only.\<close>

lemma Month_of_fl: "Month t = month_of_day (month_fl (L t) div 86400)"
  using date_of_day_number(2)[of "Month t" 1 "Year t"] date_ranges[of t]
  by (simp add: month_fl_local)

lemma local_day_of_fl: "local_day t = span_fl 86400 (L t) div 86400"
  by (simp add: local_day_def span_fl_def)

lemma Hour_of_fl: "Hour t = span_fl 3600 (L t) div 3600 mod 24"
  by (simp add: Hour_alt span_fl_def)

lemma Minute_of_fl: "Minute t = span_fl 60 (L t) div 60 mod 60"
  by (simp add: Minute_alt span_fl_def)

lemma dayMatches_cong: "local_day t = local_day u \<Longrightarrow> dayMatches s t = dayMatches s u"
  by (simp add: dayMatches_def Day_def Weekday_def)

text \<open>When a unit and the unit around it end at the same second.\<close>

lemma span_first_iff:
  assumes "0 < k" "0 < n"
  shows "(x div k + 1) mod n = 0 \<longleftrightarrow> span_nx k x = span_nx (k * n) x"
proof -
  let ?y = "x div k"
  have "(?y + 1) mod n = 0 \<longleftrightarrow> ?y mod n = n - 1"
    using mod_Suc_int[OF assms(2), of ?y] pos_mod_sign[OF assms(2), of ?y] by (auto split: if_splits)
  also have "\<dots> \<longleftrightarrow> ?y + 1 = n * (?y div n) + n"
    using mult_div_mod_eq[of n ?y] by linarith
  also have "\<dots> \<longleftrightarrow> k * (?y + 1) = k * (n * (?y div n) + n)"
    using assms(1) by simp
  also have "\<dots> \<longleftrightarrow> span_nx k x = span_nx (k * n) x"
    using assms by (simp add: span_nx_def zdiv_zmult2_eq algebra_simps)
  finally show ?thesis .
qed

lemma Hour_first_iff: "L u = span_nx 3600 (L t) \<Longrightarrow>
    Hour u = 0 \<longleftrightarrow> span_nx 3600 (L t) = span_nx 86400 (L t)"
  using span_first_iff[of 3600 24 "L t"] by (simp add: Hour_alt span_nx_def)

lemma Minute_first_iff: "L u = span_nx 60 (L t) \<Longrightarrow>
    Minute u = 0 \<longleftrightarrow> span_nx 60 (L t) = span_nx 3600 (L t)"
  using span_first_iff[of 60 60 "L t"] by (simp add: Minute_alt span_nx_def)

lemma Second_first_iff: "L u = span_nx 1 (L t) \<Longrightarrow>
    Second u = 0 \<longleftrightarrow> span_nx 1 (L t) = span_nx 60 (L t)"
  using span_first_iff[of 1 60 "L t"] by (simp add: Second_def span_nx_def)

lemma Month_first_iff:
  assumes "L u = month_nx (L t)"
  shows "Month u = 1 \<longleftrightarrow> month_nx (L t) = year_nx (L t)"
proof (cases "Month t = 12")
  case True
  have "day_number (Year t) 13 1 = day_number (Year t + 1) 1 1"
    using day_number_next_month[of 12 "Year t" 1] by simp
  moreover have "year_nx (L t) = 86400 * day_number (Year t + 1) 1 1"
    by (simp add: year_nx_def Year_def local_day_def day_number_def)
       (simp add: days_before_month_def month_table_def)
  ultimately show ?thesis
    using assms True date_of_day_number(2)[of 1 1 "Year t + 1"] days_in_month_bounds[of 1 "Year t + 1"]
    by (simp add: month_nx_local Month_def local_day_def)
next
  case False
  then have m: "1 \<le> Month t + 1" "Month t + 1 \<le> 12" using date_ranges[of t] by simp_all
  then have "Month u = Month t + 1"
    using assms date_of_day_number(2)[of "Month t + 1" 1 "Year t"] days_in_month_bounds[of "Month t + 1" "Year t"]
    by (simp add: month_nx_local Month_def[of u] local_day_def)
  moreover have "days_before_month (Year t) (Month t + 1) < days_before_month (Year t) 13"
    using days_in_month_bounds[of "Month t + 1" "Year t"] days_before_month_Suc[of "Year t" "Month t + 1"]
      days_before_month_mono[of "Month t + 1 + 1" 13 "Year t"] m by simp
  then have "month_nx (L t) < year_nx (L t)"
    unfolding month_nx_local by (simp add: year_nx_def Year_def[symmetric] local_day_def[symmetric]
        day_number_def days_before_year_Suc days_before_month_13 split: if_splits)
  ultimately show ?thesis using date_ranges[of t] by simp
qed

lemma Day_first_iff:
  assumes "L u = span_nx 86400 (L t)"
  shows "Day u = 1 \<longleftrightarrow> span_nx 86400 (L t) = month_nx (L t)"
proof -
  have ld: "local_day u = local_day t + 1"
    using assms by (simp add: span_nx_def local_day_def)
  have n: "local_day t + 1 = day_number (Year t) (Month t) (Day t + 1)"
    using day_number_local[of t] by (simp add: day_number_def)
  have nx: "span_nx 86400 (L t) = month_nx (L t) \<longleftrightarrow> Day t = days_in_month (Year t) (Month t)"
    using day_number_local[of t] unfolding month_nx_local
    by (simp add: span_nx_def local_day_def[symmetric] day_number_def days_in_month_def) linarith
  show ?thesis
  proof (cases "Day t = days_in_month (Year t) (Month t)")
    case True
    then have "Day u = 1"
      using next_day_last[of "local_day t"] ld by (simp add: Day_def Year_def Month_def)
    then show ?thesis using True nx by simp
  next
    case False
    then have "Day u = Day t + 1"
      using date_of_day_number(3)[of "Month t" "Day t + 1" "Year t"] date_ranges[of t] ld n
      by (simp add: Day_def)
    then show ?thesis using False nx date_ranges[of t] by simp
  qed
qed

lemma whole_second_Date: "ns mod ns_per_sec = 0 \<Longrightarrow> whole_second (Date y m d h mi s ns loc)"
  by (simp add: whole_second_def Date_def Let_def mod_simps)

lemma whole_second_AddDate: "whole_second t \<Longrightarrow> whole_second (AddDate t y m d)"
  unfolding AddDate_def by (rule whole_second_Date) (simp add: whole_second_def Nanosecond_def)

lemma whole_second_Add: "whole_second t \<Longrightarrow> whole_second (Add t (k * ns_per_sec))"
  by (simp add: whole_second_def Add_def)

lemma whole_second_Truncate: "0 < k \<Longrightarrow> whole_second (Truncate t (k * ns_per_sec))"
  by (simp add: whole_second_def Truncate_ns)

lemma whole_second_advance:
  assumes "whole_second t"
  shows "whole_second (month_advance t a)" "whole_second (day_advance t a)"
    "whole_second (hour_advance t a)" "whole_second (minute_advance t a)" "whole_second (second_advance t a)"
proof -
  note T = whole_second_Truncate[of 1 t] whole_second_Truncate[of 60 t]
  show "whole_second (month_advance t a)" "whole_second (day_advance t a)" "whole_second (hour_advance t a)"
    using assms unfolding advance_defs
    by (auto intro!: whole_second_AddDate whole_second_Add whole_second_Date)
  show "whole_second (minute_advance t a)"
    using assms T unfolding advance_defs by (auto intro!: whole_second_Add)
  show "whole_second (second_advance t a)"
    using assms T whole_second_Add[of _ 1] unfolding advance_defs by auto
qed

lemma month_cong: "month_fl (L t) = month_fl (L u) \<Longrightarrow> ok_month s t = ok_month s u"
  by (simp add: Month_of_fl)

lemma day_cong: "span_fl 86400 (L t) = span_fl 86400 (L u) \<Longrightarrow> dayMatches s t = dayMatches s u"
  by (rule dayMatches_cong) (simp add: local_day_of_fl)

lemma hour_cong: "span_fl 3600 (L t) = span_fl 3600 (L u) \<Longrightarrow> ok_hour s t = ok_hour s u"
  by (simp add: Hour_of_fl)

lemma minute_cong: "span_fl 60 (L t) = span_fl 60 (L u) \<Longrightarrow> ok_minute s t = ok_minute s u"
  by (simp add: Minute_of_fl)

lemma second_cong: "span_fl 1 (L t) = span_fl 1 (L u) \<Longrightarrow> ok_second s t = ok_second s u"
  by (simp add: Second_def span_fl_def)

lemma month_exact: "on_grid t \<Longrightarrow> (a \<Longrightarrow> month_fl (L t) = L t) \<Longrightarrow>
    L (month_advance t a) = month_nx (L t) \<and> whole_second (month_advance t a)"
  by (simp add: month_advance_local whole_second_advance on_grid_def)

lemma day_exact: "on_grid t \<Longrightarrow> (a \<Longrightarrow> span_fl 86400 (L t) = L t) \<Longrightarrow>
    L (day_advance t a) = span_nx 86400 (L t) \<and> whole_second (day_advance t a)"
  by (simp add: day_advance_local whole_second_advance on_grid_def)

lemma hour_exact: "on_grid t \<Longrightarrow> (a \<Longrightarrow> span_fl 3600 (L t) = L t) \<Longrightarrow>
    L (hour_advance t a) = span_nx 3600 (L t) \<and> whole_second (hour_advance t a)"
  by (simp add: hour_advance_local whole_second_advance on_grid_def)

lemma minute_exact: "on_grid t \<Longrightarrow> (a \<Longrightarrow> span_fl 60 (L t) = L t) \<Longrightarrow>
    L (minute_advance t a) = span_nx 60 (L t) \<and> whole_second (minute_advance t a)"
  by (simp add: minute_advance_local whole_second_advance on_grid_def)

lemma second_exact: "on_grid t \<Longrightarrow> (a \<Longrightarrow> span_fl 1 (L t) = L t) \<Longrightarrow>
    L (second_advance t a) = span_nx 1 (L t) \<and> whole_second (second_advance t a)"
  by (simp add: second_advance_local whole_second_advance on_grid_def)

interpretation xmonth: exact_loop "month_loop s" "ok_month s" month_advance "\<lambda>t. Month t = 1"
    "\<lambda>t a. nat (13 - Month t)" month_fl month_nx year_fl year_nx for s
  by (unfold_locales, fact month_cong, fact month_exact, fact Month_first_iff)

interpretation xday: exact_loop "day_loop s" "dayMatches s" day_advance "\<lambda>t. Day t = 1"
    "\<lambda>t a. nat (32 - Day t)" "span_fl 86400" "span_nx 86400" month_fl month_nx for s
  by (unfold_locales, fact day_cong, fact day_exact, fact Day_first_iff)

interpretation xhour: exact_loop "hour_loop s" "ok_hour s" hour_advance "\<lambda>t. Hour t = 0"
    "\<lambda>t a. nat (24 - Hour t)" "span_fl 3600" "span_nx 3600" "span_fl 86400" "span_nx 86400" for s
  by (unfold_locales, fact hour_cong, fact hour_exact, fact Hour_first_iff)

interpretation xminute: exact_loop "minute_loop s" "ok_minute s" minute_advance "\<lambda>t. Minute t = 0"
    "\<lambda>t a. (if a then 0 else 100) + nat (60 - Minute t)"
    "span_fl 60" "span_nx 60" "span_fl 3600" "span_nx 3600" for s
  by (unfold_locales, fact minute_cong, fact minute_exact, fact Minute_first_iff)

interpretation xsecond: exact_loop "second_loop s" "ok_second s" second_advance "\<lambda>t. Second t = 0"
    "\<lambda>t a. (if a then 0 else 100) + nat (60 - Second t)"
    "span_fl 1" "span_nx 1" "span_fl 60" "span_nx 60" for s
  by (unfold_locales, fact second_cong, fact second_exact, fact Second_first_iff)

section \<open>One pass over the fields\<close>

definition spec_matches :: "SpecSchedule \<Rightarrow> time \<Rightarrow> bool" where
  "spec_matches s t \<longleftrightarrow>
     ok_month s t \<and> dayMatches s t \<and> ok_hour s t \<and> ok_minute s t \<and> ok_second s t"

text \<open>A unit that matches or starts at \<open>x\<close>: what a loop needs when \<open>added\<close> is already set.\<close>

abbreviation ok_or_start :: "bool \<Rightarrow> (int \<Rightarrow> int) \<Rightarrow> int \<Rightarrow> bool" where
  "ok_or_start b fl x \<equiv> b \<or> fl x = x"

definition aligned :: "SpecSchedule \<Rightarrow> time \<Rightarrow> bool" where
  "aligned s t \<longleftrightarrow>
     ok_or_start (ok_month s t) month_fl (L t) \<and>
     ok_or_start (dayMatches s t) (span_fl 86400) (L t) \<and>
     ok_or_start (ok_hour s t) (span_fl 3600) (L t) \<and>
     ok_or_start (ok_minute s t) (span_fl 60) (L t)"

text \<open>What a pass establishes.\<close>

definition pass_exit :: "SpecSchedule \<Rightarrow> time \<Rightarrow> loop_exit \<Rightarrow> bool" where
  "pass_exit s t e = (case e of
     Fall t' a' \<Rightarrow> on_grid t' \<and> spec_matches s t' \<and> L t \<le> L t' \<and> L t' < year_nx (L t)
       \<and> none_in (spec_matches s) (L t) (L t')
   | Wrap t' a' \<Rightarrow> on_grid t' \<and> aligned s t' \<and> none_in (spec_matches s) (L t) (L t'))"

lemma pass_join:
  assumes "pass_exit s t1 e" and "L t \<le> L t1" and "none_in (spec_matches s) (L t) (L t1)"
    and "L t1 < year_nx (L t)"
  shows "pass_exit s t e"
proof -
  have "year_nx (L t1) = year_nx (L t)"
    using month_year.outer.same_unit_between[of "L t" "L t1"] assms(2,4) by simp
  with assms show ?thesis
    by (auto simp: pass_exit_def split: loop_exit.splits intro: none_in_join)
qed

text \<open>
  The coarser fields already match at \<open>t\<close>.  They still match anywhere in the rest of the current
  unit, and at its end each of them matches or starts anew.
\<close>

abbreviation M2 :: "SpecSchedule \<Rightarrow> time \<Rightarrow> bool" where
  "M2 s t \<equiv> ok_month s t \<and> dayMatches s t"

abbreviation M3 :: "SpecSchedule \<Rightarrow> time \<Rightarrow> bool" where
  "M3 s t \<equiv> M2 s t \<and> ok_hour s t"

abbreviation M4 :: "SpecSchedule \<Rightarrow> time \<Rightarrow> bool" where
  "M4 s t \<equiv> M3 s t \<and> ok_minute s t"

lemma keep_month:
  assumes "ok_month s t" "L t \<le> L u" "L u < month_nx (L t)"
  shows "ok_month s u"
  using month_cong[of u t] month_year.inner.same_unit_between[OF assms(2,3)] assms(1) by simp

lemma keep_day:
  assumes "M2 s t" "L t \<le> L u" "L u < span_nx 86400 (L t)"
  shows "M2 s u"
  using day_cong[of u t] day_month.inner.same_unit_between[OF assms(2,3)] assms
    keep_month[of t s u] day_month.inside(2)[of "L t"] by simp

lemma keep_hour:
  assumes "M3 s t" "L t \<le> L u" "L u < span_nx 3600 (L t)"
  shows "M3 s u"
  using hour_cong[of u t] hour_day.inner.same_unit_between[OF assms(2,3)] assms
    keep_day[of t s u] hour_day.inside(2)[of "L t"] by simp

lemma keep_minute:
  assumes "M4 s t" "L t \<le> L u" "L u < span_nx 60 (L t)"
  shows "M4 s u"
  using minute_cong[of u t] minute_hour.inner.same_unit_between[OF assms(2,3)] assms
    keep_hour[of t s u] minute_hour.inside(2)[of "L t"] by simp

lemma starts:
  "year_fl x = x \<Longrightarrow> month_fl x = x" "month_fl x = x \<Longrightarrow> span_fl 86400 x = x"
  "span_fl 86400 x = x \<Longrightarrow> span_fl 3600 x = x" "span_fl 3600 x = x \<Longrightarrow> span_fl 60 x = x"
  using month_year.outer_start day_month.outer_start hour_day.outer_start minute_hour.outer_start
  by blast+

lemma month_at_boundary: "ok_month s t \<Longrightarrow>
    month_fl (L u) = month_fl (L t) \<or> month_fl (L u) = L u \<Longrightarrow>
    ok_or_start (ok_month s u) month_fl (L u)"
  using month_cong[of u t] by blast

lemma day_at_boundary: "dayMatches s t \<Longrightarrow>
    span_fl 86400 (L u) = span_fl 86400 (L t) \<or> span_fl 86400 (L u) = L u \<Longrightarrow>
    ok_or_start (dayMatches s u) (span_fl 86400) (L u)"
  using day_cong[of u t] by blast

lemma hour_at_boundary: "ok_hour s t \<Longrightarrow>
    span_fl 3600 (L u) = span_fl 3600 (L t) \<or> span_fl 3600 (L u) = L u \<Longrightarrow>
    ok_or_start (ok_hour s u) (span_fl 3600) (L u)"
  using hour_cong[of u t] by blast

lemma aligned_year: "L u = year_nx (L t) \<Longrightarrow> aligned s u"
  using month_year.outer.fl_nx[of "L t"] starts[of "L u"] by (simp add: aligned_def)

lemma aligned_month: "L u = month_nx (L t) \<Longrightarrow> aligned s u"
  using month_year.inner.fl_nx[of "L t"] starts[of "L u"] by (simp add: aligned_def)

lemma aligned_day:
  assumes "ok_month s t" "L u = span_nx 86400 (L t)"
  shows "aligned s u"
  using day_month.inner.fl_nx[of "L t"] starts[of "L u"] day_month.next_outer_cases[of "L t"]
    month_at_boundary[OF assms(1), of u] assms(2)
  by (simp add: aligned_def)

lemma aligned_hour:
  assumes "M2 s t" "L u = span_nx 3600 (L t)"
  shows "aligned s u"
  using hour_day.inner.fl_nx[of "L t"] starts[of "L u"] hour_month.next_outer_cases[of "L t"]
    hour_day.next_outer_cases[of "L t"] month_at_boundary[of t s u] day_at_boundary[of s t u] assms
  by (simp add: aligned_def)

lemma aligned_minute:
  assumes "M3 s t" "L u = span_nx 60 (L t)"
  shows "aligned s u"
  using minute_hour.inner.fl_nx[of "L t"] starts[of "L u"] minute_month.next_outer_cases[of "L t"]
    minute_day.next_outer_cases[of "L t"] minute_hour.next_outer_cases[of "L t"]
    month_at_boundary[of t s u] day_at_boundary[of s t u] hour_at_boundary[of t s u] assms
  by (simp add: aligned_def)

lemma below_year:
  "x < span_nx 60 y \<Longrightarrow> x < span_nx 3600 y" "x < span_nx 3600 y \<Longrightarrow> x < span_nx 86400 y"
  "x < span_nx 86400 y \<Longrightarrow> x < month_nx y" "x < month_nx y \<Longrightarrow> x < year_nx y"
  using minute_hour.inside(2)[of y] hour_day.inside(2)[of y] day_month.inside(2)[of y]
    month_year.inside(2)[of y] by simp_all

lemma none_in_matches:
  "none_in (ok_month s) x y \<Longrightarrow> none_in (spec_matches s) x y"
  "none_in (dayMatches s) x y \<Longrightarrow> none_in (spec_matches s) x y"
  "none_in (ok_hour s) x y \<Longrightarrow> none_in (spec_matches s) x y"
  "none_in (ok_minute s) x y \<Longrightarrow> none_in (spec_matches s) x y"
  "none_in (ok_second s) x y \<Longrightarrow> none_in (spec_matches s) x y"
  by (erule none_in_mono; simp add: spec_matches_def)+

lemma pass_second:
  assumes "on_grid t" "M4 s t"
  shows "pass_exit s t (second_loop s t a)"
proof -
  have "xsecond.exact_exit s t a (second_loop s t a)"
    by (rule xsecond.exit_exact[OF assms(1)]) (simp add: span_fl_def)
  then show ?thesis
    using keep_minute[OF assms(2)] aligned_minute[of t s] assms(2) below_year(1-4) none_in_matches(5)
    by (auto simp: pass_exit_def xsecond.exact_exit_def spec_matches_def split: loop_exit.splits)
qed

lemma pass_minute:
  assumes "on_grid t" "M3 s t" "a \<Longrightarrow> ok_or_start (ok_minute s t) (span_fl 60) (L t)"
  shows "pass_exit s t (and_then (minute_loop s t a) (second_loop s))"
proof -
  have ex: "xminute.exact_exit s t a (minute_loop s t a)"
    by (rule xminute.exit_exact[OF assms(1,3)])
  show ?thesis
  proof (cases "minute_loop s t a")
    case (Fall t1 a1)
    then have t1: "on_grid t1" "ok_minute s t1" "L t \<le> L t1" "L t1 < span_nx 3600 (L t)"
        "none_in (ok_minute s) (L t) (L t1)"
      using ex by (simp_all add: xminute.exact_exit_def)
    have "pass_exit s t1 (second_loop s t1 a1)"
      using pass_second[OF t1(1)] keep_hour[OF assms(2) t1(3,4)] t1(2) by blast
    then show ?thesis
      using Fall pass_join[OF _ t1(3)] none_in_matches(4)[OF t1(5)] below_year(2-4) t1(4) by simp
  next
    case (Wrap t1 a1)
    then show ?thesis
      using ex aligned_hour[of t s t1] assms(2) none_in_matches(4)[of s "L t" "L t1"]
      by (auto simp: xminute.exact_exit_def pass_exit_def)
  qed
qed

lemma pass_hour:
  assumes "on_grid t" "M2 s t"
    and "a \<Longrightarrow> ok_or_start (ok_hour s t) (span_fl 3600) (L t)"
    and "a \<Longrightarrow> ok_or_start (ok_minute s t) (span_fl 60) (L t)"
  shows "pass_exit s t (and_then (hour_loop s t a) (\<lambda>t a. and_then (minute_loop s t a) (second_loop s)))"
proof -
  have ex: "xhour.exact_exit s t a (hour_loop s t a)"
    by (rule xhour.exit_exact[OF assms(1,3)])
  show ?thesis
  proof (cases "hour_loop s t a")
    case (Fall t1 a1)
    then have t1: "on_grid t1" "ok_hour s t1" "L t \<le> L t1" "L t1 < span_nx 86400 (L t)"
        "none_in (ok_hour s) (L t) (L t1)" "t1 = t \<and> a1 = a \<or> a1 \<and> span_fl 3600 (L t1) = L t1"
      using ex by (simp_all add: xhour.exact_exit_def)
    have "pass_exit s t1 (and_then (minute_loop s t1 a1) (second_loop s))"
    proof (rule pass_minute[OF t1(1)])
      show "M3 s t1" using keep_day[OF assms(2) t1(3,4)] t1(2) by simp
      show "ok_or_start (ok_minute s t1) (span_fl 60) (L t1)" if a1
        using t1(6) assms(4) that starts(4) by blast
    qed
    then show ?thesis
      using Fall pass_join[OF _ t1(3)] none_in_matches(3)[OF t1(5)] below_year(3,4) t1(4) by simp
  next
    case (Wrap t1 a1)
    then show ?thesis
      using ex aligned_day[of t s t1] assms(2) none_in_matches(3)[of s "L t" "L t1"]
      by (auto simp: xhour.exact_exit_def pass_exit_def)
  qed
qed

lemma pass_day:
  assumes "on_grid t" "ok_month s t" "a \<Longrightarrow> aligned s t"
  shows "pass_exit s t (and_then (day_loop s t a) (\<lambda>t a. and_then (hour_loop s t a)
           (\<lambda>t a. and_then (minute_loop s t a) (second_loop s))))"
proof -
  have ex: "xday.exact_exit s t a (day_loop s t a)"
    by (rule xday.exit_exact[OF assms(1)]) (use assms(3) in \<open>simp add: aligned_def\<close>)
  show ?thesis
  proof (cases "day_loop s t a")
    case (Fall t1 a1)
    then have t1: "on_grid t1" "dayMatches s t1" "L t \<le> L t1" "L t1 < month_nx (L t)"
        "none_in (dayMatches s) (L t) (L t1)" "t1 = t \<and> a1 = a \<or> a1 \<and> span_fl 86400 (L t1) = L t1"
      using ex by (simp_all add: xday.exact_exit_def)
    have "pass_exit s t1 (and_then (hour_loop s t1 a1) (\<lambda>t a. and_then (minute_loop s t a) (second_loop s)))"
    proof (rule pass_hour[OF t1(1)])
      show "M2 s t1" using keep_month[OF assms(2) t1(3,4)] t1(2) by simp
      show "ok_or_start (ok_hour s t1) (span_fl 3600) (L t1)"
        "ok_or_start (ok_minute s t1) (span_fl 60) (L t1)" if a1
        using t1(6) assms(3) that starts(3,4) unfolding aligned_def by blast+
    qed
    then show ?thesis
      using Fall pass_join[OF _ t1(3)] none_in_matches(2)[OF t1(5)] below_year(4) t1(4) by simp
  next
    case (Wrap t1 a1)
    then show ?thesis
      using ex aligned_month[of t1 t s] none_in_matches(2)[of s "L t" "L t1"]
      by (auto simp: xday.exact_exit_def pass_exit_def)
  qed
qed

lemma aligned_month_start: "month_fl (L t) = L t \<Longrightarrow> aligned s t"
  using starts(2-4)[of "L t"] by (simp add: aligned_def)

lemma fields_pass_correct:
  assumes "on_grid t" "a \<Longrightarrow> aligned s t"
  shows "pass_exit s t (fields_pass s t a)"
proof -
  have ex: "xmonth.exact_exit s t a (month_loop s t a)"
    by (rule xmonth.exit_exact[OF assms(1)]) (use assms(2) in \<open>simp add: aligned_def\<close>)
  show ?thesis
  proof (cases "month_loop s t a")
    case (Fall t1 a1)
    then have t1: "on_grid t1" "ok_month s t1" "L t \<le> L t1" "L t1 < year_nx (L t)"
        "none_in (ok_month s) (L t) (L t1)" "t1 = t \<and> a1 = a \<or> a1 \<and> month_fl (L t1) = L t1"
      using ex by (simp_all add: xmonth.exact_exit_def)
    have "pass_exit s t1 (and_then (day_loop s t1 a1) (\<lambda>t a. and_then (hour_loop s t a)
           (\<lambda>t a. and_then (minute_loop s t a) (second_loop s))))"
      using t1(6) assms(2) aligned_month_start by (intro pass_day[OF t1(1,2)]) blast
    then show ?thesis
      using Fall pass_join[OF _ t1(3)] none_in_matches(1)[OF t1(5)] t1(4) by (simp add: fields_pass_def)
  next
    case (Wrap t1 a1)
    then show ?thesis
      using ex aligned_year[of t1 t s] none_in_matches(1)[of s "L t" "L t1"]
      by (auto simp: xmonth.exact_exit_def pass_exit_def fields_pass_def)
  qed
qed

section \<open>Next\<close>

lemma year_nx_Year: "L t < year_nx (L u) \<Longrightarrow> Year t \<le> Year u"
  by (simp add: Year_le_iff year_nx_def Year_def[of u] local_day_def)

text \<open>The earliest match at or after \<open>t\<close> with its year within the limit, or the zero time for none.\<close>

definition next_spec :: "SpecSchedule \<Rightarrow> int \<Rightarrow> time \<Rightarrow> time \<Rightarrow> bool" where
  "next_spec s lim t r \<longleftrightarrow>
     (on_grid r \<and> t_loc r = t_loc t \<and> spec_matches s r \<and> L t \<le> L r \<and> Year r \<le> lim
        \<and> none_in (spec_matches s) (L t) (L r))
     \<or> r = zero_time \<and> (\<forall>u. L t \<le> L u \<and> Year u \<le> lim \<longrightarrow> \<not> spec_matches s u)"

lemma next_spec_later:
  assumes "next_spec s lim t1 r" "none_in (spec_matches s) (L t) (L t1)" "L t < L t1" "t_loc t1 = t_loc t"
  shows "next_spec s lim t r"
proof -
  have "\<not> spec_matches s u" if "L t \<le> L u" "\<not> L t1 \<le> L u" for u
    using assms(2) that by (simp add: none_in_def)
  then show ?thesis
    using assms none_in_join[OF assms(2), of "L r"] by (auto simp: next_spec_def)
qed

lemma next_from_correct:
  assumes "on_grid t" "a \<Longrightarrow> aligned s t"
  shows "next_spec s lim t (next_from s lim t a)"
  using assms
proof (induction s lim t a rule: next_from.induct)
  case (1 s lim t a)
  have pass: "pass_exit s t (fields_pass s t a)" by (rule fields_pass_correct[OF 1(2,3)])
  have fwd: "forward_exit t (fields_pass s t a)" by (rule fields_pass_forward)
  show ?case
  proof (cases "Year t > lim")
    case True
    have "\<not> spec_matches s u" if "L t \<le> L u" "Year u \<le> lim" for u
      using True that Year_le_iff[of t lim] Year_le_iff[of u lim] by simp
    then show ?thesis using True by (simp add: next_from.simps[of s lim t a] next_spec_def)
  next
    case le: False
    show ?thesis
    proof (cases "fields_pass s t a")
      case (Fall r a')
      have "Year r \<le> lim"
        using pass Fall le year_nx_Year[of r t] by (simp add: pass_exit_def)
      then show ?thesis
        using Fall le pass fwd
        by (simp add: next_from.simps[of s lim t a] next_spec_def pass_exit_def forward_exit_def)
    next
      case (Wrap t1 a1)
      then have t1: "on_grid t1" "aligned s t1" "none_in (spec_matches s) (L t) (L t1)"
          "L t < L t1" "t_loc t1 = t_loc t"
        using pass fwd by (simp_all add: pass_exit_def forward_exit_def)
      have "next_spec s lim t1 (next_from s lim t1 a1)"
        using 1(1)[OF le Wrap] t1(1,2) by simp
      then show ?thesis
        using Wrap le next_spec_later[OF _ t1(3-5)] by (simp add: next_from.simps[of s lim t a])
    qed
  qed
qed

text \<open>The whole second after \<open>t\<close>, where \<open>Next\<close> starts.\<close>

definition upcoming :: "time \<Rightarrow> time" where
  "upcoming t = Add t (ns_per_sec - Nanosecond t)"

lemma upcoming_facts:
  "whole_second (upcoming t)" "t_loc (upcoming t) = t_loc t"
  "t_ns (upcoming t) = ns_per_sec * (t_ns t div ns_per_sec + 1)"
  by (simp_all add: upcoming_def whole_second_def Add_def Nanosecond_def minus_mod_eq_mult_div[symmetric]
      algebra_simps mod_simps)

lemma whole_second_ns: "whole_second t \<Longrightarrow> t_ns t = ns_per_sec * (L t - t_loc t)"
  by (auto simp: whole_second_def local_sec_def)

lemma whole_second_order:
  assumes "whole_second u" "whole_second v" "t_loc u = t_loc v"
  shows "t_ns u < t_ns v \<longleftrightarrow> L u < L v"
  using assms by (simp add: whole_second_ns)

lemma after_upcoming:
  assumes "whole_second u" "t_loc u = t_loc t"
  shows "After u t \<longleftrightarrow> L (upcoming t) \<le> L u"
proof -
  have "t_ns t < ns_per_sec * (t_ns u div ns_per_sec) \<longleftrightarrow> t_ns t div ns_per_sec < t_ns u div ns_per_sec"
    by (simp add: less_mult_iff_div_less)
  moreover have "t_ns u = ns_per_sec * (t_ns u div ns_per_sec)"
    using assms(1) by (auto simp: whole_second_def)
  ultimately show ?thesis
    using assms upcoming_facts[of t] by (simp add: After_def Before_def local_sec_def add1_zle_eq)
qed

lemma Next_spec:
  assumes "t_loc t mod 60 = 0"
  shows "next_spec s (Year (upcoming t) + 5) (upcoming t) (Next s t)"
  unfolding Next_def Let_def upcoming_def[symmetric]
  by (rule next_from_correct) (use assms upcoming_facts[of t] in \<open>simp_all add: on_grid_def\<close>)

text \<open>
  The contract of a schedule that fires at the times satisfying \<open>P\<close>: \<open>r\<close> is the earliest whole second
  after \<open>t\<close> with \<open>P\<close>, in the years up to the fifth after the next second; or \<open>r\<close> is the zero time and
  those years hold none.
\<close>

definition fires_next :: "(time \<Rightarrow> bool) \<Rightarrow> time \<Rightarrow> time \<Rightarrow> bool" where
  "fires_next P t r \<longleftrightarrow>
     whole_second r \<and> t_loc r = t_loc t \<and> P r \<and> After r t \<and> Year r \<le> Year (upcoming t) + 5
       \<and> (\<forall>u. whole_second u \<and> t_loc u = t_loc t \<and> After u t \<and> P u \<longrightarrow> \<not> Before u r)
     \<or> r = zero_time
       \<and> (\<forall>u. whole_second u \<and> t_loc u = t_loc t \<and> After u t \<and> P u \<longrightarrow> Year u > Year (upcoming t) + 5)"

lemma Next_fires:
  assumes "t_loc t mod 60 = 0"
  shows "fires_next (spec_matches s) t (Next s t)"
proof -
  define r where "r = Next s t"
  have "next_spec s (Year (upcoming t) + 5) (upcoming t) r"
    unfolding r_def by (rule Next_spec[OF assms])
  then consider
    (found) "on_grid r" "t_loc r = t_loc t" "spec_matches s r" "L (upcoming t) \<le> L r"
      "Year r \<le> Year (upcoming t) + 5" "none_in (spec_matches s) (L (upcoming t)) (L r)"
  | (none) "r = zero_time" "\<forall>u. L (upcoming t) \<le> L u \<and> Year u \<le> Year (upcoming t) + 5 \<longrightarrow> \<not> spec_matches s u"
    unfolding next_spec_def upcoming_facts(2) by blast
  then show ?thesis
  proof cases
    case found
    then have "\<not> Before u r" if "whole_second u" "t_loc u = t_loc t" "After u t" "spec_matches s u" for u
      using that after_upcoming[of u t] whole_second_order[of u r]
      by (auto simp: none_in_def Before_def on_grid_def)
    then show ?thesis
      using found after_upcoming[of r t] unfolding r_def[symmetric] fires_next_def by (simp add: on_grid_def)
  next
    case none
    then show ?thesis
      using after_upcoming[of _ t] unfolding r_def[symmetric] fires_next_def by (metis not_le)
  qed
qed

text \<open>C2: \<open>Next\<close> returns the earliest whole second after \<open>t\<close> at which every field of the schedule matches,
  looking up to the end of the fifth year after the year of the next second; it returns the zero time
  when no second up to then matches.  The zone's offset is a whole number of minutes, which the
  truncation of the minute loop relies on.\<close>

theorem Next_earliest:
  assumes "t_loc t mod 60 = 0"
  shows "whole_second (Next s t) \<and> t_loc (Next s t) = t_loc t \<and> spec_matches s (Next s t) \<and> After (Next s t) t
       \<and> Year (Next s t) \<le> Year (upcoming t) + 5
       \<and> (\<forall>u. whole_second u \<and> t_loc u = t_loc t \<and> After u t \<and> spec_matches s u \<longrightarrow> \<not> Before u (Next s t))
     \<or> Next s t = zero_time
       \<and> (\<forall>u. whole_second u \<and> t_loc u = t_loc t \<and> After u t \<and> spec_matches s u
            \<longrightarrow> Year u > Year (upcoming t) + 5)"
  using Next_fires[OF assms, of s] unfolding fires_next_def by simp

text \<open>The schedule of every second.\<close>

definition always :: SpecSchedule where
  "always = \<lparr>s_Second = - 1, s_Minute = - 1, s_Hour = - 1, s_Dom = - 1, s_Month = - 1, s_Dow = - 1\<rparr>"

lemma always_matches: "spec_matches always t"
proof -
  have "(2 :: mask) ^ nat v \<noteq> 0" if "nat v < 64" for v using that by simp
  then have f: "field_bits v (- 1) \<noteq> 0" if "v < 64" for v using that by (simp add: field_bits_def)
  have "Second t < 60" "Minute t < 60" "Hour t < 24" "Weekday t < 7"
    using clock_ranges[of t] by (simp_all add: Weekday_def)
  then show ?thesis
    using f date_ranges[of t]
    by (simp add: spec_matches_def dayMatches_def always_def word_gt_0 starBit_def)
qed

lemma Next_always:
  assumes "t_loc t mod 60 = 0"
  shows "Next always t = upcoming t"
proof -
  have u: "whole_second (upcoming t)" "t_loc (upcoming t) = t_loc t" by (rule upcoming_facts)+
  then have up: "After (upcoming t) t" by (simp add: after_upcoming)
  let ?r = "Next always t"
  have r: "whole_second ?r" "t_loc ?r = t_loc t" "After ?r t" "\<not> Before (upcoming t) ?r"
    using Next_fires[OF assms, of always] u up always_matches unfolding fires_next_def by auto
  then have "t_ns ?r = t_ns (upcoming t)"
    using after_upcoming[OF r(1,2)] whole_second_order[OF r(1) u(1)] u r by (simp add: Before_def)
  then show ?thesis using r(2) u(2) by simp
qed

theorem Next_earliest_witness:
  "let t = \<lparr>t_ns = 63000000030000000007, t_loc = 19800\<rparr>; r = \<lparr>t_ns = 63000000031000000000, t_loc = 19800\<rparr>
   in Next always t = r \<and> spec_matches always r
      \<and> (\<forall>u. whole_second u \<and> t_loc u = t_loc t \<and> After u t \<and> spec_matches always u \<longrightarrow> \<not> Before u r)"
proof -
  let ?t = "\<lparr>t_ns = 63000000030000000007, t_loc = 19800\<rparr>" and ?r = "\<lparr>t_ns = 63000000031000000000, t_loc = 19800\<rparr>"
  have "Next always ?t = ?r" by (simp add: Next_always upcoming_def Add_def Nanosecond_def ns_per_sec_def)
  then show ?thesis
    using Next_earliest[of ?t always] by (simp add: Let_def zero_time_def)
qed

definition never_matches :: "SpecSchedule \<Rightarrow> bool" where
  "never_matches s \<longleftrightarrow> s_Month s = 0 \<or> s_Hour s = 0 \<or> s_Minute s = 0 \<or> s_Second s = 0 \<or> s_Dom s = 0 \<and> s_Dow s = 0"

lemma never_matches_Next:
  assumes "t_loc t mod 60 = 0" "never_matches s"
  shows "Next s t = zero_time"
  using Next_fires[OF assms(1), of s] assms(2)
  by (auto simp: never_matches_def fires_next_def spec_matches_def dayMatches_def field_bits_def)

end
