(* ===== verification/Cron_Text.thy ===== *)
theory Cron_Text
  imports Cron_Parser Cron_Next
begin

unbundle bit_operations_syntax

text \<open>
  What the text of a crontab field means, and that the parser of \<^verbatim>\<open>core/cron/parser.go\<close> reads it that
  way.  A field is a list of items; an item is a star, a value or a range of values with an
  optional step, and denotes a set of values.  The parser accepts the text of a field exactly when
  every item lies in the bounds of the field, and the bits it returns are exactly the denoted values.
\<close>

section \<open>The grammar of fields and its meaning\<close>

datatype endpoint = Num nat | Name string

datatype range_body = Star | Question | One endpoint | Between endpoint endpoint

type_synonym range_item = "range_body \<times> nat option"

fun print_end :: "endpoint \<Rightarrow> string" where
  "print_end (Num n) = nat_digits n"
| "print_end (Name w) = w"

fun print_body :: "range_body \<Rightarrow> string" where
  "print_body Star = ''*''"
| "print_body Question = ''?''"
| "print_body (One a) = print_end a"
| "print_body (Between a b) = print_end a @ CHR ''-'' # print_end b"

fun print_item :: "range_item \<Rightarrow> string" where
  "print_item (b, None) = print_body b"
| "print_item (b, Some n) = print_body b @ CHR ''/'' # nat_digits n"

fun join :: "char \<Rightarrow> string list \<Rightarrow> string" where
  "join c [] = []"
| "join c [w] = w"
| "join c (w # ws) = w @ c # join c ws"

definition print_field :: "range_item list \<Rightarrow> string" where
  "print_field items = join (CHR '','') (map print_item items)"

fun end_val :: "bounds \<Rightarrow> endpoint \<Rightarrow> nat option" where
  "end_val r (Num n) = (if n < 2 ^ 63 then Some n else None)"
| "end_val r (Name w) =
     (case b_names r of None \<Rightarrow> None | Some ns \<Rightarrow> map_option unat (map_of ns (ToLower w)))"

fun body_ends :: "bounds \<Rightarrow> range_body \<Rightarrow> (nat \<times> nat) option" where
  "body_ends r Star = Some (unat (b_min r), unat (b_max r))"
| "body_ends r Question = Some (unat (b_min r), unat (b_max r))"
| "body_ends r (One a) = (case end_val r a of None \<Rightarrow> None | Some x \<Rightarrow> Some (x, x))"
| "body_ends r (Between a b) =
     (case (end_val r a, end_val r b) of (Some x, Some y) \<Rightarrow> Some (x, y) | _ \<Rightarrow> None)"

text \<open>A single value with a step extends to the end of the field.\<close>

fun item_range :: "bounds \<Rightarrow> range_item \<Rightarrow> (nat \<times> nat \<times> nat) option" where
  "item_range r (b, None) = map_option (\<lambda>(lo, hi). (lo, hi, 1)) (body_ends r b)"
| "item_range r (b, Some n) =
     (if n < 2 ^ 63
      then map_option (\<lambda>(lo, hi). (lo, case b of Between _ _ \<Rightarrow> hi | _ \<Rightarrow> unat (b_max r), n)) (body_ends r b)
      else None)"

definition in_bounds :: "bounds \<Rightarrow> nat \<times> nat \<times> nat \<Rightarrow> bool" where
  "in_bounds r = (\<lambda>(lo, hi, step). unat (b_min r) \<le> lo \<and> lo \<le> hi \<and> hi \<le> unat (b_max r) \<and> 0 < step)"

definition item_ok :: "bounds \<Rightarrow> range_item \<Rightarrow> bool" where
  "item_ok r it = (case item_range r it of None \<Rightarrow> False | Some x \<Rightarrow> in_bounds r x)"

definition item_values :: "bounds \<Rightarrow> range_item \<Rightarrow> nat set" where
  "item_values r it = (case item_range r it of None \<Rightarrow> {} | Some (lo, hi, step) \<Rightarrow> stepped lo hi step)"

definition field_values :: "bounds \<Rightarrow> range_item list \<Rightarrow> nat set" where
  "field_values r items = (\<Union>it \<in> set items. item_values r it)"

definition has_star :: "range_item list \<Rightarrow> bool" where
  "has_star items \<longleftrightarrow> (\<exists>it \<in> set items. fst it = Star \<or> fst it = Question)"

text \<open>Words of letters and digits, which contain none of the separators; a name starts with a letter.\<close>

definition word_char :: "char \<Rightarrow> bool" where
  "word_char c \<longleftrightarrow> is_digit c \<or> (let n = (of_char c :: nat) in 65 \<le> n \<and> n \<le> 90 \<or> 97 \<le> n \<and> n \<le> 122)"

fun end_text :: "endpoint \<Rightarrow> bool" where
  "end_text (Num n) \<longleftrightarrow> True"
| "end_text (Name w) \<longleftrightarrow> w \<noteq> [] \<and> list_all word_char w \<and> \<not> is_digit (hd w)"

fun body_text :: "range_body \<Rightarrow> bool" where
  "body_text (One a) \<longleftrightarrow> end_text a"
| "body_text (Between a b) \<longleftrightarrow> end_text a \<and> end_text b"
| "body_text _ \<longleftrightarrow> True"

definition field_text :: "range_item list \<Rightarrow> bool" where
  "field_text items \<longleftrightarrow> items \<noteq> [] \<and> list_all (body_text \<circ> fst) items"

section \<open>Splitting joined text\<close>

lemma split_by_word: "list_all (\<lambda>c. \<not> p c) w \<Longrightarrow> split_by p w = [w]"
  by (induction w) auto

lemma split_by_append:
  "list_all (\<lambda>c. \<not> p c) w \<Longrightarrow> p c \<Longrightarrow> split_by p (w @ c # s) = w # split_by p s"
  by (induction w) auto

lemma split_by_join:
  "list_all (list_all (\<lambda>c. \<not> p c)) ws \<Longrightarrow> p c \<Longrightarrow> ws \<noteq> [] \<Longrightarrow> split_by p (join c ws) = ws"
  by (induction c ws rule: join.induct) (simp_all add: split_by_word split_by_append)

lemma FieldsFunc_join:
  assumes "list_all (\<lambda>w. w \<noteq> [] \<and> list_all (\<lambda>c. \<not> p c) w) ws" "p c" "ws \<noteq> []"
  shows "FieldsFunc (join c ws) p = ws"
proof -
  have "split_by p (join c ws) = ws"
    using assms by (intro split_by_join) (auto simp: list_all_iff)
  then show ?thesis using assms(1) by (simp add: FieldsFunc_def list_all_iff filter_id_conv)
qed

lemma word_char_no_sep:
  "\<not> word_char (CHR ''-'')" "\<not> word_char (CHR ''/'')" "\<not> word_char (CHR '','')"
  "\<not> word_char (CHR ''*'')" "\<not> word_char (CHR ''?'')" "word_char c \<Longrightarrow> \<not> is_space c"
  by (auto simp: word_char_def is_digit_def is_space_def Let_def)

lemma print_end_word:
  assumes "end_text a"
  shows "print_end a \<noteq> []" "list_all word_char (print_end a)"
  using assms nat_digits_all nat_digits_nonempty
  by (cases a; auto simp: list_all_iff word_char_def)+

lemma word_split: "list_all word_char w \<Longrightarrow> \<not> word_char c \<Longrightarrow> list_all (\<lambda>x. \<not> x = c) w"
  by (auto simp: list_all_iff)

lemma nat_digits_word: "list_all word_char (nat_digits n)"
  using nat_digits_all[of n] by (auto simp: list_all_iff word_char_def)

lemma body_char: "body_text b \<Longrightarrow> c \<in> set (print_body b) \<Longrightarrow> word_char c \<or> c \<in> {CHR ''*'', CHR ''?'', CHR ''-''}"
  using print_end_word(2) by (cases b) (auto simp: list_all_iff)

lemma item_char:
  "body_text (fst it) \<Longrightarrow> c \<in> set (print_item it) \<Longrightarrow> word_char c \<or> c \<in> {CHR ''*'', CHR ''?'', CHR ''-'', CHR ''/''}"
  using body_char[of "fst it" c] nat_digits_word
  by (cases it rule: print_item.cases) (auto simp: list_all_iff)

lemma print_item_nonempty: "body_text (fst it) \<Longrightarrow> print_item it \<noteq> []"
proof -
  assume a: "body_text (fst it)"
  then have "print_body (fst it) \<noteq> []" using print_end_word(1) by (cases "fst it") auto
  then show ?thesis by (cases it rule: print_item.cases) auto
qed

lemma split_item:
  assumes "body_text b"
  shows "Split (print_item (b, None)) (CHR ''/'') = [print_body b]"
    and "Split (print_item (b, Some n)) (CHR ''/'') = [print_body b, nat_digits n]"
proof -
  have "list_all (\<lambda>x. \<not> x = CHR ''/'') (print_body b)"
    using body_char[OF assms] word_char_no_sep(2) by (auto simp: list_all_iff)
  then show "Split (print_item (b, None)) (CHR ''/'') = [print_body b]"
    and "Split (print_item (b, Some n)) (CHR ''/'') = [print_body b, nat_digits n]"
    using word_split[OF nat_digits_word word_char_no_sep(2)]
    by (simp_all add: Split_def split_by_word split_by_append)
qed

lemma split_body:
  "Split (print_body Star) (CHR ''-'') = [''*'']"
  "Split (print_body Question) (CHR ''-'') = [''?'']"
  "end_text a \<Longrightarrow> Split (print_body (One a)) (CHR ''-'') = [print_end a]"
  "end_text a \<Longrightarrow> end_text b \<Longrightarrow> Split (print_body (Between a b)) (CHR ''-'') = [print_end a, print_end b]"
  using word_split[OF print_end_word(2) word_char_no_sep(1)]
  by (simp_all add: Split_def split_by_word split_by_append)

lemma end_not_star: "end_text a \<Longrightarrow> print_end a \<noteq> ''*'' \<and> print_end a \<noteq> ''?''"
  using print_end_word(2)[of a] word_char_no_sep by auto

section \<open>Reading endpoints, items and fields\<close>

lemma Atoi_nat_digits: "n < 2 ^ 63 \<Longrightarrow> Atoi (nat_digits n) = Some (int n)"
  using Atoi_Itoa[of "int n"] by (simp add: Itoa_def)

lemma Atoi_nat_digits_big: "\<not> n < 2 ^ 63 \<Longrightarrow> Atoi (nat_digits n) = None"
  using nat_digits_hd[of n] not_digit_sign
  by (auto simp: Atoi_def nat_digits_all nat_digits_nonempty digits_val_nat_digits Let_def)

lemma mustParseInt_digits:
  "n < 2 ^ 63 \<Longrightarrow> mustParseInt (nat_digits n) = Inr (of_nat n)"
  "\<not> n < 2 ^ 63 \<Longrightarrow> \<exists>e. mustParseInt (nat_digits n) = Inl e"
  by (simp_all add: mustParseInt_def Atoi_nat_digits Atoi_nat_digits_big)

lemma ToLower_digits: "list_all is_digit w \<Longrightarrow> ToLower w = w"
  by (auto simp: ToLower_def list_all_iff is_digit_def intro!: map_idI)

lemma names_not_digits:
  assumes "r \<in> set cron_bounds" "b_names r = Some ns" "list_all is_digit w"
  shows "map_of ns w = None"
proof (rule ccontr)
  assume "map_of ns w \<noteq> None"
  then have "w \<in> fst ` set ns" by (simp add: map_of_eq_None_iff)
  with assms show False
    by (auto simp: cron_bounds_def seconds_def minutes_def hours_def dom_def months_def dow_def is_digit_def)
qed

lemma names_small:
  assumes "r \<in> set cron_bounds" "b_names r = Some ns" "map_of ns w = Some v"
  shows "unat v < 2 ^ 63"
  using map_of_SomeD[OF assms(3)] assms(1,2)
  by (auto simp: cron_bounds_def seconds_def minutes_def hours_def dom_def months_def dow_def)

lemma end_val_small: "r \<in> set cron_bounds \<Longrightarrow> end_val r a = Some x \<Longrightarrow> x < 2 ^ 63"
  using names_small by (cases a) (auto split: if_splits option.splits)

lemma parse_endpoint:
  assumes "r \<in> set cron_bounds" "end_val r a = Some x"
  shows "parseIntOrName (print_end a) (b_names r) = Inr (of_nat x)"
  using assms names_not_digits[OF assms(1)] nat_digits_all
  by (cases a) (auto simp: parseIntOrName_def ToLower_digits mustParseInt_digits split: option.splits if_splits)

text \<open>Numbers below $2^{63}$ compare as words the way they compare as numbers.\<close>

lemma unat_small: "n < 2 ^ 63 \<Longrightarrow> unat (of_nat n :: 64 word) = n"
  by (simp add: unat_of_nat)

lemma print_range_ends:
  assumes "r \<in> set cron_bounds" "body_text (fst it)" "body_ends r (fst it) = Some (lo, hi)"
  shows "range_ends (print_item it) r =
    Inr (of_nat lo, of_nat hi, if fst it = Star \<or> fst it = Question then starBit else 0)"
proof -
  have s0: "Split (print_item it) (CHR ''/'') ! 0 = print_body (fst it)"
    using split_item[OF assms(2)] by (cases it rule: print_item.cases) auto
  show ?thesis
    using assms end_not_star unfolding range_ends_def Let_def s0
    by (cases "fst it") (auto simp: split_body[simplified] parse_endpoint split: option.splits)
qed

lemma print_range_step:
  assumes "r \<in> set cron_bounds" "body_text b" "item_range r (b, st) = Some (lo, hi, step)"
    and "body_ends r b = Some (lo, h0)"
  shows "range_step (print_item (b, st)) r (of_nat h0) = Inr (of_nat step, of_nat hi)"
proof (cases st)
  case None
  then show ?thesis using assms by (auto simp: range_step_def Let_def split_item[simplified])
next
  case (Some n)
  have l: "length (Split (print_body b) (CHR ''-'')) = 1 \<longleftrightarrow> (case b of Between _ _ \<Rightarrow> False | _ \<Rightarrow> True)"
    using assms(2) by (cases b) (simp_all add: split_body[simplified])
  have hi: "hi = (case b of Between _ _ \<Rightarrow> h0 | _ \<Rightarrow> unat (b_max r))"
    using assms(3,4) Some by (auto split: if_splits)
  have "step = n" "n < 2 ^ 63"
    using assms(3,4) Some by (auto split: if_splits)
  then have "range_step (print_item (b, st)) r (of_nat h0) =
      Inr (of_nat step, if length (Split (print_body b) (CHR ''-'')) = 1 then b_max r else of_nat h0)"
    unfolding range_step_def Let_def Some split_item(2)[OF assms(2)] by (simp add: mustParseInt_digits)
  then show ?thesis using l hi by (simp split: range_body.splits)
qed

lemma item_range_small:
  assumes "r \<in> set cron_bounds" "item_range r it = Some (lo, hi, step)"
  shows "lo < 2 ^ 63 \<and> hi < 2 ^ 63 \<and> step < 2 ^ 63"
proof -
  have m: "unat (b_min r) < 2 ^ 63" "unat (b_max r) < 2 ^ 63"
    using cron_bounds_max[OF assms(1)] by (simp_all add: word_less_nat_alt word_le_nat_alt)
  have b: "body_ends r b = Some (x, y) \<Longrightarrow> x < 2 ^ 63 \<and> y < 2 ^ 63" for b x y
    using m end_val_small[OF assms(1)] by (cases b) (auto split: option.splits)
  show ?thesis
    using assms(2) b m
    by (cases it rule: print_item.cases; cases "fst it") (auto split: if_splits option.splits dest: end_val_small[OF assms(1)])
qed

lemma getRange_print:
  assumes r: "r \<in> set cron_bounds" and t: "body_text (fst it)" and i: "item_range r it = Some (lo, hi, step)"
  shows "if in_bounds r (lo, hi, step)
    then \<exists>m. getRange (print_item it) r = Inr m
         \<and> (\<forall>j. bit m j \<longleftrightarrow> j \<in> stepped lo hi step \<or> j = 63 \<and> (fst it = Star \<or> fst it = Question))
    else \<exists>e. getRange (print_item it) r = Inl e"
proof -
  obtain b st where it: "it = (b, st)" by force
  obtain h0 where h0: "body_ends r b = Some (lo, h0)"
    using i it by (cases st) (auto split: if_splits)
  have pe: "range_ends (print_item it) r = Inr (of_nat lo, of_nat h0, if fst it = Star \<or> fst it = Question then starBit else 0)"
    using print_range_ends[OF r t] h0 it by simp
  have ps: "range_step (print_item it) r (of_nat h0) = Inr (of_nat step, of_nat hi)"
    using print_range_step[OF r _ _ h0] t i it by simp
  note small = item_range_small[OF r i]
  have sm: "unat (of_nat lo :: 64 word) = lo" "unat (of_nat hi :: 64 word) = hi" "unat (of_nat step :: 64 word) = step"
    using small unat_small by auto
  have ib: "in_bounds r (lo, hi, step) \<longleftrightarrow> b_min r \<le> of_nat lo \<and> (of_nat lo :: 64 word) \<le> of_nat hi \<and> of_nat hi \<le> b_max r
      \<and> (0 :: 64 word) < of_nat step"
    by (simp add: in_bounds_def word_le_nat_alt word_less_nat_alt sm)
  show ?thesis
    using r
  proof (cases rule: getRange_cases[of r "print_item it"])
    case (err e)
    then have "\<not> in_bounds r (lo, hi, step)"
      using getBits_bits[of "of_nat lo" "of_nat hi" "of_nat step"] cron_bounds_max[OF r] small
      by (auto simp: getRange_def pe ps ib sm not_less[symmetric] split: if_splits option.splits)
    then show ?thesis using err by simp
  next
    case (ok m lo' h' x step' h)
    with pe ps have e: "lo' = of_nat lo" "h = of_nat hi" "step' = of_nat step"
      "x = (if fst it = Star \<or> fst it = Question then starBit else 0)" by auto
    with ok have "in_bounds r (lo, hi, step)" by (simp add: ib)
    then show ?thesis using ok e by (auto simp: sm bit_or_iff bit_simps)
  qed
qed

lemma Atoi_name: "end_text (Name w) \<Longrightarrow> Atoi w = None"
  by (cases w) (auto simp: Atoi_def Let_def word_char_def is_digit_def)

lemma parse_endpoint_err:
  assumes "r \<in> set cron_bounds" "end_text a" "end_val r a = None"
  shows "\<exists>e. parseIntOrName (print_end a) (b_names r) = Inl e"
proof (cases a)
  case (Num n)
  then show ?thesis
    using assms names_not_digits[OF assms(1)] nat_digits_all mustParseInt_digits(2)[of n]
    by (auto simp: parseIntOrName_def ToLower_digits split: option.splits if_splits)
next
  case (Name w)
  then show ?thesis
    using assms Atoi_name by (auto simp: parseIntOrName_def mustParseInt_def split: option.splits)
qed

lemma getRange_print_err:
  assumes r: "r \<in> set cron_bounds" and t: "body_text (fst it)" and i: "item_range r it = None"
  shows "\<exists>e. getRange (print_item it) r = Inl e"
proof -
  have s0: "Split (print_item it) (CHR ''/'') ! 0 = print_body (fst it)"
    using split_item[OF t] by (cases it rule: print_item.cases) auto
  show ?thesis
  proof (cases "body_ends r (fst it)")
    case None
    have "\<exists>e. range_ends (print_item it) r = Inl e"
    proof (cases "fst it")
      case (One a)
      then obtain e where "parseIntOrName (print_end a) (b_names r) = Inl e"
        using None t parse_endpoint_err[OF r, of a] by (auto split: option.splits)
      then show ?thesis using One t end_not_star[of a]
        unfolding range_ends_def Let_def s0 by (auto simp: split_body[simplified])
    next
      case (Between a b)
      then show ?thesis using None t parse_endpoint_err[OF r] parse_endpoint[OF r] end_not_star[of a]
        unfolding range_ends_def Let_def s0
        by (cases "end_val r a"; cases "end_val r b") (fastforce simp: split_body[simplified])+
    qed (use None in auto)
    then show ?thesis by (auto simp: getRange_def)
  next
    case (Some lh)
    then obtain b n where it: "it = (b, Some n)" "\<not> n < 2 ^ 63"
      using i by (cases it rule: print_item.cases) (auto split: if_splits)
    then have "\<exists>e. range_step (print_item it) r h = Inl e" for h
      using mustParseInt_digits(2)[of n] split_item(2)[of b n] t
      unfolding range_step_def Let_def by fastforce
    then have "\<exists>e. range_step (print_item it) r (of_nat (snd lh)) = Inl e" by blast
    then show ?thesis
      using print_range_ends[OF r t, of "fst lh" "snd lh"] Some by (auto simp: getRange_def)
  qed
qed

lemma getRange_item:
  assumes "r \<in> set cron_bounds" "body_text (fst it)"
  obtains (ok) m where "item_ok r it" "getRange (print_item it) r = Inr m"
      "\<forall>j. bit m j \<longleftrightarrow> j \<in> item_values r it \<or> j = 63 \<and> (fst it = Star \<or> fst it = Question)"
  | (bad) e where "\<not> item_ok r it" "getRange (print_item it) r = Inl e"
proof (cases "item_range r it")
  case None
  then show ?thesis using getRange_print_err[OF assms] bad by (auto simp: item_ok_def)
next
  case (Some x)
  obtain lo hi step where x: "x = (lo, hi, step)" by (cases x)
  show ?thesis
    using getRange_print[OF assms Some[unfolded x]] Some x ok bad
    by (auto simp: item_ok_def item_values_def split: if_splits)
qed

lemma getField_loop_print:
  assumes "r \<in> set cron_bounds" "list_all (body_text \<circ> fst) items"
  shows "if list_all (item_ok r) items
    then \<exists>m. getField_loop (map print_item items) r b = Inr m
         \<and> (\<forall>j. bit m j \<longleftrightarrow> bit b j \<or> j \<in> field_values r items \<or> j = 63 \<and> has_star items)
    else \<exists>e. getField_loop (map print_item items) r b = Inl e"
  using assms(2)
proof (induction items arbitrary: b)
  case Nil
  then show ?case by (simp add: field_values_def has_star_def)
next
  case (Cons it items)
  then have t: "body_text (fst it)" by simp
  show ?case
    using assms(1) t
  proof (cases rule: getRange_item)
    case (ok m)
    have "if list_all (item_ok r) items
      then \<exists>m'. getField_loop (map print_item items) r (b OR m) = Inr m'
         \<and> (\<forall>j. bit m' j \<longleftrightarrow> bit (b OR m) j \<or> j \<in> field_values r items \<or> j = 63 \<and> has_star items)
      else \<exists>e. getField_loop (map print_item items) r (b OR m) = Inl e"
      using Cons by simp
    then show ?thesis
      using ok by (auto simp: field_values_def has_star_def bit_or_iff split: if_splits)
  qed auto
qed

lemma getField_print:
  assumes r: "r \<in> set cron_bounds" and t: "field_text items"
  shows "if list_all (item_ok r) items
    then \<exists>m. getField (print_field items) r = Inr m
         \<and> (\<forall>j. bit m j \<longleftrightarrow> j \<in> field_values r items \<or> j = 63 \<and> has_star items)
    else \<exists>e. getField (print_field items) r = Inl e"
proof -
  have "FieldsFunc (join (CHR '','') (map print_item items)) (\<lambda>c. c = CHR '','') = map print_item items"
    using t item_char print_item_nonempty word_char_no_sep(3)
    by (intro FieldsFunc_join) (fastforce simp: field_text_def list_all_iff)+
  then show ?thesis
    using getField_loop_print[OF r, of items 0] t
    unfolding getField_def print_field_def field_text_def by (auto split: if_splits)
qed

section \<open>The text of a specification\<close>

definition print_spec :: "range_item list list \<Rightarrow> string" where
  "print_spec fs = join (CHR '' '') (map print_field fs)"

definition spec_text :: "range_item list list \<Rightarrow> bool" where
  "spec_text fs \<longleftrightarrow> length fs = 6 \<and> list_all field_text fs"

definition spec_ok :: "range_item list list \<Rightarrow> bool" where
  "spec_ok fs \<longleftrightarrow> list_all2 (\<lambda>r items. list_all (item_ok r) items) cron_bounds fs"

definition at_field :: "int \<Rightarrow> bounds \<Rightarrow> range_item list \<Rightarrow> bool" where
  "at_field v r items \<longleftrightarrow> nat v \<in> field_values r items"

text \<open>The documented meaning: every field matches, where the two day fields are alternatives unless
  one of them is a star.\<close>

definition text_matches :: "range_item list list \<Rightarrow> time \<Rightarrow> bool" where
  "text_matches fs t \<longleftrightarrow>
     at_field (Second t) seconds (fs ! 0) \<and> at_field (Minute t) minutes (fs ! 1) \<and>
     at_field (Hour t) hours (fs ! 2) \<and> at_field (Month t) months (fs ! 4) \<and>
     (if has_star (fs ! 3) \<or> has_star (fs ! 5)
      then at_field (Day t) dom (fs ! 3) \<and> at_field (Weekday t) dow (fs ! 5)
      else at_field (Day t) dom (fs ! 3) \<or> at_field (Weekday t) dow (fs ! 5))"

lemma mask_hit: "nat v < 64 \<Longrightarrow> field_bits v m > 0 \<longleftrightarrow> bit m (nat v)"
proof -
  assume v: "nat v < 64"
  have "field_bits v m \<noteq> 0 \<longleftrightarrow> bit m (nat v)"
    using v unfolding bit_eq_iff field_bits_def by (auto simp: bit_and_iff bit_simps simp del: push_bit_of_1)
  then show ?thesis by (simp add: word_gt_0)
qed

lemma star_hit: "m AND starBit > 0 \<longleftrightarrow> bit m 63"
proof -
  have "m AND starBit \<noteq> 0 \<longleftrightarrow> bit m 63"
    unfolding bit_eq_iff by (auto simp: bit_and_iff bit_simps)
  then show ?thesis by (simp add: word_gt_0)
qed

text \<open>A mask that holds exactly the values of a field, and the star bit when the field has a star.\<close>

definition denotes :: "mask \<Rightarrow> bounds \<Rightarrow> range_item list \<Rightarrow> bool" where
  "denotes m r items \<longleftrightarrow> (\<forall>j. bit m j \<longleftrightarrow> j \<in> field_values r items \<or> j = 63 \<and> has_star items)"

lemma item_values_small:
  assumes "r \<in> set cron_bounds" "item_ok r it" "j \<in> item_values r it"
  shows "j < 63"
  using assms cron_bounds_max[OF assms(1)]
  by (auto simp: item_ok_def item_values_def in_bounds_def stepped_def word_less_nat_alt split: option.splits)

lemma denotes_hit:
  "denotes m r items \<Longrightarrow> nat v < 63 \<Longrightarrow> field_bits v m > 0 \<longleftrightarrow> at_field v r items"
  by (simp add: mask_hit denotes_def at_field_def)

lemma denotes_star:
  assumes "denotes m r items" "r \<in> set cron_bounds" "list_all (item_ok r) items"
  shows "m AND starBit > 0 \<longleftrightarrow> has_star items"
  using assms item_values_small[OF assms(2), of _ 63]
  by (auto simp: star_hit denotes_def field_values_def list_all_iff)

lemma time_fields_small:
  "nat (Second t) < 63" "nat (Minute t) < 63" "nat (Hour t) < 63" "nat (Month t) < 63"
  "nat (Day t) < 63" "nat (Weekday t) < 63"
  using date_ranges[of t] by (simp_all add: Second_def Minute_def Hour_def Weekday_def nat_less_iff)

lemma default_options: "p_options defaultParser AND o_Second > 0" "p_options defaultParser AND o_Minute > 0"
  "p_options defaultParser AND o_Hour > 0" "p_options defaultParser AND o_Dom > 0"
  "p_options defaultParser AND o_Month > 0" "p_options defaultParser AND o_Dow > 0"
  by code_simp+

lemma defaultParser_fields:
  "max_fields defaultParser = 6" "p_optionals defaultParser = 1"
  "expandFields [a, b, c, d, e, f] (p_options defaultParser) = Inr [a, b, c, d, e, f]"
  by (code_simp, code_simp)
    (simp add: expandFields_def places_def defaults_def default_options)

lemma print_spec_chars:
  assumes "spec_text fs" "c \<in> set (concat (map print_field fs))"
  shows "word_char c \<or> c \<in> {CHR ''*'', CHR ''?'', CHR ''-'', CHR ''/'', CHR '',''}"
proof -
  have "c \<in> set (join d ws) \<Longrightarrow> c = d \<or> c \<in> set (concat ws)" for d ws
    by (induction d ws rule: join.induct) auto
  then show ?thesis
    using assms item_char by (fastforce simp: spec_text_def list_all_iff field_text_def print_field_def)
qed

lemma print_field_nonempty: "field_text items \<Longrightarrow> print_field items \<noteq> []"
proof -
  assume "field_text items"
  then obtain it its where "items = it # its" "body_text (fst it)" by (cases items) (auto simp: field_text_def)
  then show ?thesis using print_item_nonempty[of it] by (cases its) (simp_all add: print_field_def)
qed

lemma Parse_print_fields:
  assumes "spec_text fs"
  shows "Parse (print_spec fs) = parse_fields (map print_field fs)"
proof -
  have ch: "\<not> is_space c \<and> c \<noteq> CHR ''@''" if "c \<in> set w" "w \<in> set (map print_field fs)" for c w
  proof -
    have "word_char c \<or> c \<in> {CHR ''*'', CHR ''?'', CHR ''-'', CHR ''/'', CHR '',''}"
      using print_spec_chars[OF assms, of c] that by auto
    then show ?thesis
      using word_char_no_sep(6)[of c] by (auto simp: is_space_def word_char_def is_digit_def)
  qed
  have ne: "w \<noteq> []" if "w \<in> set (map print_field fs)" for w
    using that assms print_field_nonempty by (auto simp: spec_text_def list_all_iff)
  obtain a b c d e f where fs: "map print_field fs = [a, b, c, d, e, f]"
  proof -
    have "length (map print_field fs) = 6" using assms by (simp add: spec_text_def)
    then show thesis using that by (auto simp: numeral_eq_Suc length_Suc_conv)
  qed
  have "Fields (print_spec fs) = map print_field fs"
    unfolding Fields_def print_spec_def
    using ch ne fs by (intro FieldsFunc_join) (auto simp: list_all_iff is_space_def)
  moreover have "print_spec fs \<noteq> []" "print_spec fs ! 0 \<noteq> CHR ''@''"
    using ne[of a] ch[of "a ! 0" a] fs by (auto simp: print_spec_def nth_append)
  ultimately show ?thesis
    by (simp add: Parse_def Parser_Parse_def Let_def defaultParser_fields fs)
qed

lemma parse_field_mask:
  assumes "r \<in> set cron_bounds" "field_text items" "list_all (item_ok r) items"
  obtains m where "getField (print_field items) r = Inr m" "denotes m r items"
  using getField_print[OF assms(1,2)] assms(3) by (auto simp: denotes_def)

lemma parse_fields_print:
  assumes "spec_text fs" "spec_ok fs"
  shows "\<exists>s. parse_fields (map print_field fs) = Inr (Spec s) \<and> (\<forall>t. spec_matches s t \<longleftrightarrow> text_matches fs t)"
proof -
  obtain a b c d e f where fs: "fs = [a, b, c, d, e, f]"
    using assms(1) that by (auto simp: spec_text_def numeral_eq_Suc length_Suc_conv)
  have t: "field_text a" "field_text b" "field_text c" "field_text d" "field_text e" "field_text f"
    using assms(1) fs by (auto simp: spec_text_def)
  have ok: "list_all (item_ok seconds) a" "list_all (item_ok minutes) b" "list_all (item_ok hours) c"
    "list_all (item_ok dom) d" "list_all (item_ok months) e" "list_all (item_ok dow) f"
    using assms(2) fs by (auto simp: spec_ok_def cron_bounds_def)
  obtain m1 where m1: "getField (print_field a) seconds = Inr m1" "denotes m1 seconds a"
    using parse_field_mask[of seconds a] t ok by auto
  obtain m2 where m2: "getField (print_field b) minutes = Inr m2" "denotes m2 minutes b"
    using parse_field_mask[of minutes b] t ok by auto
  obtain m3 where m3: "getField (print_field c) hours = Inr m3" "denotes m3 hours c"
    using parse_field_mask[of hours c] t ok by auto
  obtain m4 where m4: "getField (print_field d) dom = Inr m4" "denotes m4 dom d"
    using parse_field_mask[of dom d] t ok by auto
  obtain m5 where m5: "getField (print_field e) months = Inr m5" "denotes m5 months e"
    using parse_field_mask[of months e] t ok by auto
  obtain m6 where m6: "getField (print_field f) dow = Inr m6" "denotes m6 dow f"
    using parse_field_mask[of dow f] t ok by auto
  define s where "s = \<lparr>s_Second = m1, s_Minute = m2, s_Hour = m3, s_Dom = m4, s_Month = m5, s_Dow = m6\<rparr>"
  have "parse_fields (map print_field fs) = Inr (Spec s)"
    using fs m1 m2 m3 m4 m5 m6 by (simp add: parse_fields_def s_def numeral_eq_Suc)
  moreover have "spec_matches s t \<longleftrightarrow> text_matches fs t" for t
  proof -
    have h: "field_bits (Second t) m1 \<noteq> 0 \<longleftrightarrow> at_field (Second t) seconds a"
      "field_bits (Minute t) m2 \<noteq> 0 \<longleftrightarrow> at_field (Minute t) minutes b"
      "field_bits (Hour t) m3 \<noteq> 0 \<longleftrightarrow> at_field (Hour t) hours c"
      "field_bits (Month t) m5 \<noteq> 0 \<longleftrightarrow> at_field (Month t) months e"
      using denotes_hit time_fields_small[of t] m1(2) m2(2) m3(2) m5(2) by (metis word_gt_0)+
    have d: "field_bits (Day t) m4 > 0 \<longleftrightarrow> at_field (Day t) dom d"
      "field_bits (Weekday t) m6 > 0 \<longleftrightarrow> at_field (Weekday t) dow f"
      using denotes_hit time_fields_small[of t] m4(2) m6(2) by blast+
    have st: "m4 AND starBit > 0 \<longleftrightarrow> has_star d" "m6 AND starBit > 0 \<longleftrightarrow> has_star f"
      using denotes_star m4(2) m6(2) ok by auto
    show ?thesis
      by (auto simp: spec_matches_def dayMatches_def Let_def text_matches_def fs s_def h d st numeral_eq_Suc)
  qed
  ultimately show ?thesis by blast
qed

lemma parse_fields_print_err:
  assumes "spec_text fs" "\<not> spec_ok fs"
  shows "\<exists>e. parse_fields (map print_field fs) = Inl e"
proof -
  obtain a b c d e f where fs: "fs = [a, b, c, d, e, f]"
    using assms(1) that by (auto simp: spec_text_def numeral_eq_Suc length_Suc_conv)
  have g: "(\<exists>m. getField (print_field i) r = Inr m) \<longleftrightarrow> list_all (item_ok r) i" if "field_text i" "r \<in> set cron_bounds" for i r
    using getField_print[OF that(2,1)] by (auto split: if_splits)
  have "\<not> (\<exists>x. parse_fields (map print_field fs) = Inr x)"
  proof
    assume "\<exists>x. parse_fields (map print_field fs) = Inr x"
    then have "(\<exists>m. getField (print_field a) seconds = Inr m) \<and> (\<exists>m. getField (print_field b) minutes = Inr m)
      \<and> (\<exists>m. getField (print_field c) hours = Inr m) \<and> (\<exists>m. getField (print_field d) dom = Inr m)
      \<and> (\<exists>m. getField (print_field e) months = Inr m) \<and> (\<exists>m. getField (print_field f) dow = Inr m)"
      by (auto simp: parse_fields_def fs numeral_eq_Suc)
    then have "spec_ok fs" using g assms(1) fs by (simp add: spec_ok_def spec_text_def cron_bounds_def)
    with assms(2) show False by simp
  qed
  then show ?thesis by (cases "parse_fields (map print_field fs)") auto
qed

section \<open>The text and the firing times\<close>

text \<open>C3: The parser of crontab text is correct: a six-field text is accepted exactly when every item
  of every field lies in the field's bounds (names, ranges and steps included), and the schedule
  returned then matches a time exactly when the text does, with the two day fields read as
  alternatives unless one of them holds a star.\<close>

theorem Parse_text_meaning:
  assumes "spec_text fs"
  shows "if spec_ok fs
    then \<exists>s. Parse (print_spec fs) = Inr (Spec s) \<and> (\<forall>t. spec_matches s t \<longleftrightarrow> text_matches fs t)
    else \<exists>e. Parse (print_spec fs) = Inl e"
  using parse_fields_print[OF assms] parse_fields_print_err[OF assms] Parse_print_fields[OF assms] by auto

text \<open>Half past eight on the weekdays of every second month.\<close>

definition example_fields :: "range_item list list" where
  "example_fields =
     [[(One (Num 0), None)], [(One (Num 30), None)], [(One (Num 8), None), (Between (Num 13) (Num 17), Some 2)],
      [(Question, None)], [(Star, Some 2)], [(Between (Name ''Mon'') (Name ''Fri''), None)]]"

lemma example_names: "ToLower ''Mon'' = ''mon''" "ToLower ''Fri'' = ''fri''"
  by code_simp+

lemma example_fields_ok:
  "spec_text example_fields" "spec_ok example_fields"
  "print_spec example_fields = ''0 30 8,13-17/2 ? */2 Mon-Fri''"
proof -
  show "spec_text example_fields"
    by (simp add: example_fields_def spec_text_def field_text_def word_char_def is_digit_def)
  show "spec_ok example_fields"
    by (simp add: example_fields_def spec_ok_def cron_bounds_def seconds_def minutes_def hours_def dom_def
        months_def dow_def item_ok_def in_bounds_def example_names)
  show "print_spec example_fields = ''0 30 8,13-17/2 ? */2 Mon-Fri''"
    by code_simp
qed

theorem Parse_text_meaning_witness:
  "\<exists>s. Parse ''0 30 8,13-17/2 ? */2 Mon-Fri'' = Inr (Spec s)
     \<and> (\<forall>t. spec_matches s t \<longleftrightarrow> text_matches example_fields t)"
  using Parse_text_meaning[OF example_fields_ok(1)] by (simp add: example_fields_ok)

text \<open>C1: From text to firing times: for every valid six-field text, the schedule that \<open>Parse\<close> returns
  fires next at the earliest whole second after \<open>t\<close> that the text describes, in the years up to the
  fifth after the next second, and returns the zero time only when there is none.  Times are in a zone
  whose offset is a whole number of minutes.\<close>

theorem Parse_then_Next:
  assumes "spec_text fs" "spec_ok fs" "t_loc t mod 60 = 0"
  shows "\<exists>s. Parse (print_spec fs) = Inr (Spec s) \<and> fires_next (text_matches fs) t (Next s t)"
proof -
  obtain s where s: "Parse (print_spec fs) = Inr (Spec s)" "\<forall>t. spec_matches s t \<longleftrightarrow> text_matches fs t"
    using parse_fields_print[OF assms(1,2)] Parse_print_fields[OF assms(1)] by auto
  then have "spec_matches s = text_matches fs" by auto
  with s(1) Next_fires[OF assms(3), of s] show ?thesis by auto
qed

theorem Parse_then_Next_witness:
  "\<exists>s. Parse ''0 30 8,13-17/2 ? */2 Mon-Fri'' = Inr (Spec s)
     \<and> fires_next (text_matches example_fields) \<lparr>t_ns = 63000000000000000000, t_loc = 28800\<rparr>
         (Next s \<lparr>t_ns = 63000000000000000000, t_loc = 28800\<rparr>)"
  using Parse_then_Next[OF example_fields_ok(1,2), of "\<lparr>t_ns = 63000000000000000000, t_loc = 28800\<rparr>"]
  by (simp add: example_fields_ok(3))

end
