(* ===== verification/Cron_Runner.thy ===== *)
theory Cron_Runner
  imports Cron_Text "HOL-Library.Multiset"
begin

text \<open>
  The scheduler of \<^verbatim>\<open>core/cron/cron.go\<close>: the list of entries, the goroutine \<open>run\<close> as a step relation
  (timer, added entry, snapshot, stop) and the operations of the interface.  The clock readings are
  part of the steps; a timer armed for a duration fires no earlier than that.  \<open>sort.Sort\<close> is not
  stable, so its result is any sorted permutation.
\<close>

section \<open>Entries\<close>

record 'j Entry =
  e_Schedule :: Schedule
  e_Next :: time
  e_Prev :: time
  e_Job :: 'j

definition Less :: "'j Entry \<Rightarrow> 'j Entry \<Rightarrow> bool" where
  "Less a b = (if IsZero (e_Next a) then False
               else if IsZero (e_Next b) then True
               else Before (e_Next a) (e_Next b))"

definition sorted_by_time :: "'j Entry list \<Rightarrow> bool" where
  "sorted_by_time es = sorted_wrt (\<lambda>a b. \<not> Less b a) es"

definition sort_Sort :: "'j Entry list \<Rightarrow> 'j Entry list \<Rightarrow> bool" where
  "sort_Sort es es' \<longleftrightarrow> mset es' = mset es \<and> sorted_by_time es'"

record 'j Cron =
  c_entries :: "'j Entry list"
  c_running :: bool
  c_location :: Location
  c_loop :: "(time \<times> int) option"

text \<open>\<open>c_loop\<close> holds the locals of the goroutine \<open>run\<close> while it waits in its \<open>select\<close>: \<open>now\<close> and the
  instant at which the timer it armed fires.\<close>

definition NewWithLocation :: "Location \<Rightarrow> 'j Cron" where
  "NewWithLocation location = \<lparr>c_entries = [], c_running = False, c_location = location, c_loop = None\<rparr>"

definition new_entry :: "Schedule \<Rightarrow> 'j \<Rightarrow> 'j Entry" where
  "new_entry schedule cmd = \<lparr>e_Schedule = schedule, e_Next = zero_time, e_Prev = zero_time, e_Job = cmd\<rparr>"

definition reschedule :: "time \<Rightarrow> 'j Entry \<Rightarrow> 'j Entry" where
  "reschedule now e = e\<lparr>e_Next := Schedule_Next (e_Schedule e) now\<rparr>"

definition AddJob :: "string \<Rightarrow> 'j \<Rightarrow> parse_error + 'j Entry" where
  "AddJob spec cmd = bindp (Parse spec) (\<lambda>schedule. Inr (new_entry schedule cmd))"

section \<open>The loop of run\<close>

text \<open>The instant at which the timer fires that the head of the loop arms.\<close>

definition arm :: "time \<Rightarrow> 'j Entry list \<Rightarrow> int" where
  "arm now es =
     (if length es = 0 \<or> IsZero (e_Next (hd es))
      then t_ns now + 100000 * 3600 * ns_per_sec
      else t_ns now + Sub (e_Next (hd es)) now)"

fun run_due :: "time \<Rightarrow> 'j Entry list \<Rightarrow> 'j list \<times> 'j Entry list" where
  "run_due now [] = ([], [])"
| "run_due now (e # es) =
     (if After (e_Next e) now \<or> IsZero (e_Next e) then ([], e # es)
      else let (js, es') = run_due now es
           in (e_Job e # js, reschedule now (e\<lparr>e_Prev := e_Next e\<rparr>) # es'))"

definition entrySnapshot :: "'j Cron \<Rightarrow> 'j Entry list" where
  "entrySnapshot c =
     map (\<lambda>e. \<lparr>e_Schedule = e_Schedule e, e_Next = e_Next e, e_Prev = e_Prev e, e_Job = e_Job e\<rparr>) (c_entries c)"

datatype 'j event =
    Scheduled "'j Entry"
  | Started time
  | Fired time "'j list"
  | Added "'j Entry" time
  | Snapshot "'j Entry list"
  | Stopped

definition resume :: "'j Cron \<Rightarrow> time \<Rightarrow> 'j Entry list \<Rightarrow> 'j Cron" where
  "resume c now es = c\<lparr>c_entries := es, c_running := True, c_loop := Some (now, arm now es)\<rparr>"

text \<open>A schedule a client can hold: any crontab schedule, or a delay that \<open>Every\<close> built.\<close>

inductive constructed :: "Schedule \<Rightarrow> bool" where
  "constructed (Spec s)"
| "constructed (Constant (Every d))"

inductive cron_step :: "'j Cron \<Rightarrow> 'j event \<Rightarrow> 'j Cron \<Rightarrow> bool" where
  schedule_idle: "\<not> c_running c \<Longrightarrow> e = new_entry s j \<Longrightarrow> constructed s \<Longrightarrow>
    cron_step c (Scheduled e) (c\<lparr>c_entries := c_entries c @ [e]\<rparr>)"
| start: "\<not> c_running c \<Longrightarrow> now = In t (c_location c) \<Longrightarrow>
    sort_Sort (map (reschedule now) (c_entries c)) es \<Longrightarrow>
    cron_step c (Started now) (resume c now es)"
| fire: "c_loop c = Some (now, deadline) \<Longrightarrow> deadline \<le> t_ns t \<Longrightarrow> now' = In t (c_location c) \<Longrightarrow>
    run_due now' (c_entries c) = (js, es) \<Longrightarrow> sort_Sort es es' \<Longrightarrow>
    cron_step c (Fired now' js) (resume c now' es')"
| add: "c_loop c = Some (now, deadline) \<Longrightarrow> now' = In t (c_location c) \<Longrightarrow>
    e = new_entry s j \<Longrightarrow> constructed s \<Longrightarrow> sort_Sort (c_entries c @ [reschedule now' e]) es \<Longrightarrow>
    cron_step c (Added e now') (resume c now' es)"
| snapshot: "cron_step c (Snapshot (entrySnapshot c)) c"
| stop: "c_loop c = Some (now, deadline) \<Longrightarrow>
    cron_step c Stopped (c\<lparr>c_running := False, c_loop := None\<rparr>)"

inductive_cases cron_stepE: "cron_step c ev c'"
inductive_cases cron_firedE: "cron_step c (Fired now js) c'"

text \<open>Runs under a clock that does not go back: \<open>clk\<close> is the last reading, in nanoseconds.\<close>

fun reading :: "'j event \<Rightarrow> int \<Rightarrow> int" where
  "reading (Started t) clk = t_ns t"
| "reading (Fired t js) clk = t_ns t"
| "reading (Added e t) clk = t_ns t"
| "reading ev clk = clk"

inductive cron_reachable :: "Location \<Rightarrow> int \<Rightarrow> 'j Cron \<Rightarrow> bool" for loc where
  reach_new: "0 \<le> clk \<Longrightarrow> cron_reachable loc clk (NewWithLocation loc)"
| reach_step: "cron_reachable loc clk c \<Longrightarrow> cron_step c ev c' \<Longrightarrow> clk \<le> reading ev clk \<Longrightarrow>
    cron_reachable loc (reading ev clk) c'"

section \<open>The loop over the due entries\<close>

definition due :: "time \<Rightarrow> 'j Entry \<Rightarrow> bool" where
  "due now e \<longleftrightarrow> \<not> IsZero (e_Next e) \<and> \<not> After (e_Next e) now"

definition ran :: "time \<Rightarrow> 'j Entry \<Rightarrow> 'j Entry" where
  "ran now e = (if due now e then reschedule now (e\<lparr>e_Prev := e_Next e\<rparr>) else e)"

lemma sorted_not_due:
  assumes "sorted_by_time (e # es)" "\<not> due now e" "x \<in> set es"
  shows "\<not> due now x"
  using assms by (fastforce simp: sorted_by_time_def due_def Less_def After_def Before_def split: if_splits)

text \<open>On sorted entries the loop with its early exit treats exactly the due ones.\<close>

lemma run_due_filter:
  "sorted_by_time es \<Longrightarrow> run_due now es = (map e_Job (filter (due now) es), map (ran now) es)"
proof (induction es)
  case (Cons e es)
  then have IH: "run_due now es = (map e_Job (filter (due now) es), map (ran now) es)"
    by (simp add: sorted_by_time_def)
  show ?case
  proof (cases "due now e")
    case True
    then show ?thesis by (simp add: IH ran_def) (simp add: due_def)
  next
    case False
    with sorted_not_due[OF Cons.prems False] have "filter (due now) (e # es) = []" "map (ran now) (e # es) = e # es"
      by (auto simp: filter_empty_conv ran_def intro!: map_idI)
    moreover have "run_due now (e # es) = ([], e # es)" using False by (auto simp: due_def)
    ultimately show ?thesis by simp
  qed
qed simp

section \<open>The invariant\<close>

text \<open>The next time of an entry was computed at some earlier reading \<open>b\<close>, at or after the previous
  run.\<close>

definition entry_inv :: "Location \<Rightarrow> time \<Rightarrow> 'j Entry \<Rightarrow> bool" where
  "entry_inv loc now e \<longleftrightarrow>
     (\<exists>b. t_loc b = loc \<and> 0 \<le> t_ns b \<and> t_ns b \<le> t_ns now \<and> t_ns (e_Prev e) \<le> t_ns b
        \<and> e_Next e = Schedule_Next (e_Schedule e) b)"

definition cron_inv :: "Location \<Rightarrow> int \<Rightarrow> 'j Cron \<Rightarrow> bool" where
  "cron_inv loc clk c \<longleftrightarrow>
     0 \<le> clk \<and> c_location c = loc \<and> (c_running c \<longleftrightarrow> c_loop c \<noteq> None)
     \<and> (\<forall>e \<in> set (c_entries c). constructed (e_Schedule e) \<and> t_ns (e_Prev e) \<le> clk)
     \<and> (\<forall>now dl. c_loop c = Some (now, dl) \<longrightarrow>
          t_loc now = loc \<and> t_ns now \<le> clk \<and> sorted_by_time (c_entries c) \<and> dl = arm now (c_entries c)
          \<and> (\<forall>e \<in> set (c_entries c). entry_inv loc now e))"

lemma sort_Sort_set: "sort_Sort es es' \<Longrightarrow> set es' = set es"
  unfolding sort_Sort_def by (metis set_mset_mset)

lemma reschedule_inv:
  "t_loc now = loc \<Longrightarrow> 0 \<le> t_ns now \<Longrightarrow> t_ns (e_Prev e) \<le> t_ns now \<Longrightarrow> entry_inv loc now (reschedule now e)"
  by (auto simp: entry_inv_def reschedule_def)

lemma entry_inv_later: "entry_inv loc now e \<Longrightarrow> t_ns now \<le> t_ns now' \<Longrightarrow> entry_inv loc now' e"
  unfolding entry_inv_def by (metis order_trans)

lemma ran_inv:
  assumes "entry_inv loc now e" "t_ns now \<le> t_ns now'" "t_loc now' = loc" "0 \<le> t_ns now'"
  shows "entry_inv loc now' (ran now' e)"
proof (cases "due now' e")
  case True
  then show ?thesis
    using assms by (auto simp: ran_def due_def After_def Before_def intro!: reschedule_inv)
next
  case False
  then show ?thesis using entry_inv_later[OF assms(1,2)] by (simp add: ran_def)
qed

lemma resume_inv:
  assumes "cron_inv loc clk c" "clk \<le> t_ns now" "t_loc now = loc" "sort_Sort es es'"
    and "\<forall>e \<in> set es. constructed (e_Schedule e) \<and> t_ns (e_Prev e) \<le> t_ns now \<and> entry_inv loc now e"
  shows "cron_inv loc (t_ns now) (resume c now es')"
  using assms sort_Sort_set[OF assms(4)]
  by (auto simp: cron_inv_def resume_def sort_Sort_def)

lemma step_inv:
  assumes "cron_inv loc clk c" "cron_step c ev c'" "clk \<le> reading ev clk"
  shows "cron_inv loc (reading ev clk) c'"
  using assms(2)
proof (cases rule: cron_step.cases)
  case (schedule_idle e s j)
  then show ?thesis using assms(1) by (auto simp: cron_inv_def new_entry_def zero_time_def)
next
  case (start now t es)
  then have "clk \<le> t_ns now" "t_loc now = loc" using assms by (auto simp: In_def cron_inv_def)
  then have "cron_inv loc (t_ns now) (resume c now es)"
    using assms(1) by (intro resume_inv[OF assms(1) _ _ start(5)])
      (auto simp: cron_inv_def intro!: reschedule_inv, auto simp: reschedule_def)
  then show ?thesis using start by simp
next
  case (fire now deadline t now' js es es')
  then have so: "sorted_by_time (c_entries c)" and ei: "\<forall>e \<in> set (c_entries c). entry_inv loc now e"
    and l: "t_ns now \<le> t_ns now'" "t_loc now' = loc" "0 \<le> t_ns now'" "clk \<le> t_ns now'"
    using assms by (auto simp: cron_inv_def In_def)
  have es: "es = map (ran now') (c_entries c)" using run_due_filter[OF so, of now'] fire by simp
  have "\<forall>e \<in> set es. constructed (e_Schedule e) \<and> t_ns (e_Prev e) \<le> t_ns now' \<and> entry_inv loc now' e"
    using assms(1) ei ran_inv[OF _ l(1-3)] l(4)
    by (auto simp: es cron_inv_def) (auto simp: ran_def reschedule_def due_def After_def Before_def)
  from resume_inv[OF assms(1) l(4,2) fire(7) this] show ?thesis using fire by simp
next
  case (add now deadline now' t e s j es)
  then have l: "t_ns now \<le> t_ns now'" "t_loc now' = loc" "0 \<le> t_ns now'" "clk \<le> t_ns now'"
    and ei: "\<forall>e \<in> set (c_entries c). entry_inv loc now e"
    using assms by (auto simp: cron_inv_def In_def)
  have "entry_inv loc now' (reschedule now' e)"
    using l add by (intro reschedule_inv) (auto simp: new_entry_def zero_time_def)
  then have "\<forall>x \<in> set (c_entries c @ [reschedule now' e]).
      constructed (e_Schedule x) \<and> t_ns (e_Prev x) \<le> t_ns now' \<and> entry_inv loc now' x"
    using assms(1) ei entry_inv_later[OF _ l(1)] l add
    by (auto simp: cron_inv_def) (auto simp: reschedule_def new_entry_def zero_time_def)
  from resume_inv[OF assms(1) l(4,2) add(7) this] show ?thesis using add by simp
qed (use assms in \<open>auto simp: cron_inv_def\<close>)

lemma reachable_inv: "cron_reachable loc clk c \<Longrightarrow> cron_inv loc clk c"
  by (induction rule: cron_reachable.induct) (simp add: cron_inv_def NewWithLocation_def, rule step_inv)

section \<open>What the runner guarantees\<close>

lemma Schedule_Next_later:
  assumes "constructed s" "t_loc b mod 60 = 0"
  shows "Schedule_Next s b = zero_time \<or> After (Schedule_Next s b) b"
  using assms
proof (cases rule: constructed.cases)
  case (1 sp)
  then show ?thesis using Next_fires[OF assms(2), of sp] by (auto simp: fires_next_def)
next
  case (2 d)
  have "ns_per_sec \<le> cd_Delay (Every d)"
    using mult_left_mono[of 1 "max 1 (d div ns_per_sec)" ns_per_sec] by (simp add: Every_delay)
  moreover have "Nanosecond b < ns_per_sec" by (simp add: Nanosecond_def)
  ultimately have "Nanosecond b < cd_Delay (Every d)" by linarith
  then show ?thesis by (simp add: 2 ConstantDelay_Next_def After_def Before_def Add_def)
qed

lemma entry_later:
  assumes "entry_inv loc now e" "constructed (e_Schedule e)" "loc mod 60 = 0" "\<not> IsZero (e_Next e)"
  obtains b where "t_loc b = loc" "t_ns b \<le> t_ns now" "t_ns (e_Prev e) \<le> t_ns b" "t_ns b < t_ns (e_Next e)"
    "e_Next e = Schedule_Next (e_Schedule e) b"
proof -
  from assms(1) obtain b where b: "t_loc b = loc" "t_ns b \<le> t_ns now" "t_ns (e_Prev e) \<le> t_ns b"
      "e_Next e = Schedule_Next (e_Schedule e) b" by (auto simp: entry_inv_def)
  moreover have "t_ns b < t_ns (e_Next e)"
    using Schedule_Next_later[OF assms(2), of b] b assms(3,4)
    by (auto simp: IsZero_def zero_time_def After_def Before_def)
  ultimately show thesis using that by blast
qed

lemma fired_step:
  assumes "cron_step c (Fired now js) c'"
  obtains now0 dl es es' where "c_loop c = Some (now0, dl)" "dl \<le> t_ns now" "run_due now (c_entries c) = (js, es)"
    "sort_Sort es es'" "c' = resume c now es'"
  using assms by (elim cron_firedE) (auto simp: In_def)

lemma reachable_loop:
  assumes "cron_reachable loc clk c" "c_loop c = Some (now, dl)"
  shows "t_loc now = loc" "t_ns now \<le> clk" "sorted_by_time (c_entries c)" "dl = arm now (c_entries c)"
    "\<And>e. e \<in> set (c_entries c) \<Longrightarrow> entry_inv loc now e \<and> constructed (e_Schedule e)"
  using reachable_inv[OF assms(1)] assms(2) by (auto simp: cron_inv_def)

text \<open>C6: When the timer fires, the loop with its early exit runs exactly the entries that are due (a
  nonzero next time not after the reading), each once; exactly these get the time just reached as
  previous time and a new next time, and every other entry is unchanged.\<close>

theorem fire_runs_exactly_due:
  assumes "cron_reachable loc clk c" "cron_step c (Fired now js) c'"
  shows "mset js = image_mset e_Job (filter_mset (due now) (mset (c_entries c)))
    \<and> mset (c_entries c') = image_mset (ran now) (mset (c_entries c))"
  using assms(2)
proof (cases rule: fired_step)
  case (1 now0 dl es es')
  then show ?thesis
    using run_due_filter[OF reachable_loop(3)[OF assms(1) 1(1)], of now] by (auto simp: resume_def sort_Sort_def)
qed

text \<open>C7: In every reachable waiting state, an entry with a crontab schedule and a nonzero next time is
  next due at a whole second that its schedule matches, strictly after the time of its previous run:
  a job is run only for times its schedule describes, and never twice for one of them.\<close>

theorem entries_due_at_matches:
  assumes "cron_reachable loc clk c" "loc mod 60 = 0" "c_loop c = Some (now, dl)"
    and "e \<in> set (c_entries c)" "\<not> IsZero (e_Next e)" "e_Schedule e = Spec s"
  shows "whole_second (e_Next e) \<and> spec_matches s (e_Next e) \<and> t_ns (e_Prev e) < t_ns (e_Next e)"
proof -
  obtain b where b: "t_loc b = loc" "t_ns (e_Prev e) \<le> t_ns b" "t_ns b < t_ns (e_Next e)" "e_Next e = Next s b"
    using entry_later[OF _ _ assms(2,5)] reachable_loop(5)[OF assms(1,3,4)] assms(6)
    by (metis Schedule_Next.simps(1))
  then have "Next s b \<noteq> zero_time" using assms(5) by (auto simp: IsZero_def zero_time_def)
  then show ?thesis
    using Next_fires[of b s] b assms(2) by (auto simp: fires_next_def)
qed

lemma head_least:
  assumes "sorted_by_time (h # es)" "e \<in> set (h # es)" "\<not> IsZero (e_Next e)"
  shows "\<not> IsZero (e_Next h)" "t_ns (e_Next h) \<le> t_ns (e_Next e)"
  using assms by (auto simp: sorted_by_time_def Less_def Before_def split: if_splits)


definition load :: "'j Cron \<Rightarrow> (Schedule \<times> 'j) multiset" where
  "load c = image_mset (\<lambda>e. (e_Schedule e, e_Job e)) (mset (c_entries c))"

fun added :: "'j event \<Rightarrow> (Schedule \<times> 'j) multiset" where
  "added (Scheduled e) = {#(e_Schedule e, e_Job e)#}"
| "added (Added e t) = {#(e_Schedule e, e_Job e)#}"
| "added ev = {#}"

lemma ran_keeps: "e_Schedule (ran now e) = e_Schedule e" "e_Job (ran now e) = e_Job e"
  by (simp_all add: ran_def reschedule_def)

lemma load_resume: "sort_Sort es es' \<Longrightarrow> load (resume c now es') = image_mset (\<lambda>e. (e_Schedule e, e_Job e)) (mset es)"
  by (simp add: load_def resume_def sort_Sort_def)

text \<open>C12: Entries are never lost or duplicated: from a reachable state every step keeps the multiset of
  schedules with their jobs, except that adding an entry adds exactly it.\<close>

theorem entries_conserved:
  assumes "cron_reachable loc clk c" "cron_step c ev c'"
  shows "load c' = load c + added ev"
  using assms(2)
proof (cases rule: cron_step.cases)
  case (fire now deadline t now' js es es')
  have "es = map (ran now') (c_entries c)"
    using fire run_due_filter[OF reachable_loop(3)[OF assms(1) fire(3)], of now'] by simp
  then have "image_mset (\<lambda>e. (e_Schedule e, e_Job e)) (mset es) = load c"
    by (simp add: load_def image_mset.compositionality comp_def ran_keeps)
  then show ?thesis using fire by (simp add: load_resume)
qed (auto simp: load_resume, auto simp: load_def reschedule_def image_mset.compositionality comp_def)

text \<open>An entry whose next time is the zero time is left as it is by every step of a running scheduler:
  a schedule that matches nothing within the five years that \<open>Next\<close> searches is dropped for good, also
  when it would match later (February 29 after a century that is not a leap year).\<close>

theorem zero_entries_stay:
  assumes "cron_reachable loc clk c" "cron_step c ev c'" "c_running c" "c_running c'"
    and "e \<in> set (c_entries c)" "IsZero (e_Next e)"
  shows "e \<in> set (c_entries c')"
  using assms(2)
proof (cases rule: cron_step.cases)
  case (fire now deadline t now' js es es')
  have "es = map (ran now') (c_entries c)"
    using fire run_due_filter[OF reachable_loop(3)[OF assms(1) fire(3)], of now'] by simp
  moreover have "ran now' e = e" using assms(6) by (simp add: ran_def due_def)
  ultimately have "e \<in> set es" using assms(5) by (metis image_eqI list.set_map)
  then show ?thesis using fire sort_Sort_set[OF fire(7)] by (simp add: resume_def)
next
  case (add now deadline now' t x s j es)
  then show ?thesis using assms(5) sort_Sort_set[OF add(7)] by (simp add: resume_def)
qed (use assms in auto)

lemma leap_day_year: "Month u = 2 \<Longrightarrow> Day u = 29 \<Longrightarrow> is_leap (Year u)"
  using date_ranges(4)[of u] by (auto simp: days_in_month_def days_before_month_def month_table_def split: if_splits)

lemma Year_mono: "local_sec t \<le> local_sec u \<Longrightarrow> Year t \<le> Year u"
  using Year_le_iff[of t "Year u"] Year_le_iff[of u "Year u"] by simp

definition leap_fields :: "range_item list list" where
  "leap_fields = map (\<lambda>b. [(b, None)])
     [One (Num 0), One (Num 0), One (Num 0), One (Num 29), One (Num 2), Star]"

lemma leap_fields_ok: "spec_text leap_fields" "spec_ok leap_fields" "print_spec leap_fields = ''0 0 0 29 2 *''"
  by (simp_all add: leap_fields_def spec_text_def field_text_def spec_ok_def cron_bounds_def seconds_def minutes_def
      hours_def dom_def months_def dow_def item_ok_def in_bounds_def) code_simp

lemma at_single: "n < 2 ^ 63 \<Longrightarrow> at_field v r [(One (Num n), None)] \<longleftrightarrow> nat v = n"
  by (auto simp: at_field_def field_values_def item_values_def stepped_def)

lemma at_star: "at_field v r [(Star, None)] \<longleftrightarrow> unat (b_min r) \<le> nat v \<and> nat v \<le> unat (b_max r)"
  by (simp add: at_field_def field_values_def item_values_def stepped_def)

lemma leap_matches:
  "text_matches leap_fields u \<longleftrightarrow> Second u = 0 \<and> Minute u = 0 \<and> Hour u = 0 \<and> Day u = 29 \<and> Month u = 2"
proof -
  have nn: "0 \<le> Second u" "0 \<le> Minute u" "0 \<le> Hour u" "0 \<le> Day u" "0 \<le> Month u"
    using date_ranges[of u] by (simp_all add: Second_def Minute_def Hour_def)
  have "nat (Weekday u) \<le> 6" using pos_mod_bound[of 7 "local_day u + 1"] by (simp add: Weekday_def)
  then have "at_field (Weekday u) dow [(Star, None)]" by (simp add: at_star dow_def)
  moreover have "has_star [(Star, None)]" by (simp add: has_star_def)
  ultimately have "text_matches leap_fields u \<longleftrightarrow> nat (Second u) = 0 \<and> nat (Minute u) = 0 \<and> nat (Hour u) = 0
      \<and> nat (Month u) = 2 \<and> nat (Day u) = 29"
    by (simp add: text_matches_def leap_fields_def at_single)
  then show ?thesis using nn by (auto simp: nat_eq_iff)
qed

lemma leap_day_2104:
  assumes "u = Date 2104 2 29 0 0 0 0 loc"
  shows "text_matches leap_fields u" "Year u = 2104" "whole_second u" "t_loc u = loc"
proof -
  have dn: "local_day u = day_number 2104 2 29" unfolding assms by (subst Date_local_day) simp_all
  have "29 \<le> days_in_month 2104 2" by (simp add: days_in_month_def days_before_month_def month_table_def is_leap_def)
  then have d: "Year u = 2104" "Month u = 2" "Day u = 29"
    using date_of_day_number[of 2 29 2104] dn by (simp_all add: Year_def Month_def Day_def)
  have "local_sec u = 86400 * day_number 2104 2 29" unfolding assms by (subst Date_local) simp_all
  then have "Second u = 0" "Minute u = 0" "Hour u = 0"
    using mod_mult_self1_is_0[of 86400] by (simp_all add: Second_def Minute_def Hour_def)
  with d show "text_matches leap_fields u" "Year u = 2104" by (simp_all add: leap_matches)
  show "whole_second u" "t_loc u = loc" by (simp_all add: assms Date_def whole_second_def Let_def)
qed

text \<open>The schedule of midnight on February 29 gets no next time from any reading in the year 2097,
  although the schedule matches later, in 2104.\<close>

theorem leap_day_dropped:
  assumes "t_loc t mod 60 = 0" "Year (upcoming t) = 2097"
  shows "\<exists>s. Parse ''0 0 0 29 2 *'' = Inr (Spec s) \<and> Next s t = zero_time
     \<and> (\<exists>u. whole_second u \<and> t_loc u = t_loc t \<and> After u t \<and> spec_matches s u)"
proof -
  obtain s where s: "Parse ''0 0 0 29 2 *'' = Inr (Spec s)" and m: "\<forall>t. spec_matches s t \<longleftrightarrow> text_matches leap_fields t"
    using parse_fields_print[OF leap_fields_ok(1,2)] Parse_print_fields[OF leap_fields_ok(1)] leap_fields_ok(3) by auto
  define u where "u = Date 2104 2 29 0 0 0 0 (t_loc t)"
  note u = leap_day_2104[OF u_def]
  have "L (upcoming t) \<le> L u" using Year_mono[of u "upcoming t"] u(2) assms(2) by linarith
  then have "After u t" using after_upcoming[OF u(3,4)] by simp
  moreover have "Next s t = zero_time"
  proof (rule ccontr)
    assume "Next s t \<noteq> zero_time"
    then have r: "spec_matches s (Next s t)" "whole_second (Next s t)" "t_loc (Next s t) = t_loc t"
        "After (Next s t) t" "Year (Next s t) \<le> 2102"
      using Next_fires[OF assms(1), of s] assms(2) by (auto simp: fires_next_def)
    have "2097 \<le> Year (Next s t)"
      using Year_mono after_upcoming[OF r(2,3)] r(4) assms(2) by metis
    moreover have "is_leap (Year (Next s t))" using r(1) m leap_matches leap_day_year by blast
    ultimately show False using r(5) unfolding is_leap_def by presburger
  qed
  ultimately show ?thesis using s m u by blast
qed

section \<open>A run\<close>

text \<open>A scheduler in UTC with one job for every second, started and fired half a second late.\<close>

definition at_ns :: "int \<Rightarrow> time" where
  "at_ns n = \<lparr>t_ns = n, t_loc = 0\<rparr>"

definition example_entry :: "int \<Rightarrow> int \<Rightarrow> nat Entry" where
  "example_entry prev next = \<lparr>e_Schedule = Spec always, e_Next = at_ns next, e_Prev = at_ns prev, e_Job = 7\<rparr>"

definition example_idle :: "nat Cron" where
  "example_idle = (NewWithLocation 0)\<lparr>c_entries := [new_entry (Spec always) 7]\<rparr>"

definition example_waiting :: "nat Cron" where
  "example_waiting = resume example_idle (at_ns 63000000030000000007) [example_entry 0 63000000031000000000]"

definition example_fired :: "nat Cron" where
  "example_fired = resume example_waiting (at_ns 63000000031500000000) [example_entry 63000000031000000000 63000000032000000000]"

lemma example_next:
  "Next always (at_ns 63000000030000000007) = at_ns 63000000031000000000"
  "Next always (at_ns 63000000031500000000) = at_ns 63000000032000000000"
  by (simp_all add: Next_always upcoming_def Add_def Nanosecond_def ns_per_sec_def at_ns_def)

lemma example_idle_reachable: "cron_reachable 0 0 example_idle"
  using reach_step[OF reach_new[of 0 0] schedule_idle[of "NewWithLocation 0" _ "Spec always" 7]]
  by (simp add: NewWithLocation_def example_idle_def constructed.intros)

lemma example_start: "cron_step example_idle (Started (at_ns 63000000030000000007)) example_waiting"
  unfolding example_waiting_def
  by (rule start[where t = "at_ns 63000000030000000007"])
    (simp_all add: example_idle_def NewWithLocation_def at_ns_def In_def sort_Sort_def sorted_by_time_def
      reschedule_def new_entry_def example_entry_def example_next[unfolded at_ns_def] zero_time_def)

lemma example_waiting_reachable: "cron_reachable 0 63000000030000000007 example_waiting"
  using reach_step[OF example_idle_reachable example_start] by (simp add: at_ns_def)

lemma example_fire: "cron_step example_waiting (Fired (at_ns 63000000031500000000) [7]) example_fired"
  unfolding example_fired_def
  by (rule fire[where t = "at_ns 63000000031500000000" and now = "at_ns 63000000030000000007"
        and deadline = 63000000031000000000 and es = "[example_entry 63000000031000000000 63000000032000000000]"])
    (simp_all add: example_waiting_def example_idle_def NewWithLocation_def at_ns_def In_def sort_Sort_def sorted_by_time_def
      reschedule_def new_entry_def example_entry_def example_next[unfolded at_ns_def] resume_def arm_def Sub_def
      IsZero_def After_def Before_def)

lemma example_entries:
  "c_loop example_waiting = Some (at_ns 63000000030000000007, 63000000031000000000)"
  "c_entries example_waiting = [example_entry 0 63000000031000000000]" "c_running example_waiting"
  by (simp_all add: example_waiting_def resume_def arm_def example_entry_def Sub_def IsZero_def at_ns_def)

theorem fire_runs_exactly_due_witness:
  "{#7#} = image_mset e_Job (filter_mset (due (at_ns 63000000031500000000)) (mset (c_entries example_waiting)))
    \<and> mset (c_entries example_fired) = image_mset (ran (at_ns 63000000031500000000)) (mset (c_entries example_waiting))"
  using fire_runs_exactly_due[OF example_waiting_reachable example_fire] by simp

theorem entries_due_at_matches_witness:
  "whole_second (at_ns 63000000031000000000) \<and> spec_matches always (at_ns 63000000031000000000)"
  using entries_due_at_matches[OF example_waiting_reachable _ example_entries(1), of "example_entry 0 63000000031000000000" always]
  by (simp add: example_entries example_entry_def IsZero_def at_ns_def)


theorem entries_conserved_witness:
  "load example_fired = load example_waiting + added (Fired (at_ns 63000000031500000000) [7])"
  using entries_conserved[OF example_waiting_reachable example_fire] .

text \<open>A scheduler with a schedule that never matches, to which the job for every second is added.\<close>

definition never_entry :: "nat Entry" where
  "never_entry = new_entry (Spec (always\<lparr>s_Month := 0\<rparr>)) 9"

definition never_waiting :: "nat Cron" where
  "never_waiting = resume ((NewWithLocation 0)\<lparr>c_entries := [never_entry]\<rparr>) (at_ns 5) [never_entry]"

definition never_added :: "nat Cron" where
  "never_added = resume never_waiting (at_ns 63000000030000000007) [example_entry 0 63000000031000000000, never_entry]"

lemma never_stays_zero: "t_loc t mod 60 = 0 \<Longrightarrow> reschedule t never_entry = never_entry"
  using never_matches_Next[of t "always\<lparr>s_Month := 0\<rparr>"]
  by (simp add: never_matches_def reschedule_def never_entry_def new_entry_def)

lemma never_waiting_reachable: "cron_reachable 0 5 never_waiting"
proof -
  let ?c = "(NewWithLocation 0)\<lparr>c_entries := [never_entry]\<rparr>"
  have "cron_reachable 0 0 ?c"
    using reach_step[OF reach_new[of 0 0] schedule_idle[of "NewWithLocation 0" never_entry "Spec (always\<lparr>s_Month := 0\<rparr>)" 9]]
    by (simp add: NewWithLocation_def never_entry_def constructed.intros)
  moreover have "cron_step ?c (Started (at_ns 5)) never_waiting"
    unfolding never_waiting_def
    by (rule start[where t = "at_ns 5"])
      (simp_all add: NewWithLocation_def at_ns_def In_def sort_Sort_def sorted_by_time_def never_stays_zero)
  ultimately show ?thesis using reach_step[of 0 0 ?c "Started (at_ns 5)" never_waiting] by (simp add: at_ns_def)
qed

lemma never_add:
  "cron_step never_waiting (Added (new_entry (Spec always) 7) (at_ns 63000000030000000007)) never_added"
  unfolding never_added_def
  by (rule add[where t = "at_ns 63000000030000000007" and now = "at_ns 5" and s = "Spec always" and j = 7
        and deadline = "arm (at_ns 5) [never_entry]"])
    (simp_all add: never_waiting_def resume_def NewWithLocation_def at_ns_def In_def sort_Sort_def sorted_by_time_def
      reschedule_def new_entry_def example_entry_def example_next[unfolded at_ns_def] zero_time_def constructed.intros
      Less_def never_entry_def IsZero_def)

theorem zero_entries_stay_witness: "never_entry \<in> set (c_entries never_added)"
  using zero_entries_stay[OF never_waiting_reachable never_add]
  by (simp add: never_waiting_def never_added_def resume_def never_entry_def new_entry_def zero_time_def IsZero_def)

theorem leap_day_dropped_witness:
  "\<exists>s. Parse ''0 0 0 29 2 *'' = Inr (Spec s) \<and> Next s (Date 2097 6 1 0 0 0 0 0) = zero_time"
proof -
  let ?t = "Date 2097 6 1 0 0 0 0 0"
  have "local_sec ?t = 86400 * day_number 2097 6 1" by (subst Date_local) simp_all
  then have "local_sec (upcoming ?t) = 1 + 86400 * day_number 2097 6 1"
    by (simp add: local_sec_def upcoming_facts Date_def)
  then have "local_day (upcoming ?t) = day_number 2097 6 1" by (simp add: local_day_def)
  moreover have "1 \<le> days_in_month 2097 6" by (simp add: days_in_month_def days_before_month_def month_table_def)
  ultimately have "Year (upcoming ?t) = 2097" using date_of_day_number(1)[of 6 1 2097] by (simp add: Year_def)
  then show ?thesis using leap_day_dropped[of ?t] by (auto simp: Date_def)
qed

end
