(* ===== verification/Ring_Queue.thy ===== *)
theory Ring_Queue
  imports Prelude
begin

unbundle bit_operations_syntax

text \<open>
  The growable ring buffer of \<^verbatim>\<open>workpool/queue/queue.go\<close>.  The state is the struct \<open>Queue\<close>; its
  elements have the Go type \<open>interface{}\<close> and are options here, \<open>None\<close> being \<open>nil\<close>.  Every index
  operation can panic; the invariant shows that none does.  The ring is a refinement of a list:
  \<open>queue_list\<close> reads it from the head around the end of the buffer.
\<close>

section \<open>State and operations\<close>

definition minQueueLen :: int where
  "minQueueLen = 16"

record 'a queue =
  q_buf :: "'a option list"
  q_head :: int
  q_tail :: int
  q_count :: int

definition queue_New :: "'a queue" where
  "queue_New = \<lparr>q_buf = replicate (nat minQueueLen) None, q_head = 0, q_tail = 0, q_count = 0\<rparr>"

definition queue_Length :: "'a queue \<Rightarrow> int" where
  "queue_Length q = q_count q"

abbreviation q_cap :: "'a queue \<Rightarrow> int" where
  "q_cap q \<equiv> int (length (q_buf q))"

definition queue_resize :: "'a queue \<Rightarrow> 'a queue may_panic" where
  "queue_resize q =
     bindp (go_make (push_bit 1 (q_count q)) None) (\<lambda>newBuf.
     bindp (if q_tail q > q_head q
            then bindp (go_slice (q_buf q) (q_head q) (q_tail q)) (\<lambda>s. Inr (go_copy newBuf s))
            else bindp (go_slice (q_buf q) (q_head q) (q_cap q)) (\<lambda>s1.
                 bindp (go_slice (q_buf q) 0 (q_tail q)) (\<lambda>s2.
                 (let newBuf1 = go_copy newBuf s1; n = min (length newBuf) (length s1)
                  in Inr (take n newBuf1 @ go_copy (drop n newBuf1) s2)))))
       (\<lambda>b. Inr (q\<lparr>q_head := 0, q_tail := q_count q, q_buf := b\<rparr>)))"

definition queue_Add :: "'a queue \<Rightarrow> 'a option \<Rightarrow> 'a queue may_panic" where
  "queue_Add q elem =
     bindp (if q_count q = q_cap q then queue_resize q else Inr q) (\<lambda>q1.
     bindp (go_store (q_buf q1) (q_tail q1) elem) (\<lambda>b.
       Inr (q1\<lparr>q_buf := b,
               q_tail := (q_tail q1 + 1) AND (int (length b) - 1),
               q_count := q_count q1 + 1\<rparr>)))"

definition queue_Peek :: "'a queue \<Rightarrow> 'a option may_panic" where
  "queue_Peek q =
     (if q_count q \<le> 0 then Inl (Panic ''queue: Peek() called no empty queue'')
      else go_index (q_buf q) (q_head q))"

definition queue_Get :: "'a queue \<Rightarrow> int \<Rightarrow> 'a option may_panic" where
  "queue_Get q i =
     (let i = (if i < 0 then i + q_count q else i)
      in if i < 0 \<or> i \<ge> q_count q then Inl (Panic ''queue: Get() called with index out of range'')
         else go_index (q_buf q) ((q_head q + i) AND (q_cap q - 1)))"

definition queue_Remove :: "'a queue \<Rightarrow> ('a option \<times> 'a queue) may_panic" where
  "queue_Remove q =
     (if q_count q \<le> 0 then Inl (Panic ''queue: Remove() called on empty queue'')
      else bindp (go_index (q_buf q) (q_head q)) (\<lambda>ret.
           bindp (go_store (q_buf q) (q_head q) None) (\<lambda>b.
           (let q1 = q\<lparr>q_buf := b,
                       q_head := (q_head q + 1) AND (int (length b) - 1),
                       q_count := q_count q - 1\<rparr>
            in if q_cap q1 > minQueueLen \<and> push_bit 2 (q_count q1) = q_cap q1
               then bindp (queue_resize q1) (\<lambda>q2. Inr (ret, q2))
               else Inr (ret, q1)))))"

section \<open>Abstraction and invariant\<close>

definition queue_list :: "'a queue \<Rightarrow> 'a option list" where
  "queue_list q = take (nat (q_count q)) (rotate (nat (q_head q)) (q_buf q))"

text \<open>
  The capacity is a power of two and at least \<open>minQueueLen\<close>, so that masking with
  \<open>len(buf) - 1\<close> is reduction modulo the capacity.
\<close>

definition queue_inv :: "'a queue \<Rightarrow> bool" where
  "queue_inv q \<longleftrightarrow>
     (\<exists>k\<ge>4. length (q_buf q) = 2 ^ k) \<and>
     0 \<le> q_head q \<and> q_head q < q_cap q \<and>
     0 \<le> q_count q \<and> q_count q \<le> q_cap q \<and>
     q_tail q = (q_head q + q_count q) mod q_cap q"

lemma and_pow2_minus_1: "(x::int) AND (2 ^ k - 1) = x mod 2 ^ k"
  by (simp flip: mask_eq_exp_minus_1 take_bit_eq_mask take_bit_eq_mod)

lemma and_cap:
  assumes "length b = 2 ^ k"
  shows "(x::int) AND (int (length b) - 1) = x mod int (length b)"
  using assms by (simp add: and_pow2_minus_1)

lemma queue_invD:
  assumes "queue_inv q"
  shows "0 \<le> q_head q" "q_head q < q_cap q" "0 \<le> q_count q" "q_count q \<le> q_cap q"
    "0 \<le> q_tail q" "q_tail q < q_cap q"
  using assms by (auto simp: queue_inv_def)

lemma queue_inv_tail: "queue_inv q \<Longrightarrow> q_tail q = (q_head q + q_count q) mod q_cap q"
  by (simp add: queue_inv_def)

lemma queue_inv_cap: "queue_inv q \<Longrightarrow> \<exists>k\<ge>4. length (q_buf q) = 2 ^ k"
  by (simp add: queue_inv_def)

lemma length_queue_list: "queue_inv q \<Longrightarrow> length (queue_list q) = nat (q_count q)"
  using queue_invD[of q] by (simp add: queue_list_def)

lemma queue_list_nth:
  assumes "queue_inv q" and "i < nat (q_count q)"
  shows "queue_list q ! i = q_buf q ! nat ((q_head q + int i) mod q_cap q)"
proof -
  note inv = queue_invD[OF assms(1)]
  have "nat ((q_head q + int i) mod q_cap q) = (nat (q_head q) + i) mod length (q_buf q)"
    using inv by (simp add: nat_mod_distrib nat_add_distrib)
  moreover have "i < length (q_buf q)"
    using assms(2) inv by linarith
  ultimately show ?thesis
    using assms(2) by (simp add: queue_list_def nth_rotate)
qed

text \<open>The tail is past the head when the contents do not wrap around, and at or before it when they do.\<close>

lemma q_count_linear:
  assumes "queue_inv q" and "q_head q < q_tail q"
  shows "q_count q = q_tail q - q_head q"
  using queue_invD[OF assms(1)] queue_inv_tail[OF assms(1)] assms(2)
  by (smt (verit) mod_pos_pos_trivial mod_add_self2 minus_mod_self2)

lemma q_count_wrapped:
  assumes "queue_inv q" and "q_tail q \<le> q_head q" and "0 < q_count q"
  shows "q_count q = q_cap q - q_head q + q_tail q"
  using queue_invD[OF assms(1)] queue_inv_tail[OF assms(1)] assms(2,3)
  by (smt (verit) mod_pos_pos_trivial mod_add_self2 minus_mod_self2)

lemma rotate_head:
  "queue_inv q \<Longrightarrow> rotate (nat (q_head q)) (q_buf q) =
     drop (nat (q_head q)) (q_buf q) @ take (nat (q_head q)) (q_buf q)"
  using queue_invD[of q] by (simp add: rotate_drop_take nat_less_iff)

lemma queue_list_linear:
  assumes "queue_inv q" and "q_head q < q_tail q"
  shows "queue_list q = take (nat (q_tail q - q_head q)) (drop (nat (q_head q)) (q_buf q))"
proof -
  have "nat (q_tail q - q_head q) \<le> length (q_buf q) - nat (q_head q)"
    using queue_invD[OF assms(1)] by linarith
  then show ?thesis
    using q_count_linear[OF assms] by (simp add: queue_list_def rotate_head[OF assms(1)])
qed

lemma queue_list_wrapped:
  assumes "queue_inv q" and "q_tail q \<le> q_head q" and "0 < q_count q"
  shows "queue_list q = drop (nat (q_head q)) (q_buf q) @ take (nat (q_tail q)) (q_buf q)"
proof -
  have "nat (q_count q) = (length (q_buf q) - nat (q_head q)) + nat (q_tail q)"
    using q_count_wrapped[OF assms] queue_invD[OF assms(1)] by linarith
  moreover have "min (nat (q_tail q)) (nat (q_head q)) = nat (q_tail q)"
    using assms(2) by linarith
  ultimately show ?thesis
    by (simp add: queue_list_def rotate_head[OF assms(1)])
qed

section \<open>Correctness of the operations\<close>

lemma queue_New_inv: "queue_inv queue_New" "queue_list queue_New = []"
proof -
  have "length (q_buf queue_New) = 2 ^ 4"
    by (simp add: queue_New_def minQueueLen_def)
  then show "queue_inv queue_New"
    by (auto simp: queue_inv_def queue_New_def minQueueLen_def intro: exI[of _ 4])
qed (simp add: queue_list_def queue_New_def)

lemma push_bit_double: "push_bit 1 (x::int) = x * 2"
  by (simp add: push_bit_eq_mult)

text \<open>\<open>resize\<close> moves the contents to the front of a buffer of twice their number.\<close>

lemma queue_resize_correct:
  assumes inv: "queue_inv q" and c: "0 < q_count q"
  shows "queue_resize q = Inr (q\<lparr>q_buf := queue_list q @ replicate (nat (q_count q)) None,
                                 q_head := 0, q_tail := q_count q\<rparr>)"
proof -
  note D = queue_invD[OF inv]
  have len: "length (queue_list q) = nat (q_count q)" by (rule length_queue_list[OF inv])
  let ?nb = "replicate (nat (q_count q * 2)) (None :: 'a option)"
  have dbl: "nat (q_count q * 2) = nat (q_count q) + nat (q_count q)"
    using D by linarith
  show ?thesis
  proof (cases "q_head q < q_tail q")
    case True
    have "go_copy ?nb (queue_list q) = queue_list q @ replicate (nat (q_count q)) None"
      using len by (simp add: go_copy_def dbl)
    then show ?thesis
      using True D queue_list_linear[OF inv True]
      by (simp add: queue_resize_def go_make_def go_slice_def push_bit_double)
  next
    case False
    let ?s1 = "drop (nat (q_head q)) (q_buf q)" and ?s2 = "take (nat (q_tail q)) (q_buf q)"
    have split: "queue_list q = ?s1 @ ?s2"
      using queue_list_wrapped[OF inv _ c] False by simp
    have le: "length ?s1 + length ?s2 = nat (q_count q)"
      using len split by (metis length_append)
    have "take (length ?s1) (go_copy ?nb ?s1) @ go_copy (drop (length ?s1) (go_copy ?nb ?s1)) ?s2
          = ?s1 @ ?s2 @ replicate (nat (q_count q)) None"
      using go_copy_two[of ?s1 ?s2 "nat (q_count q)"] le dbl by simp
    moreover have "min (length ?nb) (length ?s1) = length ?s1"
      using le dbl by simp
    moreover have "nat (q_cap q - q_head q) = length (q_buf q) - nat (q_head q)"
      using D by linarith
    ultimately show ?thesis
      using False D split
      by (simp add: queue_resize_def go_make_def go_slice_def push_bit_double Let_def)
  qed
qed

lemma queue_relocated_list:
  "0 \<le> q_count q \<Longrightarrow> length xs = nat (q_count q) \<Longrightarrow>
   queue_list (q\<lparr>q_buf := xs @ ys, q_head := 0, q_tail := t\<rparr>) = xs"
  by (simp add: queue_list_def)

lemma queue_resize_refines:
  assumes "queue_inv q" and "q_count q = 2 ^ m" and "3 \<le> m"
  shows "\<exists>q'. queue_resize q = Inr q' \<and> queue_inv q' \<and> queue_list q' = queue_list q
    \<and> q_count q' = q_count q \<and> q_cap q' = 2 * q_count q"
proof -
  let ?q' = "q\<lparr>q_buf := queue_list q @ replicate (nat (q_count q)) None,
               q_head := 0, q_tail := q_count q\<rparr>"
  have pos: "0 < q_count q" using assms(2) by simp
  have len: "length (queue_list q) = nat (q_count q)" by (rule length_queue_list[OF assms(1)])
  then have cap: "length (q_buf ?q') = 2 * nat (q_count q)" by simp
  then have "length (q_buf ?q') = 2 ^ Suc m" using assms(2) by (simp add: nat_power_eq)
  moreover have "4 \<le> Suc m" using assms(3) by simp
  ultimately have "\<exists>k\<ge>4. length (q_buf ?q') = 2 ^ k" by blast
  then have "queue_inv ?q'"
    using pos cap by (simp add: queue_inv_def)
  moreover have "queue_list ?q' = queue_list q"
    using queue_relocated_list[OF _ len] pos by simp
  ultimately show ?thesis
    using queue_resize_correct[OF assms(1) pos] cap pos by simp
qed

lemma queue_store_refines:
  assumes inv: "queue_inv q" and room: "q_count q < q_cap q"
  shows "\<exists>q'. bindp (go_store (q_buf q) (q_tail q) elem) (\<lambda>b.
       Inr (q\<lparr>q_buf := b, q_tail := (q_tail q + 1) AND (int (length b) - 1),
               q_count := q_count q + 1\<rparr>)) = Inr q' \<and>
     queue_inv q' \<and> queue_list q' = queue_list q @ [elem]"
proof -
  note D = queue_invD[OF inv]
  obtain k where k: "k \<ge> 4" "length (q_buf q) = 2 ^ k" using queue_inv_cap[OF inv] by blast
  let ?b = "(q_buf q)[nat (q_tail q) := elem]"
  let ?q' = "q\<lparr>q_buf := ?b, q_tail := (q_tail q + 1) mod q_cap q, q_count := q_count q + 1\<rparr>"
  have inv': "queue_inv ?q'"
    using D k room queue_inv_tail[OF inv] by (auto simp: queue_inv_def mod_simps algebra_simps)
  have "queue_list ?q' = queue_list q @ [elem]"
  proof (rule nth_equalityI)
    show "length (queue_list ?q') = length (queue_list q @ [elem])"
      using D length_queue_list[OF inv'] length_queue_list[OF inv] by (simp add: nat_add_distrib)
  next
    fix i assume "i < length (queue_list ?q')"
    then have i: "i < nat (q_count q + 1)" using length_queue_list[OF inv'] by simp
    have nth: "queue_list ?q' ! i = ?b ! nat ((q_head q + int i) mod q_cap q)"
      using queue_list_nth[OF inv', of i] i by simp
    have bnd: "nat ((q_head q + int i) mod q_cap q) < length (q_buf q)"
      using D by (metis nat_int nat_less_iff nat_mono_iff pos_mod_bound pos_mod_sign le_less_trans)
    show "queue_list ?q' ! i = (queue_list q @ [elem]) ! i"
    proof (cases "i < nat (q_count q)")
      case True
      have "(q_head q + int i) mod q_cap q \<noteq> (q_head q + q_count q) mod q_cap q"
      proof
        assume "(q_head q + int i) mod q_cap q = (q_head q + q_count q) mod q_cap q"
        then have "q_cap q dvd q_count q - int i"
          by (metis add_diff_cancel_left mod_eq_dvd_iff)
        then show False using True room D zdvd_not_zless[of "q_count q - int i" "q_cap q"] by auto
      qed
      then have "nat ((q_head q + int i) mod q_cap q) \<noteq> nat (q_tail q)"
        using D queue_inv_tail[OF inv] by (metis eq_nat_nat_iff pos_mod_sign le_less_trans)
      then show ?thesis
        using True nth queue_list_nth[OF inv True]
        by (simp add: nth_append length_queue_list[OF inv])
    next
      case False
      then have "int i = q_count q" using i D by linarith
      then show ?thesis
        using False nth bnd D queue_inv_tail[OF inv] by (simp add: nth_append length_queue_list[OF inv])
    qed
  qed
  moreover have "go_store (q_buf q) (q_tail q) elem = Inr ?b"
    using D by (simp add: go_store_def in_range_def)
  moreover have "(q_tail q + 1) AND (int (length ?b) - 1) = (q_tail q + 1) mod q_cap q"
    using and_cap[of ?b k] k by simp
  ultimately show ?thesis using inv' by simp
qed

lemma queue_Add_refines:
  assumes inv: "queue_inv q"
  shows "\<exists>q'. queue_Add q x = Inr q' \<and> queue_inv q' \<and> queue_list q' = queue_list q @ [x]"
proof (cases "q_count q = q_cap q")
  case True
  obtain k where "k \<ge> 4" "q_count q = 2 ^ k" using queue_inv_cap[OF inv] True by auto
  then obtain q1 where q1: "queue_resize q = Inr q1" "queue_inv q1" "queue_list q1 = queue_list q"
      "q_count q1 < q_cap q1"
    using queue_resize_refines[OF inv, of k] by fastforce
  then show ?thesis
    using True queue_store_refines[of q1 x] by (simp add: queue_Add_def)
next
  case False
  then have "q_count q < q_cap q" using queue_invD[OF inv] by linarith
  then show ?thesis
    using False queue_store_refines[OF inv] by (simp add: queue_Add_def)
qed

lemma queue_inv_step:
  assumes inv: "queue_inv q" and c: "0 < q_count q"
  shows "queue_inv (q\<lparr>q_buf := (q_buf q)[nat (q_head q) := None],
            q_head := (q_head q + 1) mod q_cap q, q_count := q_count q - 1\<rparr>)"
  using queue_invD[OF inv] queue_inv_tail[OF inv] queue_inv_cap[OF inv] c
  by (auto simp: queue_inv_def mod_simps)

lemma queue_list_hd:
  assumes "queue_inv q" and "0 < q_count q"
  shows "\<exists>xs. queue_list q = q_buf q ! nat (q_head q) # xs"
proof -
  have "queue_list q ! 0 = q_buf q ! nat (q_head q)"
    using queue_list_nth[OF assms(1), of 0] assms(2) queue_invD[OF assms(1)] by simp
  moreover have "queue_list q \<noteq> []"
    using length_queue_list[OF assms(1)] assms(2) by fastforce
  ultimately show ?thesis by (cases "queue_list q") auto
qed

lemma queue_step_list:
  assumes inv: "queue_inv q" and c: "0 < q_count q"
  shows "queue_list (q\<lparr>q_buf := (q_buf q)[nat (q_head q) := None],
            q_head := (q_head q + 1) mod q_cap q, q_count := q_count q - 1\<rparr>) = tl (queue_list q)"
    (is "queue_list ?q' = _")
proof (rule nth_equalityI)
  note D = queue_invD[OF inv] and inv' = queue_inv_step[OF assms]
  show len: "length (queue_list ?q') = length (tl (queue_list q))"
    using length_queue_list[OF inv'] length_queue_list[OF inv] D by (simp add: nat_diff_distrib)
  fix i assume "i < length (queue_list ?q')"
  then have i: "i < nat (q_count q - 1)" using length_queue_list[OF inv'] by simp
  have ne: "(q_head q + 1 + int i) mod q_cap q \<noteq> q_head q mod q_cap q"
  proof
    assume "(q_head q + 1 + int i) mod q_cap q = q_head q mod q_cap q"
    then have "q_cap q dvd 1 + int i" by (metis add.assoc add_diff_cancel_left' mod_eq_dvd_iff)
    then show False using i D zdvd_not_zless[of "1 + int i" "q_cap q"] by linarith
  qed
  have "queue_list ?q' ! i = (q_buf q)[nat (q_head q) := None] ! nat ((q_head q + 1 + int i) mod q_cap q)"
    using queue_list_nth[OF inv', of i] i by (simp add: mod_simps)
  also have "\<dots> = q_buf q ! nat ((q_head q + 1 + int i) mod q_cap q)"
    using ne D by (subst nth_list_update_neq) (auto simp: nat_eq_iff)
  also have "\<dots> = queue_list q ! Suc i"
    using queue_list_nth[OF inv, of "Suc i"] i by (simp add: algebra_simps)
  also have "\<dots> = tl (queue_list q) ! i"
    using i length_queue_list[OF inv] by (simp add: nth_tl nat_less_iff)
  finally show "queue_list ?q' ! i = tl (queue_list q) ! i" .
qed

lemma queue_cap_quarter:
  assumes "queue_inv q" and "16 < q_cap q" and "4 * c = q_cap q"
  shows "\<exists>m\<ge>3. c = 2 ^ m"
proof -
  obtain k where k: "q_cap q = 2 ^ k" using queue_inv_cap[OF assms(1)] by auto
  then have "(2::int) ^ 4 < 2 ^ k" using assms(2) by simp
  then have k4: "4 < k" by (rule power_less_imp_less_exp[rotated]) simp
  then obtain m where m: "k = m + 2" using le_iff_add[of 2 k] by (auto simp: add.commute)
  then have "c = 2 ^ m" using k assms(3) by simp
  moreover have "3 \<le> m" using m k4 by simp
  ultimately show ?thesis by blast
qed

lemma queue_Remove_refines:
  assumes inv: "queue_inv q" and ne: "queue_list q = x # xs"
  shows "\<exists>q'. queue_Remove q = Inr (x, q') \<and> queue_inv q' \<and> queue_list q' = xs"
proof -
  note D = queue_invD[OF inv]
  have c: "0 < q_count q" using length_queue_list[OF inv] ne by auto
  obtain k where k: "length (q_buf q) = 2 ^ k" using queue_inv_cap[OF inv] by blast
  let ?b = "(q_buf q)[nat (q_head q) := None]"
  let ?q1 = "q\<lparr>q_buf := ?b, q_head := (q_head q + 1) mod q_cap q, q_count := q_count q - 1\<rparr>"
  have inv1: "queue_inv ?q1" by (rule queue_inv_step[OF inv c])
  have list1: "queue_list ?q1 = xs" using queue_step_list[OF inv c] ne by simp
  have idx: "go_index (q_buf q) (q_head q) = Inr x" "go_store (q_buf q) (q_head q) None = Inr ?b"
    using D ne queue_list_hd[OF inv c] by (auto simp: go_index_def go_store_def in_range_def)
  have head: "(q_head q + 1) AND (int (length ?b) - 1) = (q_head q + 1) mod q_cap q"
    using and_cap[of ?b k] k by simp
  show ?thesis
  proof (cases "q_cap ?q1 > minQueueLen \<and> push_bit 2 (q_count ?q1) = q_cap ?q1")
    case True
    then obtain m where "m \<ge> 3" "q_count ?q1 = 2 ^ m"
      using queue_cap_quarter[OF inv1, of "q_count ?q1"]
      by (auto simp: minQueueLen_def push_bit_eq_mult)
    then obtain q2 where "queue_resize ?q1 = Inr q2" "queue_inv q2" "queue_list q2 = xs"
      using queue_resize_refines[OF inv1] list1 by auto
    then show ?thesis using True c idx head by (simp add: queue_Remove_def Let_def)
  next
    case False
    then show ?thesis using c idx head inv1 list1
      by (auto simp add: queue_Remove_def Let_def)
  qed
qed

lemma queue_list_empty_iff: "queue_inv q \<Longrightarrow> queue_list q = [] \<longleftrightarrow> q_count q \<le> 0"
  using length_queue_list[of q] by (auto simp: queue_list_def)

lemma queue_Remove_empty:
  "queue_inv q \<Longrightarrow> queue_list q = [] \<Longrightarrow>
   queue_Remove q = Inl (Panic ''queue: Remove() called on empty queue'')"
  by (simp add: queue_list_empty_iff queue_Remove_def)

section \<open>Space\<close>

text \<open>The buffer is at most four times its contents, or of the minimal length.\<close>

definition queue_compact :: "'a queue \<Rightarrow> bool" where
  "queue_compact q \<longleftrightarrow> q_cap q \<le> minQueueLen \<or> q_cap q < 4 * q_count q"

lemma go_store_length: "go_store b i x = Inr b' \<Longrightarrow> length b' = length b"
  by (auto simp: go_store_def split: if_splits)

lemma queue_resize_sizes:
  assumes "queue_inv q" "0 < q_count q" "queue_resize q = Inr q'"
  shows "q_count q' = q_count q" "q_cap q' = 2 * q_count q"
  using queue_resize_correct[OF assms(1,2)] assms length_queue_list[OF assms(1)] by auto

lemma queue_Add_compact:
  assumes "queue_inv q" "queue_compact q" "queue_Add q x = Inr q'"
  shows "queue_compact q'"
proof (cases "q_count q = q_cap q")
  case True
  have c: "0 < q_count q" using True queue_invD[OF assms(1)] by linarith
  then obtain q1 where "queue_resize q = Inr q1" "q_count q' = q_count q1 + 1" "q_cap q' = q_cap q1"
    using assms(3) True by (auto simp: queue_Add_def dest: go_store_length)
  then show ?thesis using queue_resize_sizes[OF assms(1) c] c by (auto simp: queue_compact_def)
next
  case False
  then have "q_count q' = q_count q + 1" "q_cap q' = q_cap q"
    using assms(3) by (auto simp: queue_Add_def dest: go_store_length)
  then show ?thesis using assms(2) by (auto simp: queue_compact_def)
qed

lemma queue_Remove_compact:
  assumes inv: "queue_inv q" and "queue_compact q" and "queue_Remove q = Inr (x, q')"
  shows "queue_compact q'"
proof -
  obtain b where c: "0 < q_count q" and b: "go_store (q_buf q) (q_head q) None = Inr b"
    and q': "(let q1 = q\<lparr>q_buf := b, q_head := (q_head q + 1) AND (int (length b) - 1), q_count := q_count q - 1\<rparr>
       in if int (length b) > minQueueLen \<and> push_bit 2 (q_count q1) = int (length b)
          then bindp (queue_resize q1) (\<lambda>q2. Inr (x, q2)) else Inr (x, q1)) = Inr (x, q')"
    using assms(3) by (auto simp: queue_Remove_def Let_def split: if_splits)
  define q1 where "q1 = q\<lparr>q_buf := b, q_head := (q_head q + 1) AND (int (length b) - 1), q_count := q_count q - 1\<rparr>"
  obtain k where k: "length b = 2 ^ k" "4 \<le> k" using queue_inv_cap[OF inv] go_store_length[OF b] by auto
  have "q1 = q\<lparr>q_buf := (q_buf q)[nat (q_head q) := None], q_head := (q_head q + 1) mod q_cap q, q_count := q_count q - 1\<rparr>"
    using b and_cap[OF k(1)] by (auto simp: q1_def go_store_def split: if_splits)
  then have inv1: "queue_inv q1" using queue_inv_step[OF inv c] by simp
  have four: "\<exists>j. q_cap q = 4 * j"
    using k go_store_length[OF b] le_iff_add[of 2 k] by (auto simp: power_add)
  show ?thesis
  proof (cases "int (length b) > minQueueLen \<and> push_bit 2 (q_count q1) = int (length b)")
    case True
    then have "queue_resize q1 = Inr q'" "0 < q_count q1"
      using q' unfolding q1_def[symmetric] Let_def by (auto simp: push_bit_eq_mult minQueueLen_def)
    then show ?thesis using queue_resize_sizes[OF inv1] by (auto simp: queue_compact_def)
  next
    case False
    then have "q' = q1" using q' unfolding q1_def[symmetric] Let_def by auto
    then show ?thesis
      using False assms(2) four go_store_length[OF b]
      by (auto simp: queue_compact_def q1_def push_bit_eq_mult)
  qed
qed

interpretation rq: fifo "\<lambda>x q. queue_Add q x" queue_Remove queue_list "\<lambda>q. queue_inv q \<and> queue_compact q" "\<lambda>_. True" None
proof (unfold_locales, goal_cases)
  case (1 q x)
  then show ?case using queue_Add_refines[of q x] queue_Add_compact by blast
next
  case (2 q x xs)
  then show ?case using queue_Remove_refines[of q x xs] queue_Remove_compact by blast
next
  case (3 q)
  then show ?case by (simp add: queue_Remove_empty)
qed

lemma queue_Peek_refines:
  assumes "queue_inv q" and "queue_list q = x # xs"
  shows "queue_Peek q = Inr x"
proof -
  have c: "0 < q_count q" using length_queue_list[OF assms(1)] assms(2) by auto
  with queue_list_hd[OF assms(1) c] assms queue_invD[OF assms(1)] show ?thesis
    by (simp add: queue_Peek_def go_index_def in_range_def)
qed

lemma queue_Get_nonneg:
  assumes inv: "queue_inv q" and "0 \<le> i" and "i < q_count q"
  shows "go_index (q_buf q) ((q_head q + i) AND (q_cap q - 1)) = Inr (queue_list q ! nat i)"
proof -
  obtain k where k: "length (q_buf q) = 2 ^ k" using queue_inv_cap[OF inv] by blast
  have "(q_head q + i) AND (q_cap q - 1) = (q_head q + i) mod q_cap q"
    using and_cap[OF k] by simp
  moreover have "queue_list q ! nat i = q_buf q ! nat ((q_head q + i) mod q_cap q)"
    using queue_list_nth[OF inv, of "nat i"] assms(2,3) by simp
  moreover have "0 < q_cap q" using queue_invD[OF inv] by linarith
  ultimately show ?thesis
    by (simp add: go_index_def in_range_def)
qed

lemma queue_count_length: "queue_inv q \<Longrightarrow> q_count q = int (length (queue_list q))"
  using length_queue_list[of q] queue_invD[of q] by simp

lemma queue_New_ok: "queue_inv queue_New \<and> queue_compact queue_New"
  by (simp add: queue_New_inv queue_compact_def) (simp add: queue_New_def minQueueLen_def)

section \<open>Properties\<close>

text \<open>C4: The ring buffer is a FIFO queue: from an empty queue, every sequence of \<open>Add\<close> and \<open>Remove\<close> returns what
  a list would, through every growth, shrinking and wrap-around of the buffer; the sequence panics exactly when
  it removes from an empty queue.  No element is lost, duplicated or reordered, and \<open>Length\<close> is exact.\<close>

theorem ring_queue_fifo:
  "case fifo_spec [] ops of
     Some (out, rest) \<Rightarrow> (\<exists>q. fifo_run (\<lambda>x q. queue_Add q x) queue_Remove queue_New ops = Inr (out, q)
        \<and> queue_list q = rest \<and> queue_Length q = int (length rest))
   | None \<Rightarrow> (\<exists>e. fifo_run (\<lambda>x q. queue_Add q x) queue_Remove queue_New ops = Inl e)"
proof (cases "fifo_spec ([] :: 'a option list) ops")
  case None
  then show ?thesis
    using rq.run_fails_iff_spec_fails[OF queue_New_ok, of ops] by (simp add: queue_New_inv rq.fits_def up_to_def list_all_iff)
next
  case (Some r)
  obtain out rest where r: "r = (out, rest)" by force
  show ?thesis
    using rq.run_refines[OF queue_New_ok, of ops out rest] Some r queue_count_length
    by (fastforce simp: queue_New_inv rq.fits_def up_to_def list_all_iff queue_Length_def)
qed

text \<open>The buffer never holds on to more than a constant factor of memory: after any sequence of operations that
  succeeds its capacity is 16 or less than four times the number of elements, and a power of two.\<close>

theorem ring_queue_space:
  assumes "fifo_run (\<lambda>x q. queue_Add q x) queue_Remove queue_New ops = Inr (out, q)"
  shows "(q_cap q = minQueueLen \<or> q_cap q < 4 * queue_Length q) \<and> (\<exists>k. q_cap q = 2 ^ k)"
proof -
  obtain out' rest where "fifo_spec [] ops = Some (out', rest)"
    using rq.run_fails_iff_spec_fails[OF queue_New_ok, of ops] assms
    by (cases "fifo_spec ([] :: 'a option list) ops") (auto simp: queue_New_inv rq.fits_def up_to_def list_all_iff)
  then have inv: "queue_inv q" "queue_compact q"
    using rq.run_refines[OF queue_New_ok, of ops out' rest] assms by (auto simp: queue_New_inv rq.fits_def up_to_def list_all_iff)
  obtain k where k: "k \<ge> 4" "length (q_buf q) = 2 ^ k" using queue_inv_cap[OF inv(1)] by blast
  then have "(2::int) ^ 4 \<le> 2 ^ k" by (intro power_increasing) simp_all
  then have "minQueueLen \<le> q_cap q" using k by (simp add: minQueueLen_def)
  then show ?thesis using inv(2) k by (auto simp: queue_compact_def queue_Length_def)
qed

theorem ring_queue_space_witness:
  "\<exists>q. fifo_run (\<lambda>x q. queue_Add q x) queue_Remove queue_New [Put_op (Some 1), Put_op (Some 2), Get_op] = Inr ([Some (1::nat)], q)
     \<and> (q_cap q = minQueueLen \<or> q_cap q < 4 * queue_Length q) \<and> (\<exists>k. q_cap q = 2 ^ k)"
proof -
  have "\<exists>q. fifo_run (\<lambda>x q. queue_Add q x) queue_Remove queue_New [Put_op (Some 1), Put_op (Some 2), Get_op] = Inr ([Some (1::nat)], q)"
    using rq.run_refines[OF queue_New_ok, of "[Put_op (Some 1), Put_op (Some 2), Get_op]" "[Some (1::nat)]" "[Some 2]"]
    by (auto simp: queue_New_inv rq.fits_def up_to_def)
  then show ?thesis using ring_queue_space by blast
qed

text \<open>\<open>Get\<close> and \<open>Peek\<close> on every branch: an index from 0 counts from the front and a negative one from the back, any
  other index panics; \<open>Peek\<close> returns the front element and panics exactly on the empty queue.\<close>

theorem ring_queue_Get:
  assumes "queue_inv q"
  shows "queue_Get q i =
       (let n = int (length (queue_list q)) in
        if 0 \<le> i \<and> i < n then Inr (queue_list q ! nat i)
        else if i < 0 \<and> - n \<le> i then Inr (queue_list q ! nat (n + i))
        else Inl (Panic ''queue: Get() called with index out of range''))
     \<and> queue_Peek q = (case queue_list q of [] \<Rightarrow> Inl (Panic ''queue: Peek() called no empty queue'') | x # xs \<Rightarrow> Inr x)"
proof -
  have "queue_Peek q = (case queue_list q of [] \<Rightarrow> Inl (Panic ''queue: Peek() called no empty queue'') | x # xs \<Rightarrow> Inr x)"
    using queue_Peek_refines[OF assms] queue_list_empty_iff[OF assms] by (cases "queue_list q") (auto simp: queue_Peek_def)
  then show ?thesis
    using queue_Get_nonneg[OF assms, of i] queue_Get_nonneg[OF assms, of "i + q_count q"] queue_count_length[OF assms]
    by (auto simp: queue_Get_def Let_def add.commute[of "int (length (queue_list q))" i])
qed

theorem ring_queue_Get_witness:
  "queue_Get (queue_New :: nat queue) (- 1) = Inl (Panic ''queue: Get() called with index out of range'')
   \<and> queue_inv (queue_New :: nat queue)"
  using ring_queue_Get[of "queue_New :: nat queue" "- 1"] by (simp add: Let_def queue_New_inv)

end
