(* ===== verification/My_Queue.thy ===== *)
theory My_Queue
  imports Ring_Queue
begin

text \<open>
  The guarded queue of \<^verbatim>\<open>workpool/myqueue/myqueue.go\<close>: the ring buffer of \<open>Ring_Queue\<close> behind a mutex and a
  condition variable.  Every critical section is a function on the queue; the goroutines that call
  it, wait on the condition variable, are woken by \<open>Signal\<close> and \<open>Broadcast\<close>, or block on the channel \<open>cc\<close>
  while they hold the mutex, are a step relation.  Elements are \<open>interface{}\<close> values, with \<open>None\<close> for
  \<open>nil\<close>.
\<close>

section \<open>Critical sections\<close>

record 'a MyQueue =
  m_buffer :: "'a queue"
  m_closed :: bool
  m_count :: int

definition MyQueue_New :: "'a MyQueue" where
  "MyQueue_New = \<lparr>m_buffer = queue_New, m_closed = False, m_count = 0\<rparr>"

definition MyQueue_Len :: "'a MyQueue \<Rightarrow> int" where
  "MyQueue_Len m = m_count m"

text \<open>\<open>atomic.AddInt32\<close> wraps.\<close>

definition MyQueue_Push :: "'a option \<Rightarrow> 'a MyQueue \<Rightarrow> 'a MyQueue may_panic" where
  "MyQueue_Push v m =
     (if \<not> m_closed m
      then bindp (queue_Add (m_buffer m) v) (\<lambda>b. Inr (m\<lparr>m_buffer := b, m_count := to_int32 (m_count m + 1)\<rparr>))
      else Inr m)"

definition take_front :: "'a MyQueue \<Rightarrow> ('a option \<times> 'a MyQueue) may_panic" where
  "take_front m =
     bindp (queue_Peek (m_buffer m)) (\<lambda>v.
     bindp (queue_Remove (m_buffer m)) (\<lambda>(_, b).
       Inr (v, m\<lparr>m_buffer := b, m_count := to_int32 (m_count m - 1)\<rparr>)))"

text \<open>One round of \<open>Pop\<close> with the mutex held: \<open>None\<close> when the goroutine goes to wait.\<close>

definition Pop_attempt :: "'a MyQueue \<Rightarrow> ('a option option \<times> 'a MyQueue) may_panic" where
  "Pop_attempt m =
     (if MyQueue_Len m = 0 \<and> \<not> m_closed m then Inr (None, m)
      else if m_closed m then Inr (Some None, m)
      else if MyQueue_Len m > 0 then bindp (take_front m) (\<lambda>(v, m'). Inr (Some v, m'))
      else Inr (Some None, m))"

text \<open>The same for \<open>popChan\<close>, which sends the value to a channel.\<close>

definition popChan_attempt :: "'a MyQueue \<Rightarrow> ('a option option \<times> 'a MyQueue) may_panic" where
  "popChan_attempt m =
     (if MyQueue_Len m = 0 \<and> \<not> m_closed m then Inr (None, m)
      else if m_closed m then Inr (Some None, m)
      else if MyQueue_Len m > 0 then bindp (take_front m) (\<lambda>(tmp, m'). Inr (Some tmp, m'))
      else Inr (Some None, m))"

definition TryPop :: "'a MyQueue \<Rightarrow> ('a option \<times> bool \<times> 'a MyQueue) may_panic" where
  "TryPop m =
     (if MyQueue_Len m > 0 then bindp (take_front m) (\<lambda>(v, m'). Inr (v, True, m'))
      else Inr (None, m_closed m, m))"

definition MyQueue_Close :: "'a MyQueue \<Rightarrow> 'a MyQueue" where
  "MyQueue_Close m = (if \<not> m_closed m then m\<lparr>m_closed := True, m_count := 0\<rparr> else m)"

definition IsClose :: "'a MyQueue \<Rightarrow> bool" where
  "IsClose m = m_closed m"

text \<open>\<open>Wait\<close> spins until this test succeeds.\<close>

definition MyQueue_Wait_done :: "'a MyQueue \<Rightarrow> bool" where
  "MyQueue_Wait_done m \<longleftrightarrow> m_closed m \<or> MyQueue_Len m = 0"

section \<open>Goroutines\<close>

datatype call = PopCall | ChanCall

record ('a, 't) mq_sys =
  y_q :: "'a MyQueue"
  y_cc :: "'a option list"
  y_ready :: "('t \<times> call) list"
  y_waiting :: "('t \<times> call) list"
  y_selecting :: "'t list"
  y_blocked :: "'a option option"

text \<open>
  \<open>y_ready\<close> are the goroutines about to take the mutex in the loop of \<open>Pop\<close> or \<open>popChan\<close>, \<open>y_waiting\<close>
  those in \<open>c.Wait()\<close>, \<open>y_selecting\<close> the callers of \<open>TryPopTimeout\<close> in their \<open>select\<close>.  \<open>y_blocked\<close> is the
  value a \<open>popChan\<close> is sending while it holds the mutex and the channel \<open>cc\<close>, of capacity one, is full.
\<close>

definition mq_init :: "('a, 't) mq_sys" where
  "mq_init = \<lparr>y_q = MyQueue_New, y_cc = [], y_ready = [], y_waiting = [], y_selecting = [], y_blocked = None\<rparr>"

datatype 'a mq_event = EPush "'a option" | ETake "'a option" | ESilent

inductive signal :: "('a, 't) mq_sys \<Rightarrow> ('a, 't) mq_sys \<Rightarrow> bool" where
  signal_none: "y_waiting s = [] \<Longrightarrow> signal s s"
| signal_one: "y_waiting s = ws1 @ w # ws2 \<Longrightarrow>
    signal s (s\<lparr>y_waiting := ws1 @ ws2, y_ready := y_ready s @ [w]\<rparr>)"

definition take_event :: "'a MyQueue \<Rightarrow> 'a option \<Rightarrow> 'a mq_event" where
  "take_event m v = (if m_closed m \<or> MyQueue_Len m \<le> 0 then ESilent else ETake v)"

inductive mq_step :: "('a, 't) mq_sys \<Rightarrow> 'a mq_event \<Rightarrow> ('a, 't) mq_sys \<Rightarrow> bool" where
  push: "y_blocked s = None \<Longrightarrow> \<not> m_closed (y_q s) \<Longrightarrow> MyQueue_Push v (y_q s) = Inr q \<Longrightarrow>
    signal (s\<lparr>y_q := q\<rparr>) s' \<Longrightarrow> mq_step s (EPush v) s'"
| push_closed: "y_blocked s = None \<Longrightarrow> m_closed (y_q s) \<Longrightarrow> MyQueue_Push v (y_q s) = Inr q \<Longrightarrow>
    mq_step s ESilent (s\<lparr>y_q := q\<rparr>)"
| pop_call: "mq_step s ESilent (s\<lparr>y_ready := y_ready s @ [(t, PopCall)]\<rparr>)"
| timeout_call: "mq_step s ESilent
    (s\<lparr>y_ready := y_ready s @ [(t, ChanCall)], y_selecting := y_selecting s @ [t]\<rparr>)"
| wait: "y_blocked s = None \<Longrightarrow> y_ready s = r1 @ (t, k) # r2 \<Longrightarrow>
    (if k = PopCall then Pop_attempt (y_q s) else popChan_attempt (y_q s)) = Inr (None, q) \<Longrightarrow>
    mq_step s ESilent (s\<lparr>y_q := q, y_ready := r1 @ r2, y_waiting := y_waiting s @ [(t, k)]\<rparr>)"
| pop: "y_blocked s = None \<Longrightarrow> y_ready s = r1 @ (t, PopCall) # r2 \<Longrightarrow>
    Pop_attempt (y_q s) = Inr (Some v, q) \<Longrightarrow>
    mq_step s (take_event (y_q s) v) (s\<lparr>y_q := q, y_ready := r1 @ r2\<rparr>)"
| chan_send: "y_blocked s = None \<Longrightarrow> y_ready s = r1 @ (t, ChanCall) # r2 \<Longrightarrow>
    popChan_attempt (y_q s) = Inr (Some v, q) \<Longrightarrow> length (y_cc s) < 1 \<Longrightarrow>
    mq_step s (take_event (y_q s) v) (s\<lparr>y_q := q, y_ready := r1 @ r2, y_cc := y_cc s @ [v]\<rparr>)"
| chan_block: "y_blocked s = None \<Longrightarrow> y_ready s = r1 @ (t, ChanCall) # r2 \<Longrightarrow>
    popChan_attempt (y_q s) = Inr (Some v, q) \<Longrightarrow> \<not> length (y_cc s) < 1 \<Longrightarrow>
    mq_step s (take_event (y_q s) v) (s\<lparr>y_q := q, y_ready := r1 @ r2, y_blocked := Some v\<rparr>)"
| receive: "y_selecting s = a @ t # b \<Longrightarrow> y_cc s = v # vs \<Longrightarrow>
    mq_step s ESilent (s\<lparr>y_selecting := a @ b,
      y_cc := (case y_blocked s of None \<Rightarrow> vs | Some w \<Rightarrow> vs @ [w]), y_blocked := None\<rparr>)"
| timeout: "y_selecting s = a @ t # b \<Longrightarrow> \<not> m_closed (y_q s) \<Longrightarrow> signal (s\<lparr>y_selecting := a @ b\<rparr>) s' \<Longrightarrow>
    mq_step s ESilent s'"
| timeout_closed: "y_selecting s = a @ t # b \<Longrightarrow> m_closed (y_q s) \<Longrightarrow>
    mq_step s ESilent (s\<lparr>y_selecting := a @ b\<rparr>)"
| try_pop: "y_blocked s = None \<Longrightarrow> TryPop (y_q s) = Inr (v, ok, q) \<Longrightarrow>
    mq_step s (if MyQueue_Len (y_q s) > 0 then ETake v else ESilent) (s\<lparr>y_q := q\<rparr>)"
| close: "y_blocked s = None \<Longrightarrow>
    mq_step s ESilent (if m_closed (y_q s) then s
      else s\<lparr>y_q := MyQueue_Close (y_q s), y_ready := y_ready s @ y_waiting s, y_waiting := []\<rparr>)"

fun pushed_of :: "'a mq_event \<Rightarrow> 'a option list" where
  "pushed_of (EPush v) = [v]"
| "pushed_of _ = []"

fun taken_of :: "'a mq_event \<Rightarrow> 'a option list" where
  "taken_of (ETake v) = [v]"
| "taken_of _ = []"

inductive mq_run :: "'a option list \<Rightarrow> 'a option list \<Rightarrow> ('a, 't) mq_sys \<Rightarrow> bool" where
  run_init: "mq_run [] [] mq_init"
| run_step: "mq_run ps ts s \<Longrightarrow> mq_step s ev s' \<Longrightarrow> mq_run (ps @ pushed_of ev) (ts @ taken_of ev) s'"

section \<open>What a critical section does\<close>

definition myqueue_inv :: "'a MyQueue \<Rightarrow> bool" where
  "myqueue_inv m \<longleftrightarrow> queue_inv (m_buffer m)
     \<and> (if m_closed m then m_count m = 0
        else m_count m = int (length (queue_list (m_buffer m))) \<and> m_count m < 2 ^ 31)"

lemma MyQueue_New_inv: "myqueue_inv MyQueue_New"
  by (simp add: myqueue_inv_def MyQueue_New_def queue_New_inv)

lemma Push_open:
  assumes "myqueue_inv m" "\<not> m_closed m" "m_count m < 2 ^ 31 - 1"
  shows "\<exists>m'. MyQueue_Push v m = Inr m' \<and> myqueue_inv m' \<and> \<not> m_closed m' \<and> m_count m' = m_count m + 1
    \<and> queue_list (m_buffer m') = queue_list (m_buffer m) @ [v]"
proof -
  obtain b where "queue_Add (m_buffer m) v = Inr b" "queue_inv b" "queue_list b = queue_list (m_buffer m) @ [v]"
    using queue_Add_refines[of "m_buffer m" v] assms(1) by (auto simp: myqueue_inv_def)
  moreover have "to_int32 (m_count m + 1) = m_count m + 1"
    using assms by (intro to_int32_id) (auto simp: myqueue_inv_def)
  ultimately show ?thesis using assms by (auto simp: MyQueue_Push_def myqueue_inv_def)
qed

lemma take_front_ok:
  assumes "myqueue_inv m" "0 < m_count m"
  shows "\<exists>v vs m'. take_front m = Inr (v, m') \<and> queue_list (m_buffer m) = v # vs \<and> queue_list (m_buffer m') = vs
    \<and> myqueue_inv m' \<and> \<not> m_closed m' \<and> \<not> m_closed m \<and> m_count m' = m_count m - 1"
proof -
  have o: "\<not> m_closed m" using assms by (auto simp: myqueue_inv_def)
  then obtain v vs where vs: "queue_list (m_buffer m) = v # vs"
    using assms by (cases "queue_list (m_buffer m)") (auto simp: myqueue_inv_def)
  then obtain b where "queue_Remove (m_buffer m) = Inr (v, b)" "queue_inv b" "queue_list b = vs"
    using queue_Remove_refines[of "m_buffer m" v vs] assms(1) by (auto simp: myqueue_inv_def)
  moreover have "queue_Peek (m_buffer m) = Inr v"
    using queue_Peek_refines[OF _ vs] assms(1) by (simp add: myqueue_inv_def)
  moreover have "to_int32 (m_count m - 1) = m_count m - 1"
    using assms o by (intro to_int32_id) (auto simp: myqueue_inv_def)
  ultimately show ?thesis using assms o vs by (auto simp: take_front_def myqueue_inv_def)
qed

lemma popChan_is_Pop: "popChan_attempt m = Pop_attempt m"
  by (simp add: popChan_attempt_def Pop_attempt_def)

lemma Pop_attempt_cases:
  assumes "myqueue_inv m"
  obtains (wait) "Pop_attempt m = Inr (None, m)" "\<not> m_closed m" "m_count m = 0"
  | (closed) "Pop_attempt m = Inr (Some None, m)" "m_closed m"
  | (taken) v vs m' where "Pop_attempt m = Inr (Some v, m')" "\<not> m_closed m" "0 < m_count m"
      "queue_list (m_buffer m) = v # vs" "queue_list (m_buffer m') = vs" "myqueue_inv m'" "\<not> m_closed m'"
      "m_count m' = m_count m - 1"
proof -
  have "m_count m \<ge> 0" using assms by (auto simp: myqueue_inv_def split: if_splits)
  then consider "m_closed m" | "\<not> m_closed m" "m_count m = 0" | "\<not> m_closed m" "0 < m_count m" by linarith
  then show thesis
  proof cases
    case 3
    then show ?thesis using take_front_ok[OF assms] taken by (fastforce simp: Pop_attempt_def MyQueue_Len_def)
  qed (use wait closed in \<open>auto simp: Pop_attempt_def MyQueue_Len_def\<close>)
qed

section \<open>The invariant of the goroutines\<close>

text \<open>Nobody waits on a closed queue; while somebody waits on an open one, every element has a goroutine
  on its way to the mutex.\<close>

definition awake :: "('a, 't) mq_sys \<Rightarrow> bool" where
  "awake s \<longleftrightarrow> (if m_closed (y_q s) then y_waiting s = []
     else y_waiting s \<noteq> [] \<longrightarrow> m_count (y_q s) \<le> int (length (y_ready s)))"

definition channel_ok :: "('a, 't) mq_sys \<Rightarrow> bool" where
  "channel_ok s \<longleftrightarrow> length (y_cc s) \<le> 1 \<and> (y_blocked s \<noteq> None \<longrightarrow> length (y_cc s) = 1)"

definition delivered :: "'a option list \<Rightarrow> 'a option list \<Rightarrow> ('a, 't) mq_sys \<Rightarrow> bool" where
  "delivered ps ts s \<longleftrightarrow> (\<exists>rest. ps = ts @ rest \<and> (\<not> m_closed (y_q s) \<longrightarrow> rest = queue_list (m_buffer (y_q s))))"

definition sys_inv :: "'a option list \<Rightarrow> 'a option list \<Rightarrow> ('a, 't) mq_sys \<Rightarrow> bool" where
  "sys_inv ps ts s \<longleftrightarrow> myqueue_inv (y_q s) \<and> awake s \<and> channel_ok s \<and> delivered ps ts s"

lemmas sys_inv_defs = sys_inv_def awake_def channel_ok_def delivered_def

lemma signal_inv:
  assumes "signal s s'" "awake s \<or> m_count (y_q s) \<le> int (length (y_ready s)) + 1" "\<not> m_closed (y_q s)"
  shows "y_q s' = y_q s" "awake s'" "channel_ok s' = channel_ok s" "delivered ps ts s' = delivered ps ts s"
  using assms by (auto simp: awake_def channel_ok_def delivered_def elim!: signal.cases)

lemma signal_frame:
  assumes "signal s s'"
  shows "y_blocked s' = y_blocked s" "y_q s' = y_q s" "y_cc s' = y_cc s" "y_selecting s' = y_selecting s"
  using assms by (auto elim: signal.cases)

lemma pop_inv:
  assumes inv: "sys_inv ps ts s" and r: "y_ready s = r1 @ (t, k) # r2" and pa: "Pop_attempt (y_q s) = Inr (Some v, q)"
    and s': "y_q s' = q" "y_ready s' = r1 @ r2" "y_waiting s' = y_waiting s" and ch: "channel_ok s'"
  shows "sys_inv (ps @ pushed_of (take_event (y_q s) v)) (ts @ taken_of (take_event (y_q s) v)) s'"
proof -
  have m: "myqueue_inv (y_q s)" using inv by (simp add: sys_inv_def)
  then show ?thesis
  proof (cases rule: Pop_attempt_cases)
    case closed
    with inv s' ch pa show ?thesis by (auto simp: sys_inv_defs take_event_def)
  next
    case (taken w vs m')
    with pa have "w = v" "m' = q" by auto
    then have "take_event (y_q s) v = ETake v" using taken by (simp add: take_event_def MyQueue_Len_def)
    with taken inv s' ch pa r \<open>w = v\<close> \<open>m' = q\<close> show ?thesis by (auto simp: sys_inv_defs)
  qed (use pa in auto)
qed

lemma push_inv:
  assumes inv: "sys_inv ps ts s" and o: "\<not> m_closed (y_q s)" and p: "MyQueue_Push v (y_q s) = Inr q"
    and sg: "signal (s\<lparr>y_q := q\<rparr>) s'" and len: "length ps < 2 ^ 31 - 1"
  shows "sys_inv (ps @ [v]) ts s'"
proof -
  have m: "myqueue_inv (y_q s)" and d: "ps = ts @ queue_list (m_buffer (y_q s))"
    using inv o by (auto simp: sys_inv_defs)
  then have "m_count (y_q s) < 2 ^ 31 - 1" using o len by (auto simp: myqueue_inv_def)
  then obtain q' where q': "MyQueue_Push v (y_q s) = Inr q'" "myqueue_inv q'" "\<not> m_closed q'"
      "m_count q' = m_count (y_q s) + 1" "queue_list (m_buffer q') = queue_list (m_buffer (y_q s)) @ [v]"
    using Push_open[OF m o, of v] by blast
  then have q: "q' = q" using p by simp
  let ?s1 = "s\<lparr>y_q := q\<rparr>"
  have "awake ?s1 \<or> m_count (y_q ?s1) \<le> int (length (y_ready ?s1)) + 1"
    using inv o q' q by (cases "y_waiting s = []") (auto simp: sys_inv_defs)
  moreover have "channel_ok ?s1" "delivered (ps @ [v]) ts ?s1"
    using inv d q' q by (auto simp: sys_inv_defs)
  moreover have "\<not> m_closed (y_q ?s1)" using q' q by simp
  ultimately show ?thesis
    using signal_inv[OF sg] q' q by (simp add: sys_inv_def)
qed

lemma silent_inv:
  assumes "sys_inv ps ts s" "y_q s' = y_q s" "channel_ok s'" "awake s'"
  shows "sys_inv ps ts s'"
  using assms by (auto simp: sys_inv_def delivered_def)

lemma step_sys_inv:
  assumes inv: "sys_inv ps ts s" and st: "mq_step s ev s'" and len: "length (ps @ pushed_of ev) < 2 ^ 31"
  shows "sys_inv (ps @ pushed_of ev) (ts @ taken_of ev) s'"
  using st
proof (cases rule: mq_step.cases)
  case (push v q)
  then show ?thesis using push_inv[OF inv push(3,4,5)] len by simp
next
  case (push_closed v q)
  then show ?thesis using inv by (auto simp: sys_inv_defs MyQueue_Push_def)
next
  case (pop_call t)
  then show ?thesis using inv by (auto simp: sys_inv_defs)
next
  case (timeout_call t)
  then show ?thesis using inv by (auto simp: sys_inv_defs)
next
  case (wait r1 t k r2 q)
  then have "Pop_attempt (y_q s) = Inr (None, q)" by (simp add: popChan_is_Pop split: if_splits)
  moreover have "myqueue_inv (y_q s)" using inv by (simp add: sys_inv_def)
  ultimately have "q = y_q s" "\<not> m_closed (y_q s)" "m_count (y_q s) = 0"
    by (auto elim: Pop_attempt_cases)
  then show ?thesis using inv wait by (auto simp: sys_inv_defs)
next
  case (pop r1 t r2 v q)
  show ?thesis unfolding pop(1)
    by (rule pop_inv[OF inv pop(4,5)]) (use inv pop in \<open>auto simp: sys_inv_defs\<close>)
next
  case (chan_send r1 t r2 v q)
  show ?thesis unfolding chan_send(1)
    by (rule pop_inv[OF inv chan_send(4)])
      (use inv chan_send in \<open>auto simp: sys_inv_defs popChan_is_Pop[symmetric]\<close>)
next
  case (chan_block r1 t r2 v q)
  show ?thesis unfolding chan_block(1)
    by (rule pop_inv[OF inv chan_block(4)])
      (use inv chan_block in \<open>auto simp: sys_inv_def channel_ok_def le_Suc_eq popChan_is_Pop[symmetric]\<close>)
next
  case (receive a t b v vs)
  then show ?thesis using inv by (auto simp: sys_inv_defs split: option.splits)
next
  case (timeout a t b)
  have aw: "awake (s\<lparr>y_selecting := a @ b\<rparr>)" "channel_ok (s\<lparr>y_selecting := a @ b\<rparr>)"
    "delivered ps ts (s\<lparr>y_selecting := a @ b\<rparr>)"
    using inv by (simp_all add: sys_inv_defs)
  then show ?thesis
    using signal_inv[OF timeout(4)] timeout inv by (simp add: sys_inv_def)
next
  case (timeout_closed a t b)
  then show ?thesis using inv by (auto simp: sys_inv_defs)
next
  case (try_pop v ok q)
  show ?thesis
  proof (cases "MyQueue_Len (y_q s) > 0")
    case True
    then obtain w ws m' where "take_front (y_q s) = Inr (w, m')" "queue_list (m_buffer (y_q s)) = w # ws"
        "queue_list (m_buffer m') = ws" "myqueue_inv m'" "\<not> m_closed m'" "\<not> m_closed (y_q s)" "m_count m' = m_count (y_q s) - 1"
      using take_front_ok[of "y_q s"] inv by (auto simp: sys_inv_def MyQueue_Len_def)
    then show ?thesis using try_pop inv True by (auto simp: TryPop_def sys_inv_defs)
  next
    case False
    then show ?thesis using try_pop inv by (auto simp: TryPop_def sys_inv_defs)
  qed
next
  case close
  then show ?thesis using inv by (auto simp: sys_inv_defs myqueue_inv_def MyQueue_Close_def)
qed

lemma run_inv: "mq_run ps ts s \<Longrightarrow> length ps < 2 ^ 31 \<Longrightarrow> sys_inv ps ts s"
proof (induction rule: mq_run.induct)
  case run_init
  show ?case
    using MyQueue_New_inv by (auto simp: sys_inv_defs mq_init_def) (simp add: MyQueue_New_def queue_New_inv)
next
  case (run_step ps ts s ev s')
  then show ?case by (intro step_sys_inv) auto
qed

section \<open>The sequential contract\<close>

text \<open>A caller of \<open>TryPop\<close> that takes \<open>ok == false\<close> for an empty queue.\<close>

definition TryPop_value :: "'a MyQueue \<Rightarrow> panic + ('a option \<times> 'a MyQueue)" where
  "TryPop_value m = bindp (TryPop m) (\<lambda>(v, ok, m'). if ok then Inr (v, m') else Inl (Panic ''empty''))"

interpretation mq: fifo MyQueue_Push TryPop_value "\<lambda>m. queue_list (m_buffer m)"
  "\<lambda>m. myqueue_inv m \<and> \<not> m_closed m" "\<lambda>_. True" "Some (2 ^ 31 - 1)"
proof (unfold_locales, goal_cases)
  case (1 m x)
  then have "m_count m < 2 ^ 31 - 1" by (auto simp: myqueue_inv_def up_to_def)
  then show ?case using Push_open[of m x] 1 by auto
next
  case (2 m x xs)
  then have "0 < m_count m" by (auto simp: myqueue_inv_def)
  then show ?case using take_front_ok[of m] 2 by (auto simp: TryPop_value_def TryPop_def MyQueue_Len_def)
next
  case (3 m)
  then show ?case by (simp add: TryPop_value_def TryPop_def MyQueue_Len_def myqueue_inv_def)
qed

section \<open>Properties\<close>

text \<open>C5: Under every interleaving of \<open>Push\<close>, \<open>Pop\<close>, \<open>TryPop\<close>, \<open>TryPopTimeout\<close> and \<open>Close\<close>, as long as fewer than
  $2^{31}$ values were pushed: the values taken out of the buffer are a prefix of the values pushed, in
  the same order and each once; while the queue is open the buffer holds exactly the others and \<open>Len\<close> is their
  number.\<close>

theorem concurrent_fifo:
  assumes "mq_run ps ts s" "length ps < 2 ^ 31"
  shows "\<exists>rest. ps = ts @ rest \<and>
    (m_closed (y_q s) \<or> rest = queue_list (m_buffer (y_q s)) \<and> MyQueue_Len (y_q s) = int (length rest))"
  using run_inv[OF assms] by (auto simp: sys_inv_defs myqueue_inv_def MyQueue_Len_def)

text \<open>C9: No wakeup is lost: no goroutine waits on a closed queue, and while one waits on an open queue that holds
  elements, there are as many goroutines on their way to the mutex as elements; when the mutex is free any of them
  can take it, and it takes the front element.\<close>

theorem no_lost_wakeup:
  assumes "mq_run ps ts s" "length ps < 2 ^ 31"
  shows "(m_closed (y_q s) \<longrightarrow> y_waiting s = []) \<and>
    (y_waiting s \<noteq> [] \<longrightarrow> MyQueue_Len (y_q s) \<le> int (length (y_ready s))) \<and>
    (0 < MyQueue_Len (y_q s) \<longrightarrow> (\<exists>v vs q. Pop_attempt (y_q s) = Inr (Some v, q)
       \<and> queue_list (m_buffer (y_q s)) = v # vs \<and> queue_list (m_buffer q) = vs))"
proof -
  have inv: "sys_inv ps ts s" by (rule run_inv[OF assms])
  then have m: "myqueue_inv (y_q s)" by (simp add: sys_inv_def)
  have "\<exists>v vs q. Pop_attempt (y_q s) = Inr (Some v, q) \<and> queue_list (m_buffer (y_q s)) = v # vs
      \<and> queue_list (m_buffer q) = vs" if "0 < m_count (y_q s)"
    using m by (cases rule: Pop_attempt_cases) (use m that in \<open>auto simp: myqueue_inv_def\<close>)
  then show ?thesis using inv by (auto simp: sys_inv_def awake_def MyQueue_Len_def split: if_splits)
qed

text \<open>After \<open>Close\<close> the queue behaves as documented: \<open>Pop\<close> returns \<open>nil\<close> without blocking, \<open>TryPop\<close> returns \<open>nil\<close> and
  \<open>true\<close>, \<open>Push\<close> is ignored, \<open>Len\<close> is 0 and \<open>Wait\<close> returns.\<close>

theorem closed_queue:
  assumes "myqueue_inv m"
  shows "let c = MyQueue_Close m in Pop_attempt c = Inr (Some None, c) \<and> popChan_attempt c = Inr (Some None, c)
    \<and> TryPop c = Inr (None, True, c) \<and> MyQueue_Push v c = Inr c \<and> MyQueue_Len c = 0 \<and> MyQueue_Wait_done c
    \<and> IsClose c \<and> myqueue_inv c"
  using assms
  by (auto simp: Let_def MyQueue_Close_def Pop_attempt_def popChan_attempt_def TryPop_def MyQueue_Push_def MyQueue_Len_def
      MyQueue_Wait_done_def IsClose_def myqueue_inv_def split: if_splits)

theorem closed_queue_witness:
  "TryPop (MyQueue_Close (MyQueue_New :: nat MyQueue)) = Inr (None, True, MyQueue_Close MyQueue_New)"
  using closed_queue[OF MyQueue_New_inv[where ?'a = nat]] by (simp add: Let_def)

section \<open>A run that locks the queue\<close>

text \<open>Two calls of \<open>TryPopTimeout\<close> time out before anything is pushed; their goroutines then take the next two
  values.  The second send to \<open>cc\<close> blocks with the mutex held.\<close>

lemma locked_run:
  "\<exists>s :: (nat, nat) mq_sys. mq_run [Some 11, Some 12] [Some 11, Some 12] s \<and> y_blocked s = Some (Some 12) \<and> y_selecting s = []
"
proof -
  let ?run = "mq_run :: nat option list \<Rightarrow> nat option list \<Rightarrow> (nat, nat) mq_sys \<Rightarrow> bool"
  let ?s4 = "(mq_init :: (nat, nat) mq_sys)\<lparr>y_ready := [(3, ChanCall), (4, ChanCall)]\<rparr>"
  have "?run [] [] (mq_init\<lparr>y_ready := [(3, ChanCall)], y_selecting := [3]\<rparr>)"
    using run_step[OF run_init timeout_call[of "mq_init :: (nat, nat) mq_sys" 3]] by (simp add: mq_init_def)
  from run_step[OF this timeout_call[of _ 4]]
  have s2: "?run [] [] (mq_init\<lparr>y_ready := [(3, ChanCall), (4, ChanCall)], y_selecting := [3, 4]\<rparr>)" by simp
  have s3: "?run [] [] (mq_init\<lparr>y_ready := [(3, ChanCall), (4, ChanCall)], y_selecting := [4]\<rparr>)"
    using run_step[OF s2 timeout[where a = "[]" and t = 3 and b = "[4]", OF _ _ signal_none]]
    by (simp add: mq_init_def MyQueue_New_def)
  have s4: "?run [] [] ?s4"
    using run_step[OF s3 timeout[where a = "[]" and t = 4 and b = "[]", OF _ _ signal_none]]
    by (simp add: mq_init_def MyQueue_New_def)
  obtain q1 where q1: "MyQueue_Push (Some 11) MyQueue_New = Inr q1" "myqueue_inv q1" "\<not> m_closed q1" "m_count q1 = 1"
      "queue_list (m_buffer q1) = [Some (11::nat)]"
    using Push_open[OF MyQueue_New_inv, of "Some 11"] by (auto simp: MyQueue_New_def queue_New_inv)
  obtain q2 where q2: "MyQueue_Push (Some 12) q1 = Inr q2" "myqueue_inv q2" "\<not> m_closed q2" "m_count q2 = 2"
      "queue_list (m_buffer q2) = [Some 11, Some 12]"
    using Push_open[OF q1(2,3), of "Some 12"] q1 by auto
  obtain q3 where q3: "Pop_attempt q2 = Inr (Some (Some 11), q3)" "myqueue_inv q3" "\<not> m_closed q3" "m_count q3 = 1"
      "queue_list (m_buffer q3) = [Some 12]"
    using q2 by (auto elim: Pop_attempt_cases)
  obtain q4 where q4: "Pop_attempt q3 = Inr (Some (Some 12), q4)"
    using q3 by (auto elim: Pop_attempt_cases)
  have s5: "?run [Some 11] [] (?s4\<lparr>y_q := q1\<rparr>)"
    using run_step[OF s4 push[OF _ _ _ signal_none], of "Some 11" q1] q1 by (simp add: mq_init_def MyQueue_New_def)
  have s6: "?run [Some 11, Some 12] [] (?s4\<lparr>y_q := q2\<rparr>)"
    using run_step[OF s5 push[OF _ _ _ signal_none], of "Some 12" q2] q1 q2 by (simp add: mq_init_def)
  have s7: "?run [Some 11, Some 12] [Some 11] (?s4\<lparr>y_q := q3, y_ready := [(4, ChanCall)], y_cc := [Some 11]\<rparr>)"
    using run_step[OF s6 chan_send[where ?r1.0 = "[]" and t = 3 and v = "Some 11" and q = q3]] q2 q3
    by (simp add: mq_init_def popChan_is_Pop take_event_def MyQueue_Len_def)
  have "?run [Some 11, Some 12] [Some 11, Some 12] (?s4\<lparr>y_q := q4, y_ready := [], y_cc := [Some 11], y_blocked := Some (Some 12)\<rparr>)"
    using run_step[OF s7 chan_block[where ?r1.0 = "[]" and t = 4 and v = "Some 12" and q = q4]] q3 q4
    by (simp add: mq_init_def popChan_is_Pop take_event_def MyQueue_Len_def)
  then show ?thesis by (intro exI) (auto simp: mq_init_def)
qed

text \<open>The queue can lock up: after two calls of \<open>TryPopTimeout\<close> that timed out and two pushes, a \<open>popChan\<close>
  goroutine holds the mutex while it sends to the full channel \<open>cc\<close>; from that state no step changes the queue or
  releases the mutex, so that \<open>Push\<close>, \<open>Pop\<close>, \<open>TryPop\<close> and \<open>Close\<close> block, until \<open>TryPopTimeout\<close> is called again.\<close>

theorem stuck_mutex:
  "\<exists>s :: (nat, nat) mq_sys. mq_run [Some 11, Some 12] [Some 11, Some 12] s \<and> y_blocked s \<noteq> None \<and>
     \<not> (\<exists>ev s'. mq_step s ev s' \<and> (y_blocked s' \<noteq> y_blocked s \<or> y_q s' \<noteq> y_q s))"
proof -
  obtain s :: "(nat, nat) mq_sys" where "mq_run [Some 11, Some 12] [Some 11, Some 12] s" "y_blocked s = Some (Some 12)"
      "y_selecting s = []"
    using locked_run by blast
  then show ?thesis by (intro exI[of _ s]) (auto elim!: mq_step.cases)
qed

theorem stuck_mutex_witness:
  "\<exists>s :: (nat, nat) mq_sys. mq_run [Some 11, Some 12] [Some 11, Some 12] s \<and> y_blocked s \<noteq> None"
  using stuck_mutex by blast

theorem concurrent_fifo_witness:
  "\<exists>s :: (nat, nat) mq_sys. mq_run [Some 11, Some 12] [Some 11, Some 12] s
     \<and> (\<exists>rest. [Some 11, Some 12] = [Some 11, Some 12] @ rest \<and>
          (m_closed (y_q s) \<or> rest = queue_list (m_buffer (y_q s)) \<and> MyQueue_Len (y_q s) = int (length rest)))"
proof -
  obtain s :: "(nat, nat) mq_sys" where s: "mq_run [Some 11, Some 12] [Some 11, Some 12] s" using locked_run by blast
  show ?thesis using concurrent_fifo[OF s] s by (intro exI[of _ s]) simp
qed

theorem no_lost_wakeup_witness:
  "\<exists>s :: (nat, nat) mq_sys. mq_run [Some 11, Some 12] [Some 11, Some 12] s
     \<and> (y_waiting s = [] \<or> MyQueue_Len (y_q s) \<le> int (length (y_ready s)))"
proof -
  obtain s :: "(nat, nat) mq_sys" where s: "mq_run [Some 11, Some 12] [Some 11, Some 12] s" using locked_run by blast
  show ?thesis using no_lost_wakeup[OF s] s by (intro exI[of _ s]) auto
qed

end
