(* ===== verification/Disk_Queue.thy ===== *)
theory Disk_Queue
  imports Go_Strings
begin

text \<open>
  The file-backed queue of \<^verbatim>\<open>diskqueue/diskqueue.go\<close>.  The file system is a map from the names the queue uses
  to byte strings; an open file is the number of its data file and an offset, and the buffered reader
  is read through at its offset.  Every operation takes a record of the system calls that fail in it,
  so that each error path of the source is a branch; \<open>no_faults\<close> is the run in which none fails.
  The copy of the package in \<^verbatim>\<open>dqueue/diskqueue.go\<close> differs in one comparison of \<open>writeOne\<close>.
\<close>

section \<open>Files, faults and state\<close>

type_synonym bytes = string

text \<open>The names \<open>fileName\<close> and \<open>metaDataFileName\<close> give, the suffix \<open>.bad\<close> and the temporary metadata files.\<close>

datatype fname = Data int | Bad int | Meta | MetaTmp int

type_synonym fs = "fname \<rightharpoonup> bytes"

datatype dq_error =
    EOpen | ENotExist | ESeek | ERead | EEOF | EUnexpectedEOF | EReadSize int | EMakePanic
  | EWriteSize int | EWrite | ESync | EMetaOpen | EMetaWrite | ERename | ERemove | EScan | EExiting

record faults =
  f_open_read :: bool
  f_seek_read :: bool
  f_read_size :: bool
  f_read_body :: bool
  f_open_write :: bool
  f_seek_write :: bool
  f_write :: "nat option"
  f_sync :: bool
  f_meta_open :: bool
  f_meta_write :: "nat option"
  f_meta_rename :: bool
  f_meta_read :: bool
  f_remove :: "fname \<Rightarrow> bool"
  f_rename_bad :: bool
  f_rand :: int

text \<open>A failing write stores a prefix of the given length first; \<open>f_rand\<close> is the number \<open>rand.Int()\<close> draws.\<close>

definition no_faults :: faults where
  "no_faults = \<lparr>f_open_read = False, f_seek_read = False, f_read_size = False, f_read_body = False,
     f_open_write = False, f_seek_write = False, f_write = None, f_sync = False, f_meta_open = False,
     f_meta_write = None, f_meta_rename = False, f_meta_read = False, f_remove = (\<lambda>_. False),
     f_rename_bad = False, f_rand = 0\<rparr>"

record diskQueue =
  d_readPos :: int
  d_writePos :: int
  d_readFileNum :: int
  d_writeFileNum :: int
  d_depth :: int
  d_maxBytesPerFile :: int
  d_minMsgSize :: int
  d_maxMsgSize :: int
  d_syncEvery :: int
  d_exitFlag :: int
  d_needSync :: bool
  d_nextReadPos :: int
  d_nextReadFileNum :: int
  d_readFile :: "(int \<times> int) option"
  d_writeFile :: "(int \<times> int) option"
  d_fs :: fs

definition content :: "fs \<Rightarrow> fname \<Rightarrow> bytes" where
  "content f n = (case f n of None \<Rightarrow> [] | Some c \<Rightarrow> c)"

text \<open>Writing at an offset; a gap before it reads as zero bytes.\<close>

definition write_at :: "nat \<Rightarrow> bytes \<Rightarrow> bytes \<Rightarrow> bytes" where
  "write_at off data c =
     take off (c @ replicate (off - length c) (char_of (0::nat))) @ data @ drop (off + length data) c"

text \<open>\<open>encoding/binary\<close> with \<open>BigEndian\<close> for an \<open>int32\<close>.\<close>

definition be32 :: "int \<Rightarrow> bytes" where
  "be32 n = map (\<lambda>k. char_of (nat (n div 256 ^ k mod 256))) [3, 2, 1, 0]"

definition be32_decode :: "bytes \<Rightarrow> int" where
  "be32_decode bs = to_int32 (foldl (\<lambda>n c. n * 256 + int (of_char c)) 0 bs)"

section \<open>Metadata\<close>

abbreviation newline :: char where
  "newline \<equiv> CHR 0x0A"

text \<open>\<open>fmt.Fprintf\<close> with \<open>"%d\n%d,%d\n%d,%d\n"\<close>.\<close>

definition meta_text :: "diskQueue \<Rightarrow> bytes" where
  "meta_text d = Itoa (d_depth d) @ newline # Itoa (d_readFileNum d) @ CHR '','' # Itoa (d_readPos d) @ newline #
     Itoa (d_writeFileNum d) @ CHR '','' # Itoa (d_writePos d) @ [newline]"

definition persistMetaData :: "faults \<Rightarrow> diskQueue \<Rightarrow> dq_error option \<times> diskQueue" where
  "persistMetaData F d =
     (let tmp = MetaTmp (f_rand F); old = content (d_fs d) tmp
      in if f_meta_open F then (Some EMetaOpen, d)
         else case f_meta_write F of
                Some k \<Rightarrow> (Some EMetaWrite, d\<lparr>d_fs := (d_fs d)(tmp \<mapsto> write_at 0 (take k (meta_text d)) old)\<rparr>)
              | None \<Rightarrow>
                  let new = write_at 0 (meta_text d) old
                  in if f_meta_rename F then (Some ERename, d\<lparr>d_fs := (d_fs d)(tmp \<mapsto> new)\<rparr>)
                     else (None, d\<lparr>d_fs := (d_fs d)(tmp := None, Meta \<mapsto> new)\<rparr>))"

text \<open>\<open>fmt.Fscanf\<close>: \<open>%d\<close> skips blanks and reads a signed decimal \<open>int64\<close>; a newline of the format matches
  blanks and a newline or the end of the input.\<close>

definition is_blank :: "char \<Rightarrow> bool" where
  "is_blank c \<longleftrightarrow> is_space c \<and> c \<noteq> newline"

definition scan_int :: "bytes \<Rightarrow> (int \<times> bytes) option" where
  "scan_int s =
     (let s1 = dropWhile is_blank s;
          sign = (if s1 \<noteq> [] \<and> (hd s1 = CHR ''-'' \<or> hd s1 = CHR ''+'') then [hd s1] else []);
          s2 = drop (length sign) s1
      in case Atoi (sign @ takeWhile is_digit s2) of
           None \<Rightarrow> None
         | Some n \<Rightarrow> Some (n, dropWhile is_digit s2))"

definition scan_newline :: "bytes \<Rightarrow> bytes option" where
  "scan_newline s =
     (case dropWhile is_blank s of
        [] \<Rightarrow> Some []
      | c # r \<Rightarrow> if c = newline then Some r else None)"

definition scan_comma :: "bytes \<Rightarrow> bytes option" where
  "scan_comma s = (case s of [] \<Rightarrow> None | c # r \<Rightarrow> if c = CHR '','' then Some r else None)"

text \<open>A scan that fails has already stored the numbers before the failure; \<open>depth\<close> is stored in a local
  variable.  The state of a scan is the rest of the input, \<open>depth\<close> and the queue.\<close>

type_synonym scan = "bytes \<times> int \<times> diskQueue"

definition scan_number_into :: "(int \<Rightarrow> int \<times> diskQueue \<Rightarrow> int \<times> diskQueue) \<Rightarrow> scan \<Rightarrow> diskQueue + scan" where
  "scan_number_into store x =
     (case x of (s, v) \<Rightarrow> (case scan_int s of None \<Rightarrow> Inl (snd v) | Some (n, r) \<Rightarrow> Inr (r, store n v)))"

definition scan_literal :: "(bytes \<Rightarrow> bytes option) \<Rightarrow> scan \<Rightarrow> diskQueue + scan" where
  "scan_literal lit x = (case x of (s, v) \<Rightarrow> (case lit s of None \<Rightarrow> Inl (snd v) | Some r \<Rightarrow> Inr (r, v)))"

fun scan_all :: "(scan \<Rightarrow> diskQueue + scan) list \<Rightarrow> scan \<Rightarrow> diskQueue + scan" where
  "scan_all [] x = Inr x"
| "scan_all (f # fs) x = bindp (f x) (scan_all fs)"

definition meta_format :: "(scan \<Rightarrow> diskQueue + scan) list" where
  "meta_format =
     [scan_number_into (\<lambda>n v. (n, snd v)), scan_literal scan_newline,
      scan_number_into (\<lambda>n v. (fst v, (snd v)\<lparr>d_readFileNum := n\<rparr>)), scan_literal scan_comma,
      scan_number_into (\<lambda>n v. (fst v, (snd v)\<lparr>d_readPos := n\<rparr>)), scan_literal scan_newline,
      scan_number_into (\<lambda>n v. (fst v, (snd v)\<lparr>d_writeFileNum := n\<rparr>)), scan_literal scan_comma,
      scan_number_into (\<lambda>n v. (fst v, (snd v)\<lparr>d_writePos := n\<rparr>)), scan_literal scan_newline]"

definition retrieveMetaData :: "faults \<Rightarrow> diskQueue \<Rightarrow> dq_error option \<times> diskQueue" where
  "retrieveMetaData F d =
     (if f_meta_read F then (Some EOpen, d)
      else case d_fs d Meta of
             None \<Rightarrow> (Some ENotExist, d)
           | Some s \<Rightarrow>
               (case scan_all meta_format (s, 0, d) of
                  Inl d1 \<Rightarrow> (Some EScan, d1)
                | Inr (_, depth, d1) \<Rightarrow>
                    (None, d1\<lparr>d_depth := depth, d_nextReadFileNum := d_readFileNum d1,
                              d_nextReadPos := d_readPos d1\<rparr>)))"

definition sync :: "faults \<Rightarrow> diskQueue \<Rightarrow> dq_error option \<times> diskQueue" where
  "sync F d =
     (if d_writeFile d \<noteq> None \<and> f_sync F then (Some ESync, d\<lparr>d_writeFile := None\<rparr>)
      else case persistMetaData F d of
             (Some e, d1) \<Rightarrow> (Some e, d1)
           | (None, d1) \<Rightarrow> (None, d1\<lparr>d_needSync := False\<rparr>))"

section \<open>Reading and writing one message\<close>

definition open_reader :: "faults \<Rightarrow> diskQueue \<Rightarrow> dq_error + (int \<times> int)" where
  "open_reader F d =
     (case d_readFile d of
        Some h \<Rightarrow> Inr h
      | None \<Rightarrow>
          if f_open_read F then Inl EOpen
          else if d_fs d (Data (d_readFileNum d)) = None then Inl ENotExist
          else if d_readPos d > 0 \<and> f_seek_read F then Inl ESeek
          else Inr (d_readFileNum d, if d_readPos d > 0 then d_readPos d else 0))"

text \<open>\<open>io.ReadFull\<close>.\<close>

definition read_full :: "fs \<Rightarrow> int \<Rightarrow> int \<Rightarrow> nat \<Rightarrow> dq_error + bytes" where
  "read_full f n off k =
     (let avail = drop (nat off) (content f (Data n))
      in if length (take k avail) = k then Inr (take k avail)
         else if avail = [] then Inl EEOF else Inl EUnexpectedEOF)"

definition readOne :: "faults \<Rightarrow> diskQueue \<Rightarrow> (dq_error + bytes) \<times> diskQueue" where
  "readOne F d =
     (case open_reader F d of
        Inl e \<Rightarrow> (Inl e, d)
      | Inr (n, off) \<Rightarrow>
          let failed = d\<lparr>d_readFile := None\<rparr> in
          if f_read_size F then (Inl ERead, failed)
          else case read_full (d_fs d) n off 4 of
            Inl e \<Rightarrow> (Inl e, failed)
          | Inr hdr \<Rightarrow>
              let msgSize = be32_decode hdr in
              if msgSize < d_minMsgSize d \<or> msgSize > d_maxMsgSize d then (Inl (EReadSize msgSize), failed)
              else if msgSize < 0 then (Inl EMakePanic, failed)
              else if f_read_body F then (Inl ERead, failed)
              else case read_full (d_fs d) n (off + 4) (nat msgSize) of
                Inl e \<Rightarrow> (Inl e, failed)
              | Inr readBuf \<Rightarrow>
                  let totalBytes = to_int32 (4 + msgSize);
                      d1 = d\<lparr>d_readFile := Some (n, off + 4 + msgSize), d_nextReadPos := d_readPos d + totalBytes,
                             d_nextReadFileNum := d_readFileNum d\<rparr>
                  in (Inr readBuf,
                      if d_nextReadPos d1 > d_maxBytesPerFile d1
                      then d1\<lparr>d_readFile := None, d_nextReadFileNum := d_nextReadFileNum d1 + 1, d_nextReadPos := 0\<rparr>
                      else d1))"

definition open_writer :: "faults \<Rightarrow> diskQueue \<Rightarrow> dq_error + (int \<times> int \<times> diskQueue)" where
  "open_writer F d =
     (case d_writeFile d of
        Some (n, off) \<Rightarrow> Inr (n, off, d)
      | None \<Rightarrow>
          if f_open_write F then Inl EOpen
          else if d_writePos d > 0 \<and> f_seek_write F then Inl ESeek
          else let n = d_writeFileNum d; off = (if d_writePos d > 0 then d_writePos d else 0)
               in Inr (n, off, d\<lparr>d_writeFile := Some (n, off), d_fs := (d_fs d)(Data n \<mapsto> content (d_fs d) (Data n))\<rparr>))"

text \<open>Opening creates the file also when the seek then fails.\<close>

definition create_on_error :: "faults \<Rightarrow> diskQueue \<Rightarrow> diskQueue" where
  "create_on_error F d =
     (if f_open_write F then d
      else d\<lparr>d_fs := (d_fs d)(Data (d_writeFileNum d) \<mapsto> content (d_fs d) (Data (d_writeFileNum d)))\<rparr>)"

text \<open>The two packages differ in the test after which a new file is started.\<close>

definition writeOne_rolling ::
    "(int \<Rightarrow> int \<Rightarrow> bool) \<Rightarrow> faults \<Rightarrow> bytes \<Rightarrow> diskQueue \<Rightarrow> dq_error option \<times> diskQueue" where
  "writeOne_rolling full F data d =
     (case open_writer F d of
        Inl e \<Rightarrow> (Some e, create_on_error F d)
      | Inr (n, off, d1) \<Rightarrow>
          let dataLen = to_int32 (int (length data)) in
          if dataLen < d_minMsgSize d1 \<or> dataLen > d_maxMsgSize d1 then (Some (EWriteSize dataLen), d1)
          else let writeBuf = be32 dataLen @ data; old = content (d_fs d1) (Data n) in
          case f_write F of
            Some k \<Rightarrow>
              (Some EWrite, d1\<lparr>d_fs := (d_fs d1)(Data n \<mapsto> write_at (nat off) (take k writeBuf) old), d_writeFile := None\<rparr>)
          | None \<Rightarrow>
              let totalBytes = to_int32 (4 + dataLen);
                  d2 = d1\<lparr>d_fs := (d_fs d1)(Data n \<mapsto> write_at (nat off) writeBuf old),
                          d_writeFile := Some (n, off + int (length writeBuf)),
                          d_writePos := d_writePos d1 + totalBytes,
                          d_depth := to_int64 (d_depth d1 + 1)\<rparr>
              in if full (d_writePos d2) (d_maxBytesPerFile d2)
                 then case sync F (d2\<lparr>d_writeFileNum := d_writeFileNum d2 + 1, d_writePos := 0\<rparr>) of
                        (err, d3) \<Rightarrow> (err, d3\<lparr>d_writeFile := None\<rparr>)
                 else (None, d2))"

definition writeOne :: "faults \<Rightarrow> bytes \<Rightarrow> diskQueue \<Rightarrow> dq_error option \<times> diskQueue" where
  "writeOne = writeOne_rolling (\<lambda>pos most. pos > most)"

section \<open>Skipping, deleting and moving forward\<close>

function remove_files :: "faults \<Rightarrow> int \<Rightarrow> int \<Rightarrow> dq_error option \<Rightarrow> fs \<Rightarrow> dq_error option \<times> fs" where
  "remove_files F i w err f =
     (if i \<le> w
      then if f (Data i) \<noteq> None \<and> f_remove F (Data i) then remove_files F (i + 1) w (Some ERemove) f
           else remove_files F (i + 1) w err (f(Data i := None))
      else (err, f))"
  by pat_completeness auto
termination by (relation "measure (\<lambda>(F, i, w, err, f). nat (w + 1 - i))") auto

declare remove_files.simps [simp del]

definition skipToNextRWFile :: "faults \<Rightarrow> diskQueue \<Rightarrow> dq_error option \<times> diskQueue" where
  "skipToNextRWFile F d =
     (case remove_files F (d_readFileNum d) (d_writeFileNum d) None (d_fs d) of
        (err, f) \<Rightarrow>
          let w = d_writeFileNum d + 1
          in (err, d\<lparr>d_readFile := None, d_writeFile := None, d_fs := f, d_writeFileNum := w, d_writePos := 0,
                     d_readFileNum := w, d_readPos := 0, d_nextReadFileNum := w, d_nextReadPos := 0,
                     d_depth := 0\<rparr>))"

definition deleteAllFiles :: "faults \<Rightarrow> diskQueue \<Rightarrow> dq_error option \<times> diskQueue" where
  "deleteAllFiles F d =
     (case skipToNextRWFile F d of
        (err, d1) \<Rightarrow>
          if d_fs d1 Meta \<noteq> None \<and> f_remove F Meta then (Some ERemove, d1)
          else (err, d1\<lparr>d_fs := (d_fs d1)(Meta := None)\<rparr>))"

definition checkTailCorruption :: "faults \<Rightarrow> int \<Rightarrow> diskQueue \<Rightarrow> diskQueue" where
  "checkTailCorruption F depth d =
     (if d_readFileNum d < d_writeFileNum d \<or> d_readPos d < d_writePos d then d
      else let d1 = (if depth \<noteq> 0 then d\<lparr>d_depth := 0, d_needSync := True\<rparr> else d)
           in if d_readFileNum d1 \<noteq> d_writeFileNum d1 \<or> d_readPos d1 \<noteq> d_writePos d1
              then (snd (skipToNextRWFile F d1))\<lparr>d_needSync := True\<rparr>
              else d1)"

definition moveForward :: "faults \<Rightarrow> diskQueue \<Rightarrow> diskQueue" where
  "moveForward F d =
     (let old = d_readFileNum d; depth = to_int64 (d_depth d - 1);
          d1 = d\<lparr>d_readFileNum := d_nextReadFileNum d, d_readPos := d_nextReadPos d, d_depth := depth\<rparr>;
          d2 = (if old \<noteq> d_nextReadFileNum d
                then d1\<lparr>d_needSync := True,
                        d_fs := (if f_remove F (Data old) then d_fs d1 else (d_fs d1)(Data old := None))\<rparr>
                else d1)
      in checkTailCorruption F depth d2)"

definition handleReadError :: "faults \<Rightarrow> diskQueue \<Rightarrow> diskQueue" where
  "handleReadError F d =
     (let d1 = (if d_readFileNum d = d_writeFileNum d
                then d\<lparr>d_writeFile := None, d_writeFileNum := d_writeFileNum d + 1, d_writePos := 0\<rparr> else d);
          n = d_readFileNum d1;
          f = (case d_fs d1 (Data n) of
                 None \<Rightarrow> d_fs d1
               | Some c \<Rightarrow> if f_rename_bad F then d_fs d1 else (d_fs d1)(Data n := None, Bad n \<mapsto> c))
      in d1\<lparr>d_fs := f, d_readFileNum := n + 1, d_readPos := 0, d_nextReadFileNum := n + 1, d_nextReadPos := 0,
            d_needSync := True\<rparr>)"

section \<open>The interface and the loop\<close>

definition diskqueue_New :: "faults \<Rightarrow> int \<Rightarrow> int \<Rightarrow> int \<Rightarrow> int \<Rightarrow> fs \<Rightarrow> diskQueue" where
  "diskqueue_New F maxBytesPerFile minMsgSize maxMsgSize syncEvery f =
     snd (retrieveMetaData F
       \<lparr>d_readPos = 0, d_writePos = 0, d_readFileNum = 0, d_writeFileNum = 0, d_depth = 0,
        d_maxBytesPerFile = maxBytesPerFile, d_minMsgSize = minMsgSize, d_maxMsgSize = maxMsgSize,
        d_syncEvery = syncEvery, d_exitFlag = 0, d_needSync = False, d_nextReadPos = 0, d_nextReadFileNum = 0,
        d_readFile = None, d_writeFile = None, d_fs = f\<rparr>)"

definition Depth :: "diskQueue \<Rightarrow> int" where
  "Depth d = d_depth d"

text \<open>The loop holds the queue, the number of operations since the last sync and the message read ahead.\<close>

record io_state =
  io_d :: diskQueue
  io_count :: int
  io_dataRead :: bytes

definition io_start :: "diskQueue \<Rightarrow> io_state" where
  "io_start d = \<lparr>io_d = d, io_count = 0, io_dataRead = []\<rparr>"

definition readable :: "diskQueue \<Rightarrow> bool" where
  "readable d \<longleftrightarrow> d_readFileNum d < d_writeFileNum d \<or> d_readPos d < d_writePos d"

definition io_sync :: "faults \<Rightarrow> io_state \<Rightarrow> io_state" where
  "io_sync F s =
     (let d = (if io_count s = d_syncEvery (io_d s) then (io_d s)\<lparr>d_needSync := True\<rparr> else io_d s)
      in if d_needSync d then s\<lparr>io_d := snd (sync F d), io_count := 0\<rparr> else s\<lparr>io_d := d\<rparr>)"

text \<open>One round up to the \<open>select\<close>: \<open>None\<close> when a read error sends the loop back to its start, otherwise
  whether the case that sends on \<open>readChan\<close> is enabled.\<close>

definition io_round :: "faults \<Rightarrow> io_state \<Rightarrow> bool option \<times> io_state" where
  "io_round F s =
     (let s1 = io_sync F s; d = io_d s1
      in if readable d
         then if d_nextReadPos d = d_readPos d
              then case readOne F d of
                     (Inl e, d1) \<Rightarrow> (None, s1\<lparr>io_d := handleReadError F d1\<rparr>)
                   | (Inr m, d1) \<Rightarrow> (Some True, s1\<lparr>io_d := d1, io_dataRead := m\<rparr>)
              else (Some True, s1)
         else (Some False, s1))"

text \<open>The rounds up to the \<open>select\<close>, each with its own faults; \<open>None\<close> when the fuel runs out.\<close>

fun io_prepare :: "nat \<Rightarrow> (nat \<Rightarrow> faults) \<Rightarrow> io_state \<Rightarrow> (bool \<times> io_state) option" where
  "io_prepare 0 Fs s = None"
| "io_prepare (Suc k) Fs s =
     (case io_round (Fs 0) s of
        (Some ready, s1) \<Rightarrow> Some (ready, s1)
      | (None, s1) \<Rightarrow> io_prepare k (\<lambda>i. Fs (Suc i)) s1)"

datatype io_request = Receive | EmptyReq | WriteReq bytes | Tick | ExitReq

datatype io_response = Delivered bytes | Emptied "dq_error option" | Written "dq_error option" | Ticked | Exited

text \<open>The \<open>select\<close>, for the request that is served; \<open>Receive\<close> can be served only when \<open>ready\<close>.\<close>

definition io_serve :: "(faults \<Rightarrow> bytes \<Rightarrow> diskQueue \<Rightarrow> dq_error option \<times> diskQueue)
    \<Rightarrow> faults \<Rightarrow> bool \<Rightarrow> io_request \<Rightarrow> io_state \<Rightarrow> (io_response \<times> io_state) option" where
  "io_serve write F ready req s =
     (case req of
        Receive \<Rightarrow>
          if ready then Some (Delivered (io_dataRead s), s\<lparr>io_count := io_count s + 1, io_d := moveForward F (io_d s)\<rparr>)
          else None
      | EmptyReq \<Rightarrow>
          (case deleteAllFiles F (io_d s) of (e, d) \<Rightarrow> Some (Emptied e, s\<lparr>io_d := d, io_count := 0\<rparr>))
      | WriteReq data \<Rightarrow>
          (case write F data (io_d s) of (e, d) \<Rightarrow> Some (Written e, s\<lparr>io_count := io_count s + 1, io_d := d\<rparr>))
      | Tick \<Rightarrow>
          Some (Ticked, if io_count s = 0 then s else s\<lparr>io_d := (io_d s)\<lparr>d_needSync := True\<rparr>\<rparr>)
      | ExitReq \<Rightarrow> Some (Exited, s))"

definition io_select :: "faults \<Rightarrow> bool \<Rightarrow> io_request \<Rightarrow> io_state \<Rightarrow> (io_response \<times> io_state) option" where
  "io_select = io_serve writeOne"

definition exit :: "diskQueue \<Rightarrow> diskQueue" where
  "exit d = d\<lparr>d_exitFlag := 1, d_readFile := None, d_writeFile := None\<rparr>"

definition Close :: "faults \<Rightarrow> diskQueue \<Rightarrow> dq_error option \<times> diskQueue" where
  "Close F d = sync F (exit d)"

definition Delete :: "diskQueue \<Rightarrow> dq_error option \<times> diskQueue" where
  "Delete d = (None, exit d)"

text \<open>A call of \<open>Put\<close> or \<open>Empty\<close>, and a receive from \<open>ReadChan()\<close>, served by the loop from the start of a round.\<close>

definition Put :: "nat \<Rightarrow> (nat \<Rightarrow> faults) \<Rightarrow> bytes \<Rightarrow> io_state \<Rightarrow> (dq_error option \<times> io_state) option" where
  "Put fuel Fs data s =
     (if d_exitFlag (io_d s) = 1 then Some (Some EExiting, s)
      else case io_prepare fuel Fs s of
             None \<Rightarrow> None
           | Some (ready, s1) \<Rightarrow>
               (case io_select (Fs fuel) ready (WriteReq data) s1 of
                  Some (Written e, s2) \<Rightarrow> Some (e, s2)
                | _ \<Rightarrow> None))"

definition Empty :: "nat \<Rightarrow> (nat \<Rightarrow> faults) \<Rightarrow> io_state \<Rightarrow> (dq_error option \<times> io_state) option" where
  "Empty fuel Fs s =
     (if d_exitFlag (io_d s) = 1 then Some (Some EExiting, s)
      else case io_prepare fuel Fs s of
             None \<Rightarrow> None
           | Some (ready, s1) \<Rightarrow>
               (case io_select (Fs fuel) ready EmptyReq s1 of
                  Some (Emptied e, s2) \<Rightarrow> Some (e, s2)
                | _ \<Rightarrow> None))"

definition receive :: "nat \<Rightarrow> (nat \<Rightarrow> faults) \<Rightarrow> io_state \<Rightarrow> (bytes \<times> io_state) option" where
  "receive fuel Fs s =
     (case io_prepare fuel Fs s of
        None \<Rightarrow> None
      | Some (ready, s1) \<Rightarrow>
          (case io_select (Fs fuel) ready Receive s1 of
             Some (Delivered m, s2) \<Rightarrow> Some (m, s2)
           | _ \<Rightarrow> None))"

end
