(* ===== verification/Disk_Fifo.thy ===== *)
theory Disk_Fifo
  imports Disk_Queue
begin

text \<open>
  Correctness of \<^verbatim>\<open>diskqueue/diskqueue.go\<close>: the messages between the read and the write position, read off the data
  files by a function \<open>pending\<close>, are the abstract contents; writing appends to them and receiving removes the
  first, across any number of files, so that the queue meets the FIFO contract.  Failed writes, the size check,
  restarting from the metadata, emptying, and the rounds of the loop under faults are treated on the same
  abstraction.
\<close>

section \<open>Encoding of messages\<close>

definition enc :: "bytes \<Rightarrow> bytes" where
  "enc m = be32 (int (length m)) @ m"

lemma length_be32 [simp]: "length (be32 n) = 4"
  by (simp add: be32_def)

lemma length_enc [simp]: "length (enc m) = 4 + length m"
  by (simp add: enc_def)

lemma of_char_byte: "0 \<le> n \<Longrightarrow> n < 256 \<Longrightarrow> int (of_char (char_of (nat n))) = n"
  by (simp add: nat_less_iff)

lemma byte_range: "0 \<le> int (of_char (c::char)) \<and> int (of_char c) < 256"
  using of_char_mod_256[of c, where ?'a = nat] mod_less_divisor[of 256 "of_char c :: nat"] by simp

text \<open>The four bytes of a number by repeated division.\<close>

lemma be32_bytes:
  "be32 n = map (\<lambda>b. char_of (nat b)) [n div 256 div 256 div 256 mod 256, n div 256 div 256 mod 256, n div 256 mod 256, n mod 256]"
proof -
  have "n div (256 * 256) = n div 256 div 256" "n div (256 * 256 * 256) = n div (256 * 256) div 256"
    by (rule zdiv_zmult2_eq, simp)+
  moreover have "(256::int) ^ 2 = 256 * 256" "(256::int) ^ 3 = 256 * 256 * 256" by simp_all
  ultimately show ?thesis by (simp only: be32_def list.map power_0 power_one_right div_by_1)
qed

lemma be32_decode_bytes:
  "be32_decode [a, b, c, d] = to_int32 (((int (of_char a) * 256 + int (of_char b)) * 256 + int (of_char c)) * 256 + int (of_char d))"
  by (simp add: be32_decode_def)

lemma be32_round_trip:
  assumes "0 \<le> n" "n < 2 ^ 31"
  shows "be32_decode (be32 n) = n"
proof -
  define n1 n2 n3 where "n1 = n div 256" and "n2 = n1 div 256" and "n3 = n2 div 256"
  define b0 b1 b2 where "b0 = n mod 256" and "b1 = n1 mod 256" and "b2 = n2 mod 256"
  have e: "n = 256 * n1 + b0" "n1 = 256 * n2 + b1" "n2 = 256 * n3 + b2"
    by (simp_all add: n1_def n2_def n3_def b0_def b1_def b2_def)
  have b: "0 \<le> b0" "b0 < 256" "0 \<le> b1" "b1 < 256" "0 \<le> b2" "b2 < 256" by (simp_all add: b0_def b1_def b2_def)
  have n3: "0 \<le> n3" using assms by (simp add: n1_def n2_def n3_def pos_imp_zdiv_nonneg_iff)
  have "n < 2147483648" using assms by simp
  then have n3': "n3 < 256" using e b by linarith
  then have m: "n3 mod 256 = n3" using n3 by simp
  have "be32 n = map (\<lambda>b. char_of (nat b)) [n3, b2, b1, b0]"
    unfolding be32_bytes b0_def b1_def b2_def n1_def[symmetric] n2_def[symmetric] n3_def[symmetric] m ..
  then have "be32_decode (be32 n) = to_int32 (((n3 * 256 + b2) * 256 + b1) * 256 + b0)"
    by (simp only: list.map be32_decode_bytes of_char_byte b n3 n3')
  also have "((n3 * 256 + b2) * 256 + b1) * 256 + b0 = n"
    by (subst e(1), subst e(2), subst e(3)) (simp add: algebra_simps)
  finally show ?thesis using assms by (simp add: to_int32_id)
qed

lemma split256:
  assumes "0 \<le> (d::int)" "d < 256"
  shows "(x * 256 + d) div 256 = x" "(x * 256 + d) mod 256 = d"
  using assms by simp_all

lemma be32_unique:
  assumes "length h = 4" "0 \<le> be32_decode h"
  shows "be32 (be32_decode h) = h"
proof -
  obtain a b c d where h: "h = [a, b, c, d]" using assms(1) by (auto simp: numeral_eq_Suc length_Suc_conv)
  define A B C D where "A = int (of_char a)" and "B = int (of_char b)" and "C = int (of_char c)" and "D = int (of_char d)"
  have r: "0 \<le> A" "A < 256" "0 \<le> B" "B < 256" "0 \<le> C" "C < 256" "0 \<le> D" "D < 256"
    using byte_range by (simp_all add: A_def B_def C_def D_def)
  define N where "N = ((A * 256 + B) * 256 + C) * 256 + D"
  have dec: "be32_decode h = to_int32 N" unfolding h be32_decode_bytes N_def A_def B_def C_def D_def ..
  have "N < 2 ^ 31"
  proof (rule ccontr)
    assume "\<not> N < 2 ^ 31"
    have "N = A * 16777216 + B * 65536 + C * 256 + D" by (simp add: N_def algebra_simps)
    then have "N < 4294967296" using r by linarith
    then have "N < 2 ^ 32" by simp
    with \<open>\<not> N < 2 ^ 31\<close> have "(N + 2 ^ 31 - 2 ^ 32) mod 2 ^ 32 = N + 2 ^ 31 - 2 ^ 32"
      by (intro mod_pos_pos_trivial) auto
    then have "(N + 2 ^ 31) mod 2 ^ 32 = N + 2 ^ 31 - 2 ^ 32" by (simp only: minus_mod_self2)
    then have "to_int32 N < 0" using \<open>N < 2 ^ 32\<close> by (simp add: to_int32_def)
    then show False using assms(2) dec by simp
  qed
  moreover have "0 \<le> N" using r by (simp add: N_def)
  ultimately have "be32_decode h = N" using dec by (simp add: to_int32_id)
  moreover note split256[OF r(7,8), of "(A * 256 + B) * 256 + C", folded N_def]
    split256[OF r(5,6), of "A * 256 + B"] split256[OF r(3,4), of A]
  moreover have "A mod 256 = A" using r by simp
  ultimately have "be32 (be32_decode h) = map (\<lambda>b. char_of (nat b)) [A, B, C, D]" by (simp only: be32_bytes)
  then show ?thesis unfolding h A_def B_def C_def D_def by simp
qed

section \<open>The contents of the data files\<close>

definition decode_at :: "fs \<Rightarrow> int \<Rightarrow> int \<Rightarrow> int \<Rightarrow> int \<Rightarrow> bytes option" where
  "decode_at f lo hi n off =
     (case read_full f n off 4 of
        Inl _ \<Rightarrow> None
      | Inr hdr \<Rightarrow>
          (let k = be32_decode hdr
           in if k < lo \<or> k > hi \<or> k < 0 then None
              else case read_full f n (off + 4) (nat k) of Inl _ \<Rightarrow> None | Inr m \<Rightarrow> Some m))"

text \<open>The position after a message: the files roll over past the limit.\<close>

definition next_pos :: "int \<Rightarrow> int \<Rightarrow> int \<Rightarrow> bytes \<Rightarrow> int \<times> int" where
  "next_pos mx r p m = (let p' = p + 4 + int (length m) in if p' > mx then (r + 1, 0) else (r, p'))"

text \<open>The messages from the position \<open>(r, p)\<close> up to \<open>(w, q)\<close>; \<open>None\<close> when the files do not hold a sequence of messages
  there.\<close>

function pending :: "fs \<Rightarrow> int \<Rightarrow> int \<Rightarrow> int \<Rightarrow> int \<Rightarrow> int \<Rightarrow> int \<Rightarrow> int \<Rightarrow> bytes list option" where
  "pending f mx lo hi w q r p =
     (if r = w \<and> p = q then Some []
      else if r > w \<or> p > mx \<or> p < 0 then None
      else case decode_at f lo hi r p of
             None \<Rightarrow> None
           | Some m \<Rightarrow> map_option (Cons m) (pending f mx lo hi w q (fst (next_pos mx r p m)) (snd (next_pos mx r p m))))"
  by pat_completeness auto
termination
  by (relation "measures [\<lambda>(f, mx, lo, hi, w, q, r, p). nat (w + 1 - r), \<lambda>(f, mx, lo, hi, w, q, r, p). nat (mx + 1 - p)]")
    (auto simp: next_pos_def Let_def)

declare pending.simps [simp del]

lemma read_full_Inr:
  "read_full f n off k = Inr x \<longleftrightarrow> x = take k (drop (nat off) (content f (Data n))) \<and> length x = k"
  by (auto simp: read_full_def Let_def)

lemma decode_at_iff:
  assumes "0 \<le> lo" "hi < 2 ^ 31" "0 \<le> off"
  shows "decode_at f lo hi n off = Some m \<longleftrightarrow>
    lo \<le> int (length m) \<and> int (length m) \<le> hi \<and>
    take (4 + length m) (drop (nat off) (content f (Data n))) = enc m"
proof -
  let ?c = "drop (nat off) (content f (Data n))"
  have o4: "nat (off + 4) = nat off + 4" using assms(3) by simp
  show ?thesis
  proof
    assume "decode_at f lo hi n off = Some m"
    then obtain hdr where h0: "read_full f n off 4 = Inr hdr" and k: "lo \<le> be32_decode hdr" "be32_decode hdr \<le> hi" "0 \<le> be32_decode hdr"
        and m0: "read_full f n (off + 4) (nat (be32_decode hdr)) = Inr m"
      unfolding decode_at_def Let_def by (auto split: sum.splits if_splits)
    have h: "hdr = take 4 ?c" "length hdr = 4" using h0 unfolding read_full_Inr by blast+
    have m: "m = take (nat (be32_decode hdr)) (drop 4 ?c)" "length m = nat (be32_decode hdr)"
      using m0 unfolding read_full_Inr o4 by (auto simp: add.commute)
    have "be32 (int (length m)) = hdr" using be32_unique[OF h(2) k(3)] m(2) k(3) by simp
    moreover have "take (4 + length m) ?c = take 4 ?c @ take (length m) (drop 4 ?c)" by (rule take_add)
    ultimately show "lo \<le> int (length m) \<and> int (length m) \<le> hi \<and> take (4 + length m) ?c = enc m"
      using h k m by (simp add: enc_def)
  next
    assume a: "lo \<le> int (length m) \<and> int (length m) \<le> hi \<and> take (4 + length m) ?c = enc m"
    have "take (4 + length m) ?c = take 4 ?c @ take (length m) (drop 4 ?c)" by (rule take_add)
    moreover have "length (take 4 ?c) = 4"
    proof -
      have "4 + length m \<le> length ?c" using arg_cong[OF conjunct2[OF conjunct2[OF a]], of length] by simp
      then show ?thesis by simp
    qed
    ultimately have t: "take 4 ?c = be32 (int (length m))" "take (length m) (drop 4 ?c) = m"
      using a by (simp_all add: enc_def)
    have r: "read_full f n off 4 = Inr (be32 (int (length m)))"
      using t(1) by (simp add: read_full_Inr)
    have "read_full f n (off + 4) (length m) = Inr m"
      using t(2) by (simp add: read_full_Inr o4 add.commute)
    moreover have "be32_decode (be32 (int (length m))) = int (length m)"
      using a assms(2) by (intro be32_round_trip) auto
    ultimately show "decode_at f lo hi n off = Some m"
      using a r by (simp add: decode_at_def)
  qed
qed

text \<open>A message stays readable when the bytes up to its end are kept.\<close>

lemma decode_at_prefix:
  assumes "0 \<le> lo" "hi < 2 ^ 31" "0 \<le> off" "decode_at f lo hi n off = Some m"
    and "nat off + 4 + length m \<le> k" "take k (content f' (Data n)) = take k (content f (Data n))"
  shows "decode_at f' lo hi n off = Some m"
proof -
  have "take (4 + length m) (drop (nat off) c) = take (4 + length m) (drop (nat off) (take k c))" for c :: bytes
    using assms(5) by (simp add: drop_take min_def)
  then show ?thesis using assms decode_at_iff[OF assms(1-3)] by metis
qed

lemma next_pos_cases:
  obtains (stay) "next_pos mx r p m = (r, p + 4 + int (length m))" "p + 4 + int (length m) \<le> mx"
  | (roll) "next_pos mx r p m = (r + 1, 0)" "p + 4 + int (length m) > mx"
  by (cases "p + 4 + int (length m) > mx") (auto simp: next_pos_def Let_def)

lemma pending_order:
  "pending f mx lo hi w q r p = Some ms \<Longrightarrow> 0 \<le> p \<Longrightarrow>
   r \<le> w \<and> (r = w \<longrightarrow> p \<le> q) \<and> (ms = [] \<longleftrightarrow> r = w \<and> p = q) \<and> (ms \<noteq> [] \<longrightarrow> r < w \<or> p < q)"
proof (induction f mx lo hi w q r p arbitrary: ms rule: pending.induct)
  case (1 f mx lo hi w q r p)
  show ?case
  proof (cases "r = w \<and> p = q")
    case True
    then show ?thesis using 1(2) by (subst (asm) pending.simps) auto
  next
    case False
    then obtain m ms' where m: "decode_at f lo hi r p = Some m" "r \<le> w" "p \<le> mx" "ms = m # ms'"
      and p: "pending f mx lo hi w q (fst (next_pos mx r p m)) (snd (next_pos mx r p m)) = Some ms'"
      using 1(2) by (subst (asm) pending.simps) (auto split: if_splits option.splits)
    have "0 \<le> snd (next_pos mx r p m)" using 1(3) by (simp add: next_pos_def Let_def)
    with 1(1)[OF False _ m(1) p] m 1(3)
    have o: "fst (next_pos mx r p m) \<le> w \<and> (fst (next_pos mx r p m) = w \<longrightarrow> snd (next_pos mx r p m) \<le> q)" by auto
    show ?thesis
    proof (cases rule: next_pos_cases[of mx r p m])
      case stay
      with o m show ?thesis by (cases "r = w") auto
    next
      case roll
      with o m show ?thesis by auto
    qed
  qed
qed

lemma pending_Cons:
  assumes "pending f mx lo hi w q r p = Some ms" "\<not> (r = w \<and> p = q)"
  obtains m ms' where "ms = m # ms'" "decode_at f lo hi r p = Some m" "r \<le> w" "0 \<le> p" "p \<le> mx"
    "pending f mx lo hi w q (fst (next_pos mx r p m)) (snd (next_pos mx r p m)) = Some ms'"
  using assms that by (subst (asm) pending.simps) (auto split: if_splits option.splits)

lemma pending_Nil: "pending f mx lo hi w q w q = Some []"
  by (subst pending.simps) simp

lemma pending_step:
  assumes "decode_at f lo hi r p = Some m" "0 \<le> p" "p \<le> mx" "r \<le> w" "\<not> (r = w \<and> p = q)"
  shows "pending f mx lo hi w q r p =
    map_option (Cons m) (pending f mx lo hi w q (fst (next_pos mx r p m)) (snd (next_pos mx r p m)))"
  using assms by (subst pending.simps) auto

text \<open>The contents do not change when the files from the read to the write position keep their bytes up to there.\<close>

lemma pending_frame:
  assumes "0 \<le> lo" "hi < 2 ^ 31"
  shows "pending f mx lo hi w q r p = Some ms \<Longrightarrow> 0 \<le> p \<Longrightarrow>
    (\<And>n. r \<le> n \<Longrightarrow> n < w \<Longrightarrow> content f' (Data n) = content f (Data n)) \<Longrightarrow>
    take (nat q) (content f' (Data w)) = take (nat q) (content f (Data w)) \<Longrightarrow>
    pending f' mx lo hi w q r p = Some ms"
  using assms
proof (induction f mx lo hi w q r p arbitrary: ms rule: pending.induct)
  case (1 f mx lo hi w q r p)
  show ?case
  proof (cases "r = w \<and> p = q")
    case True
    then show ?thesis using 1(2) by (simp add: pending_Nil)
  next
    case False
    obtain m ms' where m: "ms = m # ms'" "decode_at f lo hi r p = Some m" "r \<le> w" "0 \<le> p" "p \<le> mx"
      and p: "pending f mx lo hi w q (fst (next_pos mx r p m)) (snd (next_pos mx r p m)) = Some ms'"
      using pending_Cons[OF 1(2) False] by blast
    have np: "0 \<le> snd (next_pos mx r p m)" "r \<le> fst (next_pos mx r p m)"
      using m(4) by (simp_all add: next_pos_def Let_def)
    have ih: "pending f' mx lo hi w q (fst (next_pos mx r p m)) (snd (next_pos mx r p m)) = Some ms'"
      using 1(1)[OF False _ m(2) p np(1) _ _ 1(6,7)] 1(4,5) m np by auto
    have "decode_at f' lo hi r p = Some m"
    proof (cases "r < w")
      case True
      then show ?thesis
        using decode_at_prefix[OF 1(6,7) m(4,2) order_refl[of "nat p + 4 + length m"], of f'] 1(4)[of r] by simp
    next
      case False
      then have "r = w" using m(3) by simp
      moreover have "nat p + 4 + length m \<le> nat q"
        using pending_order[OF p np(1)] \<open>r = w\<close> m(4)
        by (cases rule: next_pos_cases[of mx r p m]) auto
      ultimately show ?thesis using decode_at_prefix[OF 1(6,7) m(4,2), of "nat q" f'] 1(5) by simp
    qed
    then show ?thesis using pending_step[of f' lo hi r p m mx w q] m False ih by simp
  qed
qed

text \<open>Appending a message at the write position.\<close>

lemma pending_append:
  assumes "0 \<le> lo" "hi < 2 ^ 31" "0 \<le> q" "q \<le> mx" "decode_at f lo hi w q = Some m" "next_pos mx w q m = (w', q')"
  shows "pending f mx lo hi w q r p = Some ms \<Longrightarrow> 0 \<le> p \<Longrightarrow> pending f mx lo hi w' q' r p = Some (ms @ [m])"
  using assms
proof (induction f mx lo hi w q r p arbitrary: ms rule: pending.induct)
  case (1 f mx lo hi w q r p)
  have after: "(r, p) \<noteq> (w', q')" "r \<le> w'"
    using pending_order[OF 1(2,3)] 1(6,9) by (cases rule: next_pos_cases[of mx w q m]; auto)+
  show ?case
  proof (cases "r = w \<and> p = q")
    case True
    then have "ms = []" using 1(2) by (simp add: pending_Nil)
    moreover have "pending f mx lo hi w' q' r p = map_option (Cons m) (pending f mx lo hi w' q' w' q')"
      using pending_step[of f lo hi r p m mx w' q'] True after 1 by auto
    ultimately show ?thesis by (simp add: pending_Nil)
  next
    case False
    obtain m1 ms' where m: "ms = m1 # ms'" "decode_at f lo hi r p = Some m1" "r \<le> w" "0 \<le> p" "p \<le> mx"
      and p: "pending f mx lo hi w q (fst (next_pos mx r p m1)) (snd (next_pos mx r p m1)) = Some ms'"
      using pending_Cons[OF 1(2) False] by blast
    have np: "0 \<le> snd (next_pos mx r p m1)" using m(4) by (simp add: next_pos_def Let_def)
    have "pending f mx lo hi w' q' (fst (next_pos mx r p m1)) (snd (next_pos mx r p m1)) = Some (ms' @ [m])"
      using 1(1)[OF False _ m(2) p np 1(4-9)] m by auto
    then show ?thesis using pending_step[of f lo hi r p m1 mx w' q'] m after by auto
  qed
qed

section \<open>The invariant\<close>

definition config_ok :: "diskQueue \<Rightarrow> bool" where
  "config_ok d \<longleftrightarrow> 0 \<le> d_minMsgSize d \<and> d_maxMsgSize d < 2 ^ 31 - 4 \<and> 0 \<le> d_maxBytesPerFile d"

definition stored :: "diskQueue \<Rightarrow> bytes list option" where
  "stored d = pending (d_fs d) (d_maxBytesPerFile d) (d_minMsgSize d) (d_maxMsgSize d)
     (d_writeFileNum d) (d_writePos d) (d_readFileNum d) (d_readPos d)"

definition dq_inv :: "diskQueue \<Rightarrow> bytes list \<Rightarrow> bool" where
  "dq_inv d ms \<longleftrightarrow> config_ok d \<and> stored d = Some ms
     \<and> 0 \<le> d_readPos d \<and> d_readPos d \<le> d_maxBytesPerFile d \<and> 0 \<le> d_writePos d \<and> d_writePos d \<le> d_maxBytesPerFile d
     \<and> nat (d_writePos d) \<le> length (content (d_fs d) (Data (d_writeFileNum d)))
     \<and> d_depth d = int (length ms) \<and> length ms < 2 ^ 63
     \<and> (d_writeFile d = None \<or> d_writeFile d = Some (d_writeFileNum d, d_writePos d))"

text \<open>The read position and the message read ahead: nothing read yet, or the first message read and the next position
  computed.\<close>

definition not_read :: "diskQueue \<Rightarrow> bool" where
  "not_read d \<longleftrightarrow> d_nextReadPos d = d_readPos d \<and> d_nextReadFileNum d = d_readFileNum d
     \<and> (d_readFile d = None \<or> d_readFile d = Some (d_readFileNum d, d_readPos d))"

definition read_ahead :: "diskQueue \<Rightarrow> bytes \<Rightarrow> bytes list \<Rightarrow> bool" where
  "read_ahead d m ms \<longleftrightarrow> (\<exists>ms'. ms = m # ms')
     \<and> (d_nextReadFileNum d, d_nextReadPos d) = next_pos (d_maxBytesPerFile d) (d_readFileNum d) (d_readPos d) m
     \<and> (d_readFile d = None \<or> d_nextReadFileNum d = d_readFileNum d \<and> d_readFile d = Some (d_readFileNum d, d_nextReadPos d))"

definition io_inv :: "io_state \<Rightarrow> bytes list \<Rightarrow> bool" where
  "io_inv s ms \<longleftrightarrow> dq_inv (io_d s) ms \<and> (not_read (io_d s) \<or> read_ahead (io_d s) (io_dataRead s) ms)"

lemma config_okD: "config_ok d \<Longrightarrow> 0 \<le> d_minMsgSize d" "config_ok d \<Longrightarrow> d_maxMsgSize d < 2 ^ 31"
  by (auto simp: config_ok_def)

text \<open>What only touches other files and flags keeps the invariant.\<close>

lemma dq_inv_cong:
  assumes "dq_inv d ms" "d' = d\<lparr>d_fs := f, d_needSync := b, d_writeFile := wh\<rparr>"
    and "\<And>n. content f (Data n) = content (d_fs d) (Data n)"
      "wh = d_writeFile d \<or> wh = None \<or> wh = Some (d_writeFileNum d, d_writePos d)"
  shows "dq_inv d' ms"
proof -
  have c: "0 \<le> d_minMsgSize d" "d_maxMsgSize d < 2 ^ 31" and p: "stored d = Some ms" "0 \<le> d_readPos d"
    using assms(1) config_okD[of d] by (simp_all add: dq_inv_def)
  have "stored d' = Some ms"
    using pending_frame[OF c p(1)[unfolded stored_def] p(2), of f] assms(3) by (simp add: stored_def assms(2))
  moreover have "config_ok d'" using assms(1) by (simp add: assms(2) dq_inv_def config_ok_def)
  ultimately show ?thesis using assms(1,4) by (auto simp: dq_inv_def assms(2,3))
qed

lemma persist_shape:
  "\<exists>f. snd (persistMetaData F d) = d\<lparr>d_fs := f\<rparr> \<and> (\<forall>n. f (Data n) = d_fs d (Data n))"
proof (cases "f_meta_open F")
  case True
  then show ?thesis by (intro exI[of _ "d_fs d"]) (simp add: persistMetaData_def Let_def)
next
  case False
  let ?t = "MetaTmp (f_rand F)"
  show ?thesis
  proof (cases "f_meta_write F")
    case (Some k)
    then show ?thesis
      using False by (intro exI[of _ "(d_fs d)(?t \<mapsto> write_at 0 (take k (meta_text d)) (content (d_fs d) ?t))"])
        (simp add: persistMetaData_def Let_def)
  next
    case None
    let ?new = "write_at 0 (meta_text d) (content (d_fs d) ?t)"
    show ?thesis
    proof (cases "f_meta_rename F")
      case True
      with None False show ?thesis
        by (intro exI[of _ "(d_fs d)(?t \<mapsto> ?new)"]) (simp add: persistMetaData_def Let_def)
    next
      case nr: False
      with None False show ?thesis
        by (intro exI[of _ "(d_fs d)(?t := None, Meta \<mapsto> ?new)"]) (simp add: persistMetaData_def Let_def)
    qed
  qed
qed

lemma sync_shape:
  "\<exists>f b wh. snd (sync F d) = d\<lparr>d_fs := f, d_needSync := b, d_writeFile := wh\<rparr>
     \<and> (\<forall>n. f (Data n) = d_fs d (Data n)) \<and> (wh = d_writeFile d \<or> wh = None)"
proof -
  obtain f where f: "snd (persistMetaData F d) = d\<lparr>d_fs := f\<rparr>" "\<forall>n. f (Data n) = d_fs d (Data n)"
    using persist_shape by blast
  show ?thesis
  proof (cases "d_writeFile d \<noteq> None \<and> f_sync F")
    case True
    then have "snd (sync F d) = d\<lparr>d_fs := d_fs d, d_needSync := d_needSync d, d_writeFile := None\<rparr>"
      by (simp add: sync_def)
    then show ?thesis by blast
  next
    case False
    then have "\<exists>b. snd (sync F d) = d\<lparr>d_fs := f, d_needSync := b, d_writeFile := d_writeFile d\<rparr>"
      using f(1) unfolding sync_def
      by (cases "persistMetaData F d") (auto split: option.splits intro: exI[of _ "d_needSync d"] exI[of _ False])
    then show ?thesis using f(2) by blast
  qed
qed

lemma content_cong: "f (Data n) = g (Data n) \<Longrightarrow> content f (Data n) = content g (Data n)"
  by (simp add: content_def)

lemma sync_inv: "dq_inv d ms \<Longrightarrow> dq_inv (snd (sync F d)) ms"
  using sync_shape[of F d] by (auto intro: dq_inv_cong content_cong)

lemma sync_frame:
  "d_readPos (snd (sync F d)) = d_readPos d" "d_readFileNum (snd (sync F d)) = d_readFileNum d"
  "d_nextReadPos (snd (sync F d)) = d_nextReadPos d" "d_nextReadFileNum (snd (sync F d)) = d_nextReadFileNum d"
  "d_readFile (snd (sync F d)) = d_readFile d" "d_maxBytesPerFile (snd (sync F d)) = d_maxBytesPerFile d"
  "d_writePos (snd (sync F d)) = d_writePos d" "d_writeFileNum (snd (sync F d)) = d_writeFileNum d"
  "d_minMsgSize (snd (sync F d)) = d_minMsgSize d" "d_maxMsgSize (snd (sync F d)) = d_maxMsgSize d"
  "d_exitFlag (snd (sync F d)) = d_exitFlag d" "d_depth (snd (sync F d)) = d_depth d"
  using sync_shape[of F d] by auto

lemma dq_inv_needSync: "dq_inv d ms \<Longrightarrow> dq_inv (d\<lparr>d_needSync := b\<rparr>) ms"
  by (simp add: dq_inv_def stored_def config_ok_def)

lemma io_sync_frame:
  "io_dataRead (io_sync F s) = io_dataRead s"
  "d_readPos (io_d (io_sync F s)) = d_readPos (io_d s)" "d_readFileNum (io_d (io_sync F s)) = d_readFileNum (io_d s)"
  "d_nextReadPos (io_d (io_sync F s)) = d_nextReadPos (io_d s)" "d_nextReadFileNum (io_d (io_sync F s)) = d_nextReadFileNum (io_d s)"
  "d_readFile (io_d (io_sync F s)) = d_readFile (io_d s)" "d_maxBytesPerFile (io_d (io_sync F s)) = d_maxBytesPerFile (io_d s)"
  "d_writePos (io_d (io_sync F s)) = d_writePos (io_d s)" "d_writeFileNum (io_d (io_sync F s)) = d_writeFileNum (io_d s)"
  "d_minMsgSize (io_d (io_sync F s)) = d_minMsgSize (io_d s)" "d_maxMsgSize (io_d (io_sync F s)) = d_maxMsgSize (io_d s)"
  "d_exitFlag (io_d (io_sync F s)) = d_exitFlag (io_d s)"
  by (simp_all add: io_sync_def Let_def sync_frame)

lemma io_sync_inv: "io_inv s ms \<Longrightarrow> io_inv (io_sync F s) ms"
proof -
  assume a: "io_inv s ms"
  then have "dq_inv (io_d (io_sync F s)) ms"
    by (auto simp: io_inv_def io_sync_def Let_def intro: sync_inv dq_inv_needSync)
  then show ?thesis using a by (simp add: io_inv_def not_read_def read_ahead_def io_sync_frame)
qed

section \<open>Writing\<close>

lemma take_write_at: "off \<le> length c \<Longrightarrow> take off (write_at off x c) = take off c"
  by (simp add: write_at_def)

lemma drop_write_at: "off \<le> length c \<Longrightarrow> take (length x) (drop off (write_at off x c)) = x"
  by (simp add: write_at_def)

lemma length_write_at: "off \<le> length c \<Longrightarrow> off + length x \<le> length (write_at off x c) \<and> off \<le> length (write_at off x c)"
  by (simp add: write_at_def)

lemma content_upd: "content (f(Data n \<mapsto> c)) (Data k) = (if k = n then c else content f (Data k))"
  by (simp add: content_def)

text \<open>The fields of the reading side, and the configuration.\<close>

definition read_side :: "diskQueue \<Rightarrow> int \<times> int \<times> int \<times> int \<times> (int \<times> int) option \<times> int \<times> int \<times> int \<times> int" where
  "read_side d = (d_readPos d, d_readFileNum d, d_nextReadPos d, d_nextReadFileNum d, d_readFile d,
     d_maxBytesPerFile d, d_minMsgSize d, d_maxMsgSize d, d_exitFlag d)"

lemma read_side_sync: "read_side (snd (sync F d)) = read_side d"
  by (simp add: read_side_def sync_frame)

text \<open>The errors with which \<open>writeOne\<close> returns before the message is in the file.\<close>

fun rejects :: "dq_error \<Rightarrow> bool" where
  "rejects EOpen = True"
| "rejects ESeek = True"
| "rejects EWrite = True"
| "rejects (EWriteSize n) = True"
| "rejects _ = False"

lemma sync_error_kinds: "fst (sync F d) = Some e \<Longrightarrow> \<not> rejects e"
  by (auto simp: sync_def persistMetaData_def Let_def split: if_splits option.splits)

lemma open_writer_ok:
  assumes "dq_inv d ms" "open_writer F d = Inr (n, off, d1)"
  shows "n = d_writeFileNum d" "off = d_writePos d" "dq_inv d1 ms" "read_side d1 = read_side d"
    "d_writeFileNum d1 = d_writeFileNum d" "d_writePos d1 = d_writePos d" "d_depth d1 = d_depth d"
    "d_writeFile d1 = Some (d_writeFileNum d, d_writePos d)"
proof -
  have q: "0 \<le> d_writePos d" using assms(1) by (simp add: dq_inv_def)
  have wh: "d_writeFile d = None \<or> d_writeFile d = Some (d_writeFileNum d, d_writePos d)"
    using assms(1) by (simp add: dq_inv_def)
  define f where "f = (if d_writeFile d = None then (d_fs d)(Data (d_writeFileNum d) \<mapsto> content (d_fs d) (Data (d_writeFileNum d))) else d_fs d)"
  have d1: "n = d_writeFileNum d" "off = d_writePos d"
    "d1 = d\<lparr>d_fs := f, d_needSync := d_needSync d, d_writeFile := Some (d_writeFileNum d, d_writePos d)\<rparr>"
    using assms(2) wh q by (auto simp: open_writer_def f_def Let_def split: if_splits)
  show "dq_inv d1 ms"
    by (rule dq_inv_cong[OF assms(1) d1(3)]) (auto simp: f_def content_upd)
  show "n = d_writeFileNum d" "off = d_writePos d" "read_side d1 = read_side d"
    "d_writeFileNum d1 = d_writeFileNum d" "d_writePos d1 = d_writePos d" "d_depth d1 = d_depth d"
    "d_writeFile d1 = Some (d_writeFileNum d, d_writePos d)"
    using d1 by (simp_all add: read_side_def)
qed

lemma create_on_error_ok:
  assumes "dq_inv d ms"
  shows "dq_inv (create_on_error F d) ms" "read_side (create_on_error F d) = read_side d"
proof -
  let ?f = "(d_fs d)(Data (d_writeFileNum d) \<mapsto> content (d_fs d) (Data (d_writeFileNum d)))"
  have "dq_inv (d\<lparr>d_fs := ?f\<rparr>) ms"
    by (rule dq_inv_cong[OF assms, where f = ?f and b = "d_needSync d" and wh = "d_writeFile d"]) (auto simp: content_upd)
  then show "dq_inv (create_on_error F d) ms" using assms by (simp add: create_on_error_def)
  show "read_side (create_on_error F d) = read_side d" by (simp add: create_on_error_def read_side_def)
qed

text \<open>Overwriting from the write position on keeps the stored messages.\<close>

lemma overwrite_inv:
  assumes "dq_inv d ms" "f = (d_fs d)(Data (d_writeFileNum d) \<mapsto> write_at (nat (d_writePos d)) x (content (d_fs d) (Data (d_writeFileNum d))))"
  shows "dq_inv (d\<lparr>d_fs := f, d_writeFile := None\<rparr>) ms"
proof -
  have c: "0 \<le> d_minMsgSize d" "d_maxMsgSize d < 2 ^ 31" and p: "stored d = Some ms" "0 \<le> d_readPos d"
    and l: "nat (d_writePos d) \<le> length (content (d_fs d) (Data (d_writeFileNum d)))"
    using assms(1) config_okD[of d] by (simp_all add: dq_inv_def)
  have "stored (d\<lparr>d_fs := f, d_writeFile := None\<rparr>) = Some ms"
    using pending_frame[OF c p(1)[unfolded stored_def] p(2), of f] l
    by (simp add: stored_def assms(2) content_upd take_write_at)
  then show ?thesis
    using assms(1) length_write_at[OF l, of x] by (simp add: dq_inv_def config_ok_def assms(2) content_upd)
qed

text \<open>A whole message written at the write position is appended.\<close>

lemma append_inv:
  assumes inv: "dq_inv d ms" and m: "d_minMsgSize d \<le> int (length m)" "int (length m) \<le> d_maxMsgSize d"
    and f: "f = (d_fs d)(Data (d_writeFileNum d) \<mapsto> write_at (nat (d_writePos d)) (enc m) (content (d_fs d) (Data (d_writeFileNum d))))"
    and np: "next_pos (d_maxBytesPerFile d) (d_writeFileNum d) (d_writePos d) m = (w', q')"
    and len: "length ms + 1 < 2 ^ 63"
    and d': "d' = d\<lparr>d_fs := f, d_writeFile := wh, d_writeFileNum := w', d_writePos := q', d_depth := int (length ms) + 1\<rparr>"
    and wh: "wh = None \<or> wh = Some (w', q')"
  shows "dq_inv d' (ms @ [m])"
proof -
  let ?w = "d_writeFileNum d" and ?q = "d_writePos d" and ?mx = "d_maxBytesPerFile d"
  have c: "0 \<le> d_minMsgSize d" "d_maxMsgSize d < 2 ^ 31" and p: "stored d = Some ms" "0 \<le> d_readPos d" and cf: "config_ok d"
    and l: "nat ?q \<le> length (content (d_fs d) (Data ?w))" and q: "0 \<le> ?q" "?q \<le> ?mx"
    using inv config_okD[of d] by (simp_all add: dq_inv_def)
  have s: "pending f ?mx (d_minMsgSize d) (d_maxMsgSize d) ?w ?q (d_readFileNum d) (d_readPos d) = Some ms"
    using pending_frame[OF c p(1)[unfolded stored_def] p(2), of f] l by (simp add: f content_upd take_write_at)
  have "decode_at f (d_minMsgSize d) (d_maxMsgSize d) ?w ?q = Some m"
    using decode_at_iff[OF c q(1), of f ?w m] m drop_write_at[OF l, of "enc m"] by (simp add: f content_upd)
  from pending_append[OF c q this np s p(2)] have st: "stored d' = Some (ms @ [m])" by (simp add: stored_def d')
  have "nat q' \<le> length (content f (Data w')) \<and> 0 \<le> q' \<and> q' \<le> ?mx"
  proof (cases rule: next_pos_cases[of ?mx ?w ?q m])
    case stay
    then have "w' = ?w" "q' = ?q + 4 + int (length m)" using np by auto
    moreover have "nat ?q + (4 + length m) \<le> length (content f (Data ?w))"
      using length_write_at[OF l, of "enc m"] by (simp add: f content_upd)
    ultimately show ?thesis using stay q by (simp add: nat_add_distrib add.assoc)
  next
    case roll
    then show ?thesis using np cf by (simp add: config_ok_def)
  qed
  then show ?thesis using inv st len wh by (auto simp: dq_inv_def config_ok_def d')
qed

lemma sync_closed_inv:
  assumes "dq_inv (d\<lparr>d_writeFile := None\<rparr>) ms"
  shows "dq_inv ((snd (sync F d))\<lparr>d_writeFile := None\<rparr>) ms"
proof -
  obtain f b wh where sh: "snd (sync F d) = d\<lparr>d_fs := f, d_needSync := b, d_writeFile := wh\<rparr>"
      "\<forall>n. f (Data n) = d_fs d (Data n)"
    using sync_shape by blast
  show ?thesis
    by (rule dq_inv_cong[OF assms, where f = f and b = b and wh = None]) (use sh in \<open>simp_all add: content_def\<close>)
qed

lemma writeOne_cases:
  assumes inv: "dq_inv d ms" and data: "length data < 2 ^ 31" and len: "length ms + 1 < 2 ^ 63"
  obtains (rejected) e d' where "writeOne F data d = (Some e, d')" "rejects e" "dq_inv d' ms" "read_side d' = read_side d"
  | (queued) e d' where "writeOne F data d = (e, d')" "\<And>x. e = Some x \<Longrightarrow> \<not> rejects x" "dq_inv d' (ms @ [data])"
      "read_side d' = read_side d" "d_minMsgSize d \<le> int (length data)" "int (length data) \<le> d_maxMsgSize d"
proof (cases "open_writer F d")
  case (Inl e)
  then have "rejects e" by (auto simp: open_writer_def Let_def split: option.splits if_splits)
  then show ?thesis
    using rejected[of e "create_on_error F d"] create_on_error_ok[OF inv] Inl by (simp add: writeOne_def writeOne_rolling_def)
next
  case (Inr r)
  obtain n off d1 where r: "r = (n, off, d1)" by (cases r)
  note o = open_writer_ok[OF inv Inr[unfolded r]]
  have dl: "to_int32 (int (length data)) = int (length data)" using data by (intro to_int32_id) auto
  have cfg: "d_minMsgSize d1 = d_minMsgSize d" "d_maxMsgSize d1 = d_maxMsgSize d" "d_maxBytesPerFile d1 = d_maxBytesPerFile d"
    using o(4) by (simp_all add: read_side_def)
  let ?len = "int (length data)" and ?buf = "enc data" and ?old = "content (d_fs d1) (Data (d_writeFileNum d))"
  let ?bad = "?len < d_minMsgSize d \<or> ?len > d_maxMsgSize d"
  show ?thesis
  proof (cases ?bad)
    case True
    then have "writeOne F data d = (Some (EWriteSize ?len), d1)"
      using Inr r dl cfg by (simp add: writeOne_def writeOne_rolling_def Let_def)
    then show ?thesis using rejected o by auto
  next
    case False
    then have rng: "d_minMsgSize d \<le> ?len" "?len \<le> d_maxMsgSize d" by auto
    let ?d2 = "\<lambda>x. d1\<lparr>d_fs := (d_fs d1)(Data (d_writeFileNum d) \<mapsto> write_at (nat (d_writePos d)) x ?old), d_writeFile := None\<rparr>"
    show ?thesis
    proof (cases "f_write F")
      case (Some k)
      then have "writeOne F data d = (Some EWrite, ?d2 (take k ?buf))"
        using Inr r dl cfg o(1,2) False by (simp add: writeOne_def writeOne_rolling_def Let_def enc_def)
      moreover have "dq_inv (?d2 (take k ?buf)) ms"
        using overwrite_inv[OF o(3), of _ "take k ?buf"] o(5,6) by simp
      ultimately show ?thesis using rejected o(4) by (auto simp: read_side_def)
    next
      case None
      have mx: "d_maxMsgSize d < 2 ^ 31 - 4" and dep: "d_depth d = int (length ms)"
        using inv by (simp_all add: dq_inv_def config_ok_def)
      then have t4: "to_int32 (4 + ?len) = 4 + ?len" using rng by (intro to_int32_id) auto
      have t64: "to_int64 (d_depth d1 + 1) = int (length ms) + 1"
        using len o(7) dep by (simp add: to_int64_id)
      define q' where "q' = d_writePos d + (4 + ?len)"
      define d2 where "d2 = d1\<lparr>d_fs := (d_fs d1)(Data (d_writeFileNum d) \<mapsto> write_at (nat (d_writePos d)) ?buf ?old),
        d_writeFile := Some (d_writeFileNum d, q'), d_writePos := q', d_depth := int (length ms) + 1\<rparr>"
      have w: "writeOne F data d = (if q' > d_maxBytesPerFile d
          then case sync F (d2\<lparr>d_writeFileNum := d_writeFileNum d + 1, d_writePos := 0\<rparr>) of (err, d3) \<Rightarrow> (err, d3\<lparr>d_writeFile := None\<rparr>)
          else (None, d2))"
        using Inr r dl cfg o False None t4 t64
        by (simp add: writeOne_def writeOne_rolling_def Let_def enc_def q'_def d2_def)
      show ?thesis
      proof (cases "q' > d_maxBytesPerFile d")
        case True
        let ?d3 = "d2\<lparr>d_writeFileNum := d_writeFileNum d + 1, d_writePos := 0\<rparr>"
        have i3: "dq_inv (?d3\<lparr>d_writeFile := None\<rparr>) (ms @ [data])"
          by (rule append_inv[OF o(3) _ _ refl _ len, where m = data and w' = "d_writeFileNum d + 1" and q' = 0 and wh = None])
            (use rng cfg o(5,6) True in \<open>simp_all add: d2_def q'_def next_pos_def Let_def\<close>)
        obtain err d4 where s4: "sync F ?d3 = (err, d4)" by force
        have "dq_inv (d4\<lparr>d_writeFile := None\<rparr>) (ms @ [data])" using sync_closed_inv[OF i3, of F] s4 by simp
        moreover have "read_side (d4\<lparr>d_writeFile := None\<rparr>) = read_side d"
          using read_side_sync[of F ?d3] s4 o(4) by (simp add: read_side_def d2_def)
        moreover have "writeOne F data d = (err, d4\<lparr>d_writeFile := None\<rparr>)" using w True s4 by simp
        moreover have "\<And>x. err = Some x \<Longrightarrow> \<not> rejects x" using sync_error_kinds[of F ?d3] s4 by auto
        ultimately show ?thesis using queued rng by blast
      next
        case nr: False
        have "dq_inv d2 (ms @ [data])"
          by (rule append_inv[OF o(3) _ _ refl _ len, where m = data and w' = "d_writeFileNum d" and q' = q'
                and wh = "Some (d_writeFileNum d, q')"])
            (use rng cfg o(5,6) nr in \<open>simp_all add: d2_def q'_def next_pos_def Let_def\<close>)
        moreover have "read_side d2 = read_side d" using o(4) by (simp add: read_side_def d2_def)
        moreover have "writeOne F data d = (None, d2)" using w nr by simp
        ultimately show ?thesis using queued rng by blast
      qed
    qed
  qed
qed

section \<open>Reading ahead and moving forward\<close>

lemma read_side_eqD:
  assumes "read_side d' = read_side d"
  shows "d_readPos d' = d_readPos d" "d_readFileNum d' = d_readFileNum d" "d_nextReadPos d' = d_nextReadPos d"
    "d_nextReadFileNum d' = d_nextReadFileNum d" "d_readFile d' = d_readFile d"
    "d_maxBytesPerFile d' = d_maxBytesPerFile d" "d_minMsgSize d' = d_minMsgSize d" "d_maxMsgSize d' = d_maxMsgSize d"
    "d_exitFlag d' = d_exitFlag d"
  using assms by (simp_all add: read_side_def)

lemma dq_inv_readable: "dq_inv d ms \<Longrightarrow> readable d \<longleftrightarrow> ms \<noteq> []"
  using pending_order[of "d_fs d" "d_maxBytesPerFile d" "d_minMsgSize d" "d_maxMsgSize d" "d_writeFileNum d" "d_writePos d"
      "d_readFileNum d" "d_readPos d" ms]
  by (auto simp: dq_inv_def stored_def readable_def)

lemma dq_inv_first:
  assumes "dq_inv d ms" "ms \<noteq> []"
  obtains m ms' where "ms = m # ms'" "decode_at (d_fs d) (d_minMsgSize d) (d_maxMsgSize d) (d_readFileNum d) (d_readPos d) = Some m"
    "pending (d_fs d) (d_maxBytesPerFile d) (d_minMsgSize d) (d_maxMsgSize d) (d_writeFileNum d) (d_writePos d)
       (fst (next_pos (d_maxBytesPerFile d) (d_readFileNum d) (d_readPos d) m))
       (snd (next_pos (d_maxBytesPerFile d) (d_readFileNum d) (d_readPos d) m)) = Some ms'"
proof -
  have p: "pending (d_fs d) (d_maxBytesPerFile d) (d_minMsgSize d) (d_maxMsgSize d) (d_writeFileNum d) (d_writePos d)
       (d_readFileNum d) (d_readPos d) = Some ms" and "0 \<le> d_readPos d"
    using assms(1) by (simp_all add: dq_inv_def stored_def)
  then have "\<not> (d_readFileNum d = d_writeFileNum d \<and> d_readPos d = d_writePos d)"
    using pending_order assms(2) by blast
  from pending_Cons[OF p this] show thesis using that by metis
qed

lemma readOne_ok:
  assumes inv: "dq_inv d ms" and ne: "ms \<noteq> []" and h: "d_readFile d = None \<or> d_readFile d = Some (d_readFileNum d, d_readPos d)"
  shows "\<exists>m d'. readOne no_faults d = (Inr m, d') \<and> dq_inv d' ms \<and> read_ahead d' m ms
    \<and> d_minMsgSize d' = d_minMsgSize d \<and> d_maxMsgSize d' = d_maxMsgSize d \<and> d_exitFlag d' = d_exitFlag d"
proof -
  let ?r = "d_readFileNum d" and ?p = "d_readPos d" and ?mx = "d_maxBytesPerFile d"
  obtain m ms' where m: "ms = m # ms'" and dec: "decode_at (d_fs d) (d_minMsgSize d) (d_maxMsgSize d) ?r ?p = Some m"
    using dq_inv_first[OF inv ne] by metis
  have c: "0 \<le> d_minMsgSize d" "d_maxMsgSize d < 2 ^ 31" "d_maxMsgSize d < 2 ^ 31 - 4" and p: "0 \<le> ?p"
    using inv config_okD[of d] by (simp_all add: dq_inv_def config_ok_def)
  have rng: "int (length m) \<le> d_maxMsgSize d" and bytes: "take (4 + length m) (drop (nat ?p) (content (d_fs d) (Data ?r))) = enc m"
    using decode_at_iff[OF c(1,2) p] dec by blast+
  have "d_fs d (Data ?r) \<noteq> None"
  proof
    assume "d_fs d (Data ?r) = None"
    then have "enc m = []" using bytes by (simp add: content_def)
    then show False by (simp add: enc_def be32_def)
  qed
  then have op: "open_reader no_faults d = Inr (?r, ?p)" using h p by (auto simp: open_reader_def no_faults_def)
  obtain hdr where hdr: "read_full (d_fs d) ?r ?p 4 = Inr hdr" "\<not> (be32_decode hdr < d_minMsgSize d \<or> be32_decode hdr > d_maxMsgSize d)"
      "\<not> be32_decode hdr < 0" "read_full (d_fs d) ?r (?p + 4) (nat (be32_decode hdr)) = Inr m"
    using dec unfolding decode_at_def Let_def by (auto split: sum.splits if_splits)
  have sz: "be32_decode hdr = int (length m)" using hdr(3,4) by (auto simp: read_full_Inr)
  have t4: "to_int32 (4 + int (length m)) = 4 + int (length m)" using c rng by (intro to_int32_id) auto
  define d1 where "d1 = d\<lparr>d_readFile := Some (?r, ?p + 4 + int (length m)), d_nextReadPos := ?p + (4 + int (length m)), d_nextReadFileNum := ?r\<rparr>"
  define d' where "d' = (if ?p + (4 + int (length m)) > ?mx
     then d1\<lparr>d_readFile := None, d_nextReadFileNum := ?r + 1, d_nextReadPos := 0\<rparr> else d1)"
  have "readOne no_faults d = (Inr m, d')"
    using op hdr sz t4 by (simp add: readOne_def no_faults_def Let_def d1_def d'_def)
  moreover have "dq_inv d' ms" using inv by (simp add: dq_inv_def stored_def config_ok_def d'_def d1_def)
  moreover have "read_ahead d' m ms"
    using m by (auto simp: read_ahead_def d'_def d1_def next_pos_def Let_def)
  moreover have "d_minMsgSize d' = d_minMsgSize d" "d_maxMsgSize d' = d_maxMsgSize d" "d_exitFlag d' = d_exitFlag d"
    by (simp_all add: d'_def d1_def)
  ultimately show ?thesis by blast
qed

definition same_config :: "diskQueue \<Rightarrow> diskQueue \<Rightarrow> bool" where
  "same_config d' d \<longleftrightarrow> d_minMsgSize d' = d_minMsgSize d \<and> d_maxMsgSize d' = d_maxMsgSize d \<and> d_exitFlag d' = d_exitFlag d"

text \<open>A round without faults ends in the \<open>select\<close>, with the first message ready exactly when there is one.\<close>

lemma io_round_ok:
  assumes "io_inv s ms"
  shows "\<exists>s'. io_round no_faults s = (Some (ms \<noteq> []), s') \<and> io_inv s' ms
    \<and> (ms \<noteq> [] \<longrightarrow> read_ahead (io_d s') (io_dataRead s') ms) \<and> same_config (io_d s') (io_d s)"
proof -
  let ?s = "io_sync no_faults s"
  let ?d = "io_d ?s"
  have i: "io_inv ?s ms" by (rule io_sync_inv[OF assms])
  then have dq: "dq_inv ?d ms" by (simp add: io_inv_def)
  have cf: "same_config ?d (io_d s)" by (simp add: same_config_def io_sync_frame)
  note rd = dq_inv_readable[OF dq]
  show ?thesis
  proof (cases "ms = []")
    case True
    then have "io_round no_faults s = (Some False, ?s)" using rd by (simp add: io_round_def Let_def)
    then show ?thesis using True i cf by auto
  next
    case ne: False
    show ?thesis
    proof (cases "d_nextReadPos ?d = d_readPos ?d")
      case True
      have "d_readFile ?d = None \<or> d_readFile ?d = Some (d_readFileNum ?d, d_readPos ?d)"
        using i True unfolding io_inv_def not_read_def read_ahead_def by metis
      from readOne_ok[OF dq ne this] obtain m d' where r: "readOne no_faults ?d = (Inr m, d')" "dq_inv d' ms" "read_ahead d' m ms"
          "same_config d' ?d"
        by (auto simp: same_config_def)
      then have "io_round no_faults s = (Some True, ?s\<lparr>io_d := d', io_dataRead := m\<rparr>)"
        using rd ne True by (simp add: io_round_def Let_def)
      then show ?thesis using r ne cf by (auto simp: io_inv_def same_config_def)
    next
      case False
      then have "read_ahead ?d (io_dataRead ?s) ms" using i by (auto simp: io_inv_def not_read_def)
      moreover have "io_round no_faults s = (Some True, ?s)" using rd ne False by (simp add: io_round_def Let_def)
      ultimately show ?thesis using i ne cf by auto
    qed
  qed
qed

lemma checkTail_quiet:
  assumes "dq_inv d ms"
  shows "checkTailCorruption F (d_depth d) d = d"
proof (cases "readable d")
  case True
  then show ?thesis by (simp add: checkTailCorruption_def readable_def)
next
  case False
  then have "ms = []" using dq_inv_readable[OF assms] by simp
  moreover have "0 \<le> d_readPos d" "stored d = Some ms" using assms by (simp_all add: dq_inv_def)
  ultimately have "d_readFileNum d = d_writeFileNum d" "d_readPos d = d_writePos d"
    using pending_order unfolding stored_def by blast+
  then show ?thesis using assms \<open>ms = []\<close> by (simp add: checkTailCorruption_def dq_inv_def)
qed

text \<open>Whether or not the finished file can be removed, the rest of the messages stays.\<close>

lemma moveForward_ok:
  assumes inv: "dq_inv d (m # ms)" and ra: "read_ahead d m (m # ms)"
  shows "dq_inv (moveForward F d) ms" "not_read (moveForward F d)" "same_config (moveForward F d) d"
proof -
  let ?r = "d_readFileNum d" and ?p = "d_readPos d" and ?mx = "d_maxBytesPerFile d"
  let ?r' = "d_nextReadFileNum d" and ?p' = "d_nextReadPos d"
  have np: "next_pos ?mx ?r ?p m = (?r', ?p')" using ra by (simp add: read_ahead_def)
  have c: "0 \<le> d_minMsgSize d" "d_maxMsgSize d < 2 ^ 31" "config_ok d" and p: "0 \<le> ?p" "?p \<le> ?mx"
    using inv config_okD[of d] by (simp_all add: dq_inv_def)
  have rest: "pending (d_fs d) ?mx (d_minMsgSize d) (d_maxMsgSize d) (d_writeFileNum d) (d_writePos d) ?r' ?p' = Some ms"
    using dq_inv_first[OF inv] np by fastforce
  have rp: "0 \<le> ?p'" "?p' \<le> ?mx" "?r' = ?r \<or> ?r' = ?r + 1"
    using np p c by (cases rule: next_pos_cases[of ?mx ?r ?p m]; auto simp: config_ok_def)+
  have le: "?r' \<le> d_writeFileNum d" using pending_order[OF rest rp(1)] by simp
  define f where "f = (if ?r \<noteq> ?r' \<and> \<not> f_remove F (Data ?r) then (d_fs d)(Data ?r := None) else d_fs d)"
  have keep: "content f (Data n) = content (d_fs d) (Data n)" if "?r' \<le> n" for n
    using that rp(3) by (auto simp: f_def content_def)
  define d2 where "d2 = d\<lparr>d_readFileNum := ?r', d_readPos := ?p', d_depth := int (length ms),
     d_needSync := (if ?r \<noteq> ?r' then True else d_needSync d), d_fs := f\<rparr>"
  have dep: "d_depth d = int (length ms) + 1" "length ms + 1 < 2 ^ 63" using inv by (simp_all add: dq_inv_def)
  then have t64: "to_int64 (d_depth d - 1) = int (length ms)" by (simp add: to_int64_id)
  have "pending f ?mx (d_minMsgSize d) (d_maxMsgSize d) (d_writeFileNum d) (d_writePos d) ?r' ?p' = Some ms"
    using pending_frame[OF c(1,2) rest rp(1), of f] keep le by simp
  then have i2: "dq_inv d2 ms"
    using inv c rp dep keep[OF le] by (simp add: dq_inv_def stored_def config_ok_def d2_def)
  have "moveForward F d = checkTailCorruption F (d_depth d2) d2"
    using t64 by (simp add: moveForward_def Let_def d2_def f_def)
  then have mf: "moveForward F d = d2" using checkTail_quiet[OF i2] by simp
  show "dq_inv (moveForward F d) ms" "same_config (moveForward F d) d"
    using mf i2 by (simp_all add: same_config_def d2_def)
  show "not_read (moveForward F d)"
    using ra by (auto simp: mf not_read_def read_ahead_def d2_def)
qed

section \<open>The operations of the interface\<close>

lemma sync_no_faults: "fst (sync no_faults d) = None"
  by (simp add: sync_def persistMetaData_def no_faults_def Let_def)

lemma writeOne_no_faults:
  assumes "d_minMsgSize d \<le> int (length data)" "int (length data) \<le> d_maxMsgSize d" "length data < 2 ^ 31"
  shows "fst (writeOne no_faults data d) = None"
proof -
  have dl: "to_int32 (int (length data)) = int (length data)" using assms(3) by (intro to_int32_id) auto
  obtain n off d1 where o: "open_writer no_faults d = Inr (n, off, d1)" "d_minMsgSize d1 = d_minMsgSize d" "d_maxMsgSize d1 = d_maxMsgSize d"
    by (cases "d_writeFile d") (auto simp: open_writer_def no_faults_def Let_def)
  have "f_write no_faults = None" by (simp add: no_faults_def)
  then show ?thesis
    using o dl assms(1,2) sync_no_faults
    by (simp add: writeOne_def writeOne_rolling_def Let_def split: prod.splits) (metis fst_conv)
qed

lemma Put_one:
  assumes inv: "io_inv s ms" and ex: "d_exitFlag (io_d s) \<noteq> 1" and f0: "Fs 0 = no_faults"
    and data: "length data < 2 ^ 31" and len: "length ms + 1 < 2 ^ 63"
  obtains (rejected) e s' where "Put 1 Fs data s = Some (Some e, s')" "rejects e" "io_inv s' ms" "same_config (io_d s') (io_d s)"
      "Fs 1 = no_faults \<longrightarrow> \<not> (d_minMsgSize (io_d s) \<le> int (length data) \<and> int (length data) \<le> d_maxMsgSize (io_d s))"
  | (queued) e s' where "Put 1 Fs data s = Some (e, s')" "\<And>x. e = Some x \<Longrightarrow> \<not> rejects x" "io_inv s' (ms @ [data])"
      "same_config (io_d s') (io_d s)" "Fs 1 = no_faults \<longrightarrow> e = None"
      "d_minMsgSize (io_d s) \<le> int (length data)" "int (length data) \<le> d_maxMsgSize (io_d s)"
proof -
  obtain s1 where s1: "io_round no_faults s = (Some (ms \<noteq> []), s1)" "io_inv s1 ms" "same_config (io_d s1) (io_d s)"
    using io_round_ok[OF inv] by blast
  then have dq: "dq_inv (io_d s1) ms" by (simp add: io_inv_def)
  have put: "Put 1 Fs data s = (case writeOne (Fs 1) data (io_d s1) of (e, d) \<Rightarrow>
      Some (e, s1\<lparr>io_count := io_count s1 + 1, io_d := d\<rparr>))"
    using ex s1(1) f0 by (simp add: Put_def io_select_def io_serve_def split: prod.splits)
  have keep: "io_inv (s1\<lparr>io_count := c, io_d := d\<rparr>) ms'" "same_config d (io_d s)"
    if "dq_inv d ms'" "read_side d = read_side (io_d s1)" "ms' = ms \<or> ms' = ms @ [data]" for c d ms'
    using that s1(2,3) read_side_eqD[OF that(2)]
    by (auto simp: io_inv_def not_read_def read_ahead_def same_config_def)
  show thesis
    using dq data len
  proof (cases rule: writeOne_cases[where F = "Fs 1"])
    case (rejected e d')
    have "Fs 1 = no_faults \<longrightarrow> \<not> (d_minMsgSize (io_d s) \<le> int (length data) \<and> int (length data) \<le> d_maxMsgSize (io_d s))"
      using rejected(1) writeOne_no_faults[of "io_d s1" data] data s1(3) by (auto simp: same_config_def)
    then show ?thesis using that(1) put rejected keep[OF rejected(3,4)] by simp
  next
    case (queued e d')
    have "Fs 1 = no_faults \<longrightarrow> e = None"
      using queued(1,5,6) writeOne_no_faults[of "io_d s1" data] data by auto
    then show ?thesis using that(2) put queued keep[OF queued(3,4)] s1(3) by (simp add: same_config_def)
  qed
qed

lemma receive_one:
  assumes inv: "io_inv s ms" and f0: "Fs 0 = no_faults"
  shows "case ms of [] \<Rightarrow> receive 1 Fs s = None
    | m # ms' \<Rightarrow> \<exists>s'. receive 1 Fs s = Some (m, s') \<and> io_inv s' ms' \<and> same_config (io_d s') (io_d s)"
proof -
  obtain s1 where s1: "io_round no_faults s = (Some (ms \<noteq> []), s1)" "io_inv s1 ms" "same_config (io_d s1) (io_d s)"
      "ms \<noteq> [] \<Longrightarrow> read_ahead (io_d s1) (io_dataRead s1) ms"
    using io_round_ok[OF inv] by blast
  show ?thesis
  proof (cases ms)
    case Nil
    then show ?thesis using s1(1) f0 by (simp add: receive_def io_select_def io_serve_def)
  next
    case (Cons m ms')
    then have ra: "read_ahead (io_d s1) (io_dataRead s1) (m # ms')" and m: "io_dataRead s1 = m"
      using s1(4) by (auto simp: read_ahead_def)
    note mf = moveForward_ok[of "io_d s1" m ms' "Fs 1"]
    have "dq_inv (io_d s1) (m # ms')" using s1(2) Cons by (simp add: io_inv_def)
    with mf ra m have mv: "dq_inv (moveForward (Fs 1) (io_d s1)) ms'" "not_read (moveForward (Fs 1) (io_d s1))"
        "same_config (moveForward (Fs 1) (io_d s1)) (io_d s1)" by auto
    have "receive 1 Fs s = Some (m, s1\<lparr>io_count := io_count s1 + 1, io_d := moveForward (Fs 1) (io_d s1)\<rparr>)"
      using s1(1) f0 Cons m by (simp add: receive_def io_select_def io_serve_def)
    then show ?thesis using mv s1(3) Cons by (auto simp: io_inv_def same_config_def)
  qed
qed

section \<open>The FIFO contract\<close>

definition dq_put :: "bytes \<Rightarrow> io_state \<Rightarrow> dq_error option + io_state" where
  "dq_put m s = (case Put 1 (\<lambda>_. no_faults) m s of
     Some (None, s') \<Rightarrow> Inr s' | Some (Some e, s') \<Rightarrow> Inl (Some e) | None \<Rightarrow> Inl None)"

definition dq_get :: "io_state \<Rightarrow> dq_error option + (bytes \<times> io_state)" where
  "dq_get s = (case receive 1 (\<lambda>_. no_faults) s of Some (m, s') \<Rightarrow> Inr (m, s') | None \<Rightarrow> Inl None)"

definition dq_contents :: "io_state \<Rightarrow> bytes list" where
  "dq_contents s = (case stored (io_d s) of Some ms \<Rightarrow> ms | None \<Rightarrow> [])"

definition dq_open :: "int \<Rightarrow> int \<Rightarrow> io_state \<Rightarrow> bool" where
  "dq_open lo hi s \<longleftrightarrow> io_inv s (dq_contents s) \<and> d_minMsgSize (io_d s) = lo \<and> d_maxMsgSize (io_d s) = hi \<and> d_exitFlag (io_d s) \<noteq> 1"

lemma io_inv_contents: "io_inv s ms \<Longrightarrow> dq_contents s = ms"
  by (simp add: io_inv_def dq_inv_def dq_contents_def)

lemma dq_openI:
  "io_inv s' ms \<Longrightarrow> same_config (io_d s') (io_d s) \<Longrightarrow> dq_open lo hi s \<Longrightarrow> dq_open lo hi s' \<and> dq_contents s' = ms"
  using io_inv_contents[of s' ms] by (simp add: dq_open_def same_config_def)

lemma dq_open_small: "dq_open lo hi s \<Longrightarrow> hi < 2 ^ 31"
  by (auto simp: dq_open_def io_inv_def dq_inv_def config_ok_def)

interpretation dq: fifo dq_put dq_get dq_contents "dq_open lo hi"
  "\<lambda>m. lo \<le> int (length m) \<and> int (length m) \<le> hi" "Some (2 ^ 63 - 1)" for lo hi
proof (unfold_locales, goal_cases)
  case (1 s x)
  then have inv: "io_inv s (dq_contents s)" and ex: "d_exitFlag (io_d s) \<noteq> 1" by (simp_all add: dq_open_def)
  have data: "length x < 2 ^ 31" using 1(2) dq_open_small[OF 1(1)] by auto
  have len: "length (dq_contents s) + 1 < 2 ^ 63" using 1(3) by (simp add: up_to_def)
  show ?case
  proof (rule Put_one[where Fs = "\<lambda>_. no_faults", OF inv ex refl data len], goal_cases)
    case r: (1 e s')
    then show ?thesis using 1 by (simp add: dq_open_def)
  next
    case q: (2 e s')
    then show ?thesis using 1(1) dq_openI by (auto simp: dq_put_def)
  qed
next
  case (2 s x xs)
  then show ?case
    using receive_one[of s "x # xs" "\<lambda>_. no_faults"] dq_openI by (auto simp: dq_open_def dq_get_def)
next
  case (3 s)
  then show ?case using receive_one[of s "[]" "\<lambda>_. no_faults"] by (simp add: dq_open_def dq_get_def)
qed

end
