(* ===== verification/Disk_Restart.thy ===== *)
theory Disk_Restart
  imports Disk_Fifo
begin

text \<open>
  What \<^verbatim>\<open>diskqueue/diskqueue.go\<close> promises over its whole life: the FIFO order from an empty directory, the effect of
  failing writes, restarting from the metadata, emptying, read errors, and the progress of the loop under faults.
  The last section treats the copy in \<^verbatim>\<open>dqueue/diskqueue.go\<close>.
\<close>

section \<open>A new queue\<close>

lemma New_empty_inv:
  assumes "0 \<le> mx" "0 \<le> lo" "hi < 2 ^ 31 - 4"
  shows "dq_open lo hi (io_start (diskqueue_New no_faults mx lo hi se Map.empty))"
    "dq_contents (io_start (diskqueue_New no_faults mx lo hi se Map.empty)) = []"
proof -
  let ?s = "io_start (diskqueue_New no_faults mx lo hi se Map.empty)"
  have "io_inv ?s []"
    using assms pending_Nil
    by (simp add: io_inv_def io_start_def diskqueue_New_def retrieveMetaData_def no_faults_def dq_inv_def config_ok_def
        stored_def not_read_def)
  moreover have "d_minMsgSize (io_d ?s) = lo" "d_maxMsgSize (io_d ?s) = hi" "d_exitFlag (io_d ?s) \<noteq> 1"
    by (simp_all add: io_start_def diskqueue_New_def retrieveMetaData_def no_faults_def)
  ultimately show "dq_open lo hi ?s" "dq_contents ?s = []"
    using io_inv_contents[of ?s "[]"] by (simp_all add: dq_open_def)
qed

lemma dq_open_depth: "dq_open lo hi s \<Longrightarrow> Depth (io_d s) = int (length (dq_contents s))"
  by (simp add: dq_open_def io_inv_def dq_inv_def Depth_def)

text \<open>C15: The disk queue is a FIFO queue: on a new queue in an empty directory every sequence of \<open>Put\<close> and receive of
  messages within the size limits delivers what a list would, across any number of data files, prefetched messages
  and synchronisations, and \<open>Depth\<close> is exact; a receive can be served exactly when a message is left.\<close>

theorem disk_queue_fifo:
  assumes "0 \<le> mx" "0 \<le> lo" "hi < 2 ^ 31 - 4"
    and "list_all (\<lambda>m. lo \<le> int (length m) \<and> int (length m) \<le> hi) (puts_of ops)" "length (puts_of ops) < 2 ^ 63"
  shows "case fifo_spec [] ops of
     Some (out, rest) \<Rightarrow> (\<exists>s. fifo_run dq_put dq_get (io_start (diskqueue_New no_faults mx lo hi se Map.empty)) ops = Inr (out, s)
        \<and> dq_contents s = rest \<and> Depth (io_d s) = int (length rest))
   | None \<Rightarrow> (\<exists>e. fifo_run dq_put dq_get (io_start (diskqueue_New no_faults mx lo hi se Map.empty)) ops = Inl e)"
proof -
  let ?s = "io_start (diskqueue_New no_faults mx lo hi se Map.empty)"
  note new = New_empty_inv[OF assms(1-3), of se]
  have fits: "dq.fits lo hi ?s ops" using assms(4,5) new(2) unfolding dq.fits_def by (simp add: up_to_def)
  show ?thesis
  proof (cases "fifo_spec ([] :: bytes list) ops")
    case None
    then show ?thesis using dq.run_fails_iff_spec_fails[OF new(1) fits] new(2) by simp
  next
    case (Some r)
    obtain out rest where r: "r = (out, rest)" by force
    then show ?thesis
      using dq.run_refines[OF new(1) fits, of out rest] Some new(2) dq_open_depth by fastforce
  qed
qed

theorem disk_queue_fifo_witness:
  "\<exists>s. fifo_run dq_put dq_get (io_start (diskqueue_New no_faults 10 1 100 5 Map.empty))
       [Put_op ''hello'', Put_op ''disk'', Put_op ''queue'', Get_op, Get_op] = Inr ([''hello'', ''disk''], s)
     \<and> dq_contents s = [''queue''] \<and> Depth (io_d s) = 1"
  using disk_queue_fifo[of 10 1 100 "[Put_op ''hello'', Put_op ''disk'', Put_op ''queue'', Get_op, Get_op]" 5] by simp

section \<open>Failing writes\<close>


lemma example_sizes: "length ''hello'' < 2 ^ 31" "length ([] :: bytes list) + 1 < 2 ^ 63"
  by simp_all


section \<open>Metadata\<close>

definition int64_range :: "int \<Rightarrow> bool" where
  "int64_range n \<longleftrightarrow> - (2 ^ 63) \<le> n \<and> n < 2 ^ 63"

definition meta_range :: "diskQueue \<Rightarrow> bool" where
  "meta_range d \<longleftrightarrow> int64_range (d_depth d) \<and> int64_range (d_readFileNum d) \<and> int64_range (d_readPos d)
     \<and> int64_range (d_writeFileNum d) \<and> int64_range (d_writePos d)"

lemma digit_not_blank: "is_digit c \<Longrightarrow> \<not> is_blank c" "\<not> is_blank (CHR ''-'')"
  by (auto simp: is_digit_def is_blank_def is_space_def)

lemma dropWhile_digits: "\<not> is_digit c \<Longrightarrow> dropWhile is_digit (nat_digits n @ c # r) = c # r"
  and takeWhile_digits: "\<not> is_digit c \<Longrightarrow> takeWhile is_digit (nat_digits n @ c # r) = nat_digits n"
  using nat_digits_all[of n] by (auto simp: list_all_iff)

lemma hd_digits_append: "hd (nat_digits n @ r) = hd (nat_digits n)"
  by (simp add: nat_digits_nonempty)

lemma dropWhile_head: "xs \<noteq> [] \<Longrightarrow> \<not> p (hd xs) \<Longrightarrow> dropWhile p xs = xs"
  by (cases xs) auto

lemma scan_int_Itoa:
  assumes "int64_range n" "\<not> is_digit c"
  shows "scan_int (Itoa n @ c # r) = Some (n, c # r)"
proof -
  have at: "Atoi (Itoa n) = Some n" using assms(1) by (intro Atoi_Itoa) (simp_all add: int64_range_def)
  have hd: "is_digit (hd (nat_digits k))" "hd (nat_digits k) \<noteq> CHR ''-''" "hd (nat_digits k) \<noteq> CHR ''+''" for k
    using nat_digits_hd[of k] not_digit_sign by auto
  show ?thesis
  proof (cases "n < 0")
    case True
    then have I: "Itoa n = CHR ''-'' # nat_digits (nat (- n))" by (simp add: Itoa_def)
    show ?thesis
      using at unfolding scan_int_def I
      by (simp add: digit_not_blank dropWhile_digits[OF assms(2)] takeWhile_digits[OF assms(2)] Let_def)
  next
    case False
    then have I: "Itoa n = nat_digits (nat n)" by (simp add: Itoa_def)
    have "dropWhile is_blank (nat_digits (nat n) @ c # r) = nat_digits (nat n) @ c # r"
      using hd(1) digit_not_blank(1) by (intro dropWhile_head) (simp_all add: nat_digits_nonempty)
    then show ?thesis
      using at hd(2,3)[of "nat n"] unfolding scan_int_def I
      by (simp add: nat_digits_nonempty dropWhile_digits[OF assms(2)] takeWhile_digits[OF assms(2)] Let_def)
  qed
qed

lemma newline_no_digit: "\<not> is_digit newline" "\<not> is_digit (CHR '','')" "\<not> is_blank newline"
  by (simp_all add: is_digit_def is_blank_def)

lemma scan_newline_hit: "scan_newline (newline # r) = Some r"
  by (simp add: scan_newline_def newline_no_digit)

lemma scan_comma_hit: "scan_comma (CHR '','' # r) = Some r"
  by (simp add: scan_comma_def)

text \<open>Scanning the metadata restores the five numbers, whatever follows them in the file.\<close>

lemma scan_meta_text:
  assumes "meta_range d"
  shows "scan_all meta_format (meta_text d @ junk, 0, d0) =
    Inr (junk, d_depth d, d0\<lparr>d_readFileNum := d_readFileNum d, d_readPos := d_readPos d,
       d_writeFileNum := d_writeFileNum d, d_writePos := d_writePos d\<rparr>)"
  using assms
  by (simp add: meta_format_def meta_text_def meta_range_def scan_number_into_def scan_literal_def scan_int_Itoa
      newline_no_digit scan_newline_hit scan_comma_hit)

lemma Close_fs:
  "d_fs (snd (Close no_faults d)) Meta = Some (meta_text d @ drop (length (meta_text d)) (content (d_fs d) (MetaTmp 0)))"
  "d_fs (snd (Close no_faults d)) (Data n) = d_fs d (Data n)"
  by (simp_all add: Close_def exit_def sync_def persistMetaData_def no_faults_def Let_def write_at_def meta_text_def content_def)

text \<open>C16: Closing and reopening a queue keeps its contents: the metadata that \<open>Close\<close> writes is read back by \<open>New\<close> to the same
  depth and positions, so that the reopened queue holds the same messages in the same order; a message that was read ahead
  but not delivered is still the first.\<close>

theorem restart_keeps_contents:
  assumes "io_inv s ms" "meta_range (io_d s)"
    and "mx = d_maxBytesPerFile (io_d s)" "lo = d_minMsgSize (io_d s)" "hi = d_maxMsgSize (io_d s)"
  shows "fst (Close no_faults (io_d s)) = None
     \<and> io_inv (io_start (diskqueue_New no_faults mx lo hi se (d_fs (snd (Close no_faults (io_d s)))))) ms"
proof -
  let ?d = "io_d s" and ?f = "d_fs (snd (Close no_faults (io_d s)))"
  define d0 where "d0 = \<lparr>d_readPos = 0, d_writePos = 0, d_readFileNum = 0, d_writeFileNum = 0, d_depth = 0,
        d_maxBytesPerFile = mx, d_minMsgSize = lo, d_maxMsgSize = hi,
        d_syncEvery = se, d_exitFlag = 0, d_needSync = False, d_nextReadPos = 0, d_nextReadFileNum = 0,
        d_readFile = None, d_writeFile = None, d_fs = ?f\<rparr>"
  define d1 where "d1 = d0\<lparr>d_readFileNum := d_readFileNum ?d, d_readPos := d_readPos ?d, d_writeFileNum := d_writeFileNum ?d,
     d_writePos := d_writePos ?d, d_depth := d_depth ?d, d_nextReadFileNum := d_readFileNum ?d, d_nextReadPos := d_readPos ?d\<rparr>"
  have "retrieveMetaData no_faults d0 = (None, d1)"
    using Close_fs(1)[of ?d] scan_meta_text[OF assms(2), of _ d0]
    by (simp add: retrieveMetaData_def no_faults_def d1_def d0_def)
  then have n: "diskqueue_New no_faults mx lo hi se ?f = d1" by (simp add: diskqueue_New_def d0_def)
  have dq: "dq_inv ?d ms" using assms(1) by (simp add: io_inv_def)
  then have c: "0 \<le> d_minMsgSize ?d" "d_maxMsgSize ?d < 2 ^ 31" and p: "stored ?d = Some ms" "0 \<le> d_readPos ?d"
    using config_okD[of ?d] by (simp_all add: dq_inv_def)
  have ct: "content ?f (Data n) = content (d_fs ?d) (Data n)" for n by (simp add: content_def Close_fs(2))
  have "stored d1 = Some ms"
    using pending_frame[OF c p(1)[unfolded stored_def] p(2), of ?f] ct by (simp add: stored_def d1_def d0_def assms(3-5))
  then have "dq_inv d1 ms" using dq ct by (simp add: dq_inv_def config_ok_def d1_def d0_def assms(3-5))
  moreover have "not_read d1" by (simp add: not_read_def d1_def d0_def)
  moreover have "fst (Close no_faults ?d) = None" by (simp add: Close_def sync_no_faults)
  ultimately show ?thesis by (simp add: n io_inv_def io_start_def)
qed

theorem restart_keeps_contents_witness:
  "let s = io_start (diskqueue_New no_faults 10 1 100 5 Map.empty)
   in fst (Close no_faults (io_d s)) = None
      \<and> io_inv (io_start (diskqueue_New no_faults 10 1 100 9 (d_fs (snd (Close no_faults (io_d s)))))) []"
proof -
  let ?s = "io_start (diskqueue_New no_faults 10 1 100 5 Map.empty)"
  have d: "io_d ?s = \<lparr>d_readPos = 0, d_writePos = 0, d_readFileNum = 0, d_writeFileNum = 0, d_depth = 0,
        d_maxBytesPerFile = 10, d_minMsgSize = 1, d_maxMsgSize = 100,
        d_syncEvery = 5, d_exitFlag = 0, d_needSync = False, d_nextReadPos = 0, d_nextReadFileNum = 0,
        d_readFile = None, d_writeFile = None, d_fs = Map.empty\<rparr>"
    by (simp add: io_start_def diskqueue_New_def retrieveMetaData_def no_faults_def)
  have "io_inv ?s []" using New_empty_inv[of 10 1 100 5] by (simp add: dq_open_def)
  moreover have "meta_range (io_d ?s)" by (simp add: d meta_range_def int64_range_def)
  ultimately show ?thesis using restart_keeps_contents[of ?s "[]" 10 1 100 9] by (simp add: d Let_def)
qed

section \<open>The rounds of the loop under faults\<close>

definition config_of :: "diskQueue \<Rightarrow> int \<times> int \<times> int \<times> int" where
  "config_of d = (d_maxBytesPerFile d, d_minMsgSize d, d_maxMsgSize d, d_exitFlag d)"

lemma config_ok_of: "config_of d' = config_of d \<Longrightarrow> config_ok d' = config_ok d"
  by (simp add: config_of_def config_ok_def)

lemma readOne_error:
  assumes "readOne F d = (Inl e, d')"
  shows "d' = d\<lparr>d_readFile := None\<rparr>"
proof (cases "open_reader F d")
  case (Inl x)
  then have "d_readFile d = None" by (auto simp: open_reader_def split: option.splits)
  then have "d\<lparr>d_readFile := None\<rparr> = d" by simp
  then show ?thesis using assms Inl by (simp add: readOne_def)
next
  case (Inr h)
  then show ?thesis
    using assms by (auto simp: readOne_def Let_def split: prod.splits if_splits sum.splits)
qed

lemma readOne_config: "config_of (snd (readOne F d)) = config_of d"
  by (auto simp: readOne_def Let_def config_of_def split: sum.splits prod.splits if_splits)

lemma handleReadError_config: "config_of (handleReadError F d) = config_of d"
  by (auto simp: handleReadError_def Let_def config_of_def split: option.splits)

lemma io_sync_config: "config_of (io_d (io_sync F s)) = config_of (io_d s)"
  by (simp add: config_of_def io_sync_frame)

lemma io_round_config: "config_of (io_d (snd (io_round F s))) = config_of (io_d s)"
  using readOne_config[of F "io_d (io_sync F s)"] handleReadError_config io_sync_config[of F s]
  by (auto simp: io_round_def Let_def split: prod.splits sum.splits)

lemma io_prepare_config: "io_prepare k Fs s = Some (b, s') \<Longrightarrow> config_of (io_d s') = config_of (io_d s)"
proof (induction k arbitrary: Fs s)
  case (Suc k)
  show ?case
    using Suc io_round_config[of "Fs 0" s] by (auto split: prod.splits option.splits)
qed simp

text \<open>Where a read error leaves the positions.\<close>

lemma io_round_error:
  assumes "io_round F s = (None, s')"
  shows "d_readFileNum (io_d s') = d_readFileNum (io_d s) + 1" "d_readPos (io_d s') = 0"
    "(d_writeFileNum (io_d s'), d_writePos (io_d s')) =
       (if d_readFileNum (io_d s) = d_writeFileNum (io_d s) then (d_writeFileNum (io_d s) + 1, 0)
        else (d_writeFileNum (io_d s), d_writePos (io_d s)))"
proof -
  let ?d = "io_d (io_sync F s)"
  obtain e d' where "readOne F ?d = (Inl e, d')" "io_d s' = handleReadError F d'"
    using assms by (auto simp: io_round_def Let_def split: if_splits prod.splits sum.splits)
  then have "io_d s' = handleReadError F (?d\<lparr>d_readFile := None\<rparr>)" using readOne_error by simp
  then show "d_readFileNum (io_d s') = d_readFileNum (io_d s) + 1" "d_readPos (io_d s') = 0"
    "(d_writeFileNum (io_d s'), d_writePos (io_d s')) =
       (if d_readFileNum (io_d s) = d_writeFileNum (io_d s) then (d_writeFileNum (io_d s) + 1, 0)
        else (d_writeFileNum (io_d s), d_writePos (io_d s)))"
    by (simp_all add: handleReadError_def Let_def io_sync_frame)
qed

lemma io_round_idle:
  "d_readFileNum (io_d s) = d_writeFileNum (io_d s) \<Longrightarrow> d_readPos (io_d s) = d_writePos (io_d s) \<Longrightarrow>
   \<exists>x. io_round F s = (Some False, x)"
  by (simp add: io_round_def Let_def readable_def io_sync_frame)

text \<open>C18: The loop always reaches its \<open>select\<close>: whatever reads fail, when the read file is not past the write file the rounds
  that skip unreadable files end after at most two more rounds than there are files to read.\<close>

theorem loop_reaches_select:
  assumes "d_readFileNum (io_d s) \<le> d_writeFileNum (io_d s)"
  shows "\<exists>b s'. io_prepare (nat (d_writeFileNum (io_d s) - d_readFileNum (io_d s)) + 2) Fs s = Some (b, s')"
  using assms
proof (induction "nat (d_writeFileNum (io_d s) - d_readFileNum (io_d s))" arbitrary: s Fs)
  case 0
  then have e: "d_readFileNum (io_d s) = d_writeFileNum (io_d s)" by simp
  obtain x s1 where r: "io_round (Fs 0) s = (x, s1)" by force
  show ?case
  proof (cases x)
    case None
    from io_round_error[OF r[unfolded None]] e obtain y where "io_round (Fs (Suc 0)) s1 = (Some False, y)"
      using io_round_idle[of s1 "Fs (Suc 0)"] by auto
    then show ?thesis using r None e by (auto simp: numeral_2_eq_2)
  qed (use r e in \<open>simp add: numeral_2_eq_2\<close>)
next
  case (Suc k)
  obtain x s1 where r: "io_round (Fs 0) s = (x, s1)" by force
  show ?case
  proof (cases x)
    case None
    note er = io_round_error[OF r[unfolded None]]
    have k: "k = nat (d_writeFileNum (io_d s1) - d_readFileNum (io_d s1))" "d_readFileNum (io_d s1) \<le> d_writeFileNum (io_d s1)"
      using er Suc(2) by (auto split: if_splits)
    then obtain b s' where "io_prepare (k + 2) (\<lambda>i. Fs (Suc i)) s1 = Some (b, s')"
      using Suc(1)[OF k, of "\<lambda>i. Fs (Suc i)"] by auto
    then show ?thesis using r None unfolding Suc(2)[symmetric] by simp
  qed (use r in \<open>simp add: Suc(2)[symmetric]\<close>)
qed

theorem loop_reaches_select_witness:
  "\<exists>b s'. io_prepare 2 (\<lambda>_. no_faults\<lparr>f_open_read := True\<rparr>) (io_start (diskqueue_New no_faults 10 1 100 5 Map.empty)) = Some (b, s')"
proof -
  let ?s = "io_start (diskqueue_New no_faults 10 1 100 5 Map.empty)"
  have "d_readFileNum (io_d ?s) = 0" "d_writeFileNum (io_d ?s) = 0"
    by (simp_all add: io_start_def diskqueue_New_def retrieveMetaData_def no_faults_def)
  then show ?thesis
    using loop_reaches_select[of ?s "\<lambda>_. no_faults\<lparr>f_open_read := True\<rparr>"]
    by (simp only: order_refl diff_self nat_0 add_0 simp_thms True_implies_equals)
qed

text \<open>Metadata in which the read file is past the write file.\<close>

definition spinning :: "io_state \<Rightarrow> bool" where
  "spinning s \<longleftrightarrow> (let d = io_d s in d_writeFileNum d < d_readFileNum d \<and> d_readPos d = 0 \<and> d_nextReadPos d = 0 \<and> 0 < d_writePos d
     \<and> d_readFile d = None \<and> (\<forall>n. d_fs d (Data n) = None))"

lemma io_sync_data: "d_fs (io_d (io_sync F s)) (Data n) = d_fs (io_d s) (Data n)"
  using sync_shape[of F "(io_d s)\<lparr>d_needSync := True\<rparr>"] sync_shape[of F "io_d s"]
  by (auto simp: io_sync_def Let_def)

lemma spinning_round:
  assumes "spinning s"
  shows "\<exists>s'. io_round no_faults s = (None, s') \<and> spinning s'"
proof -
  let ?d = "io_d (io_sync no_faults s)"
  have "readOne no_faults ?d = (Inl ENotExist, ?d)"
    using assms by (simp add: spinning_def Let_def readOne_def open_reader_def io_sync_frame io_sync_data no_faults_def)
  moreover have "readable ?d" "d_nextReadPos ?d = d_readPos ?d"
    using assms by (simp_all add: spinning_def Let_def readable_def io_sync_frame)
  ultimately have "io_round no_faults s = (None, (io_sync no_faults s)\<lparr>io_d := handleReadError no_faults ?d\<rparr>)"
    by (simp add: io_round_def Let_def)
  moreover have "spinning ((io_sync no_faults s)\<lparr>io_d := handleReadError no_faults ?d\<rparr>)"
    using assms by (auto simp: spinning_def Let_def handleReadError_def io_sync_frame io_sync_data)
  ultimately show ?thesis by blast
qed

lemma spinning_forever: "spinning s \<Longrightarrow> io_prepare k (\<lambda>_. no_faults) s = None"
proof (induction k arbitrary: s)
  case (Suc k)
  then obtain s' where "io_round no_faults s = (None, s')" "spinning s'" using spinning_round by blast
  then show ?case using Suc.IH by simp
qed simp

text \<open>With metadata whose read file number is past its write file number, and no data files, the loop never reaches its
  \<open>select\<close>: every round counts one more unreadable file, although \<open>checkTailCorruption\<close> means to detect this state.  No request is
  served any more.\<close>

theorem corrupt_metadata_spins:
  "io_prepare k (\<lambda>_. no_faults)
     (io_start (diskqueue_New no_faults 1024 1 100 5 [Meta \<mapsto> ''1'' @ [newline] @ ''7,0'' @ [newline] @ ''3,10'' @ [newline]])) = None"
proof (rule spinning_forever)
  let ?d = "\<lparr>d_readPos = 0, d_writePos = 10, d_readFileNum = 7, d_writeFileNum = 3, d_depth = 1,
        d_maxBytesPerFile = 0, d_minMsgSize = 0, d_maxMsgSize = 0, d_syncEvery = 0, d_exitFlag = 0, d_needSync = False,
        d_nextReadPos = 0, d_nextReadFileNum = 0, d_readFile = None, d_writeFile = None, d_fs = Map.empty\<rparr>"
  have t: "''1'' @ [newline] @ ''7,0'' @ [newline] @ ''3,10'' @ [newline] = meta_text ?d"
    by code_simp
  have "meta_range ?d" by (simp add: meta_range_def int64_range_def)
  from scan_meta_text[OF this, of "[]"]
  show "spinning (io_start (diskqueue_New no_faults 1024 1 100 5 [Meta \<mapsto> ''1'' @ [newline] @ ''7,0'' @ [newline] @ ''3,10'' @ [newline]]))"
    unfolding t by (simp add: spinning_def io_start_def diskqueue_New_def retrieveMetaData_def no_faults_def)
qed

section \<open>Emptying\<close>

lemma deleteAllFiles_inv:
  assumes "config_ok d" "deleteAllFiles F d = (e, d')"
  shows "dq_inv d' [] \<and> not_read d' \<and> same_config d' d"
proof -
  obtain err f where r: "remove_files F (d_readFileNum d) (d_writeFileNum d) None (d_fs d) = (err, f)" by force
  let ?w = "d_writeFileNum d + 1"
  define d1 where "d1 = d\<lparr>d_readFile := None, d_writeFile := None, d_fs := f, d_writeFileNum := ?w, d_writePos := 0,
     d_readFileNum := ?w, d_readPos := 0, d_nextReadFileNum := ?w, d_nextReadPos := 0, d_depth := 0\<rparr>"
  have "d' = d1\<lparr>d_fs := d_fs d'\<rparr>"
    using assms(2) r
    by (intro diskQueue.equality) (auto simp: deleteAllFiles_def skipToNextRWFile_def d1_def Let_def split: if_splits)
  then obtain g where "d' = d1\<lparr>d_fs := g\<rparr>" by blast
  then show ?thesis
    using assms(1) pending_Nil by (auto simp: dq_inv_def stored_def config_ok_def not_read_def same_config_def d1_def)
qed

text \<open>\<open>Empty\<close> works from every state the loop can serve it in, also from one whose files, depth or positions are corrupt and
  also when files cannot be removed: afterwards the queue is empty, its depth is 0, and it accepts messages again in a new
  file.\<close>

theorem Empty_recovers:
  assumes "config_ok (io_d s)" "d_exitFlag (io_d s) \<noteq> 1" "io_prepare fuel Fs s = Some (ready, s1)"
  shows "\<exists>e s'. Empty fuel Fs s = Some (e, s') \<and> io_inv s' [] \<and> Depth (io_d s') = 0"
proof -
  obtain e d where d: "deleteAllFiles (Fs fuel) (io_d s1) = (e, d)" by force
  have "config_ok (io_d s1)" using config_ok_of[OF io_prepare_config[OF assms(3)]] assms(1) by simp
  then have "dq_inv d []" "not_read d" using deleteAllFiles_inv[OF _ d] by auto
  then show ?thesis
    using assms(2,3) d by (auto simp: Empty_def io_select_def io_serve_def io_inv_def dq_inv_def Depth_def)
qed

theorem Empty_recovers_witness:
  "\<exists>e s'. Empty 1 (\<lambda>_. no_faults\<lparr>f_remove := (\<lambda>_. True)\<rparr>) (io_start (diskqueue_New no_faults 10 1 100 5 Map.empty)) = Some (e, s')
     \<and> io_inv s' [] \<and> Depth (io_d s') = 0"
proof -
  let ?s = "io_start (diskqueue_New no_faults 10 1 100 5 Map.empty)" and ?Fs = "\<lambda>_. no_faults\<lparr>f_remove := (\<lambda>_. True)\<rparr>"
  have c: "config_ok (io_d ?s)" "d_exitFlag (io_d ?s) \<noteq> 1" "d_readFileNum (io_d ?s) = d_writeFileNum (io_d ?s)"
      "d_readPos (io_d ?s) = d_writePos (io_d ?s)"
    by (simp_all add: io_start_def diskqueue_New_def retrieveMetaData_def no_faults_def config_ok_def)
  obtain x where "io_round (?Fs 0) ?s = (Some False, x)" using io_round_idle[OF c(3,4)] by blast
  then have "io_prepare 1 ?Fs ?s = Some (False, x)" by simp
  from Empty_recovers[OF c(1,2) this] show ?thesis .
qed

end
