(* ===== verification/Dqueue_Copy.thy ===== *)
theory Dqueue_Copy
  imports Disk_Restart
begin

text \<open>
  The second copy of the disk queue, \<^verbatim>\<open>dqueue/diskqueue.go\<close>.  Most of its functions are, up to comments, the same statements as in
  \<^verbatim>\<open>diskqueue/diskqueue.go\<close> and are defined to be those of the original.  Three places differ: \<open>writeOne\<close> starts a new
  file when the limit is reached and not only when it is passed, the loop prints what it reads, and its \<open>select\<close> has a case for a
  second ticker whose body is commented out.
\<close>

section \<open>The functions of the copy\<close>

definition dqueue_persistMetaData :: "faults \<Rightarrow> diskQueue \<Rightarrow> dq_error option \<times> diskQueue" where
  "dqueue_persistMetaData = persistMetaData"

definition dqueue_retrieveMetaData :: "faults \<Rightarrow> diskQueue \<Rightarrow> dq_error option \<times> diskQueue" where
  "dqueue_retrieveMetaData = retrieveMetaData"

definition dqueue_sync :: "faults \<Rightarrow> diskQueue \<Rightarrow> dq_error option \<times> diskQueue" where
  "dqueue_sync = sync"

definition dqueue_readOne :: "faults \<Rightarrow> diskQueue \<Rightarrow> (dq_error + bytes) \<times> diskQueue" where
  "dqueue_readOne = readOne"

definition dqueue_skipToNextRWFile :: "faults \<Rightarrow> diskQueue \<Rightarrow> dq_error option \<times> diskQueue" where
  "dqueue_skipToNextRWFile = skipToNextRWFile"

definition dqueue_deleteAllFiles :: "faults \<Rightarrow> diskQueue \<Rightarrow> dq_error option \<times> diskQueue" where
  "dqueue_deleteAllFiles = deleteAllFiles"

definition dqueue_checkTailCorruption :: "faults \<Rightarrow> int \<Rightarrow> diskQueue \<Rightarrow> diskQueue" where
  "dqueue_checkTailCorruption = checkTailCorruption"

definition dqueue_moveForward :: "faults \<Rightarrow> diskQueue \<Rightarrow> diskQueue" where
  "dqueue_moveForward = moveForward"

definition dqueue_handleReadError :: "faults \<Rightarrow> diskQueue \<Rightarrow> diskQueue" where
  "dqueue_handleReadError = handleReadError"

definition dqueue_exit :: "diskQueue \<Rightarrow> diskQueue" where
  "dqueue_exit = exit"

definition dqueue_Depth :: "diskQueue \<Rightarrow> int" where
  "dqueue_Depth = Depth"

definition dqueue_Close :: "faults \<Rightarrow> diskQueue \<Rightarrow> dq_error option \<times> diskQueue" where
  "dqueue_Close F d = dqueue_sync F (dqueue_exit d)"

definition dqueue_Delete :: "diskQueue \<Rightarrow> dq_error option \<times> diskQueue" where
  "dqueue_Delete d = (None, dqueue_exit d)"

text \<open>\<open>New\<close> has one more argument, the interval of the second ticker.\<close>

definition dqueue_New :: "faults \<Rightarrow> int \<Rightarrow> int \<Rightarrow> int \<Rightarrow> int \<Rightarrow> int \<Rightarrow> fs \<Rightarrow> diskQueue" where
  "dqueue_New F maxBytesPerFile minMsgSize maxMsgSize syncEvery readTimeout f = diskqueue_New F maxBytesPerFile minMsgSize maxMsgSize syncEvery f"

lemmas dqueue_same [simp] = dqueue_persistMetaData_def dqueue_retrieveMetaData_def dqueue_sync_def dqueue_readOne_def dqueue_skipToNextRWFile_def dqueue_deleteAllFiles_def dqueue_checkTailCorruption_def dqueue_moveForward_def dqueue_handleReadError_def dqueue_exit_def dqueue_Depth_def

definition dqueue_writeOne :: "faults \<Rightarrow> bytes \<Rightarrow> diskQueue \<Rightarrow> dq_error option \<times> diskQueue" where
  "dqueue_writeOne = writeOne_rolling (\<lambda>pos most. pos \<ge> most)"

text \<open>The requests of the loop, with the second ticker.\<close>

datatype dqueue_request = Request io_request | ReadTick

text \<open>A round up to the \<open>select\<close>, with the lines it prints.\<close>

definition dqueue_round :: "faults \<Rightarrow> io_state \<Rightarrow> bool option \<times> string list \<times> io_state" where
  "dqueue_round F s =
     (let s1 = io_sync F s; d = io_d s1
      in if readable d
         then if d_nextReadPos d = d_readPos d
              then case dqueue_readOne F d of
                     (Inl e, d1) \<Rightarrow> (None, [], s1\<lparr>io_d := dqueue_handleReadError F d1\<rparr>)
                   | (Inr m, d1) \<Rightarrow> (Some True, [''read message'' @ m], s1\<lparr>io_d := d1, io_dataRead := m\<rparr>)
              else (Some True, [], s1)
         else (Some False, [], s1))"

fun dqueue_prepare :: "nat \<Rightarrow> (nat \<Rightarrow> faults) \<Rightarrow> io_state \<Rightarrow> (bool \<times> string list \<times> io_state) option" where
  "dqueue_prepare 0 Fs s = None"
| "dqueue_prepare (Suc k) Fs s =
     (case dqueue_round (Fs 0) s of
        (Some ready, out, s1) \<Rightarrow> Some (ready, out, s1)
      | (None, _, s1) \<Rightarrow> dqueue_prepare k (\<lambda>i. Fs (Suc i)) s1)"

definition dqueue_select :: "faults \<Rightarrow> bool \<Rightarrow> dqueue_request \<Rightarrow> io_state \<Rightarrow> (io_response \<times> io_state) option" where
  "dqueue_select F ready req s =
     (case req of
        Request r \<Rightarrow> io_serve dqueue_writeOne F ready r s
      | ReadTick \<Rightarrow> Some (Ticked, s))"

definition dqueue_Put :: "nat \<Rightarrow> (nat \<Rightarrow> faults) \<Rightarrow> bytes \<Rightarrow> io_state \<Rightarrow> (dq_error option \<times> io_state) option" where
  "dqueue_Put fuel Fs data s =
     (if d_exitFlag (io_d s) = 1 then Some (Some EExiting, s)
      else case dqueue_prepare fuel Fs s of
             None \<Rightarrow> None
           | Some (ready, _, s1) \<Rightarrow>
               (case dqueue_select (Fs fuel) ready (Request (WriteReq data)) s1 of
                  Some (Written e, s2) \<Rightarrow> Some (e, s2)
                | _ \<Rightarrow> None))"

definition dqueue_Empty :: "nat \<Rightarrow> (nat \<Rightarrow> faults) \<Rightarrow> io_state \<Rightarrow> (dq_error option \<times> io_state) option" where
  "dqueue_Empty fuel Fs s =
     (if d_exitFlag (io_d s) = 1 then Some (Some EExiting, s)
      else case dqueue_prepare fuel Fs s of
             None \<Rightarrow> None
           | Some (ready, _, s1) \<Rightarrow>
               (case dqueue_select (Fs fuel) ready (Request EmptyReq) s1 of
                  Some (Emptied e, s2) \<Rightarrow> Some (e, s2)
                | _ \<Rightarrow> None))"

definition dqueue_receive :: "nat \<Rightarrow> (nat \<Rightarrow> faults) \<Rightarrow> io_state \<Rightarrow> (bytes \<times> io_state) option" where
  "dqueue_receive fuel Fs s =
     (case dqueue_prepare fuel Fs s of
        None \<Rightarrow> None
      | Some (ready, _, s1) \<Rightarrow>
          (case dqueue_select (Fs fuel) ready (Request Receive) s1 of
             Some (Delivered m, s2) \<Rightarrow> Some (m, s2)
           | _ \<Rightarrow> None))"

section \<open>The two packages agree unless a file is filled exactly\<close>

lemma dqueue_round_io: "dqueue_round F s = (b, out, s') \<Longrightarrow> io_round F s = (b, s')"
  by (auto simp: dqueue_round_def io_round_def Let_def split: if_splits prod.splits sum.splits)

lemma dqueue_prepare_io:
  "io_prepare k Fs s = (case dqueue_prepare k Fs s of None \<Rightarrow> None | Some (b, _, s') \<Rightarrow> Some (b, s'))"
proof (induction k arbitrary: Fs s)
  case (Suc k)
  obtain b out s' where "dqueue_round (Fs 0) s = (b, out, s')" by (cases "dqueue_round (Fs 0) s")
  with dqueue_round_io[OF this] Suc.IH show ?case by (simp split: option.splits)
qed simp

definition fills_exactly :: "bytes \<Rightarrow> diskQueue \<Rightarrow> bool" where
  "fills_exactly data d \<longleftrightarrow> d_writePos d + to_int32 (4 + to_int32 (int (length data))) = d_maxBytesPerFile d"

lemma open_writer_frame:
  "open_writer F d = Inr (n, off, d1) \<Longrightarrow> d_writePos d1 = d_writePos d \<and> d_maxBytesPerFile d1 = d_maxBytesPerFile d"
  by (auto simp: open_writer_def Let_def split: option.splits if_splits)

lemma dqueue_writeOne_same: "\<not> fills_exactly data d \<Longrightarrow> dqueue_writeOne F data d = writeOne F data d"
  unfolding dqueue_writeOne_def writeOne_def writeOne_rolling_def
  by (auto simp: Let_def fills_exactly_def dest!: open_writer_frame split: sum.splits option.splits)


abbreviation dq_new :: "int \<Rightarrow> int \<Rightarrow> int \<Rightarrow> int \<Rightarrow> io_state" where
  "dq_new mx lo hi se \<equiv> io_start (diskqueue_New no_faults mx lo hi se Map.empty)"

lemma dq_new_eq:
  "dq_new mx lo hi se = \<lparr>io_d = \<lparr>d_readPos = 0, d_writePos = 0, d_readFileNum = 0, d_writeFileNum = 0, d_depth = 0,
        d_maxBytesPerFile = mx, d_minMsgSize = lo, d_maxMsgSize = hi, d_syncEvery = se, d_exitFlag = 0, d_needSync = False,
        d_nextReadPos = 0, d_nextReadFileNum = 0, d_readFile = None, d_writeFile = None, d_fs = Map.empty\<rparr>,
      io_count = 0, io_dataRead = []\<rparr>"
  by (simp add: io_start_def diskqueue_New_def retrieveMetaData_def no_faults_def)


section \<open>A file that is filled exactly\<close>

text \<open>The states after the message is written, and after it is delivered.\<close>

definition filled :: "bytes \<Rightarrow> int \<Rightarrow> int \<Rightarrow> int \<Rightarrow> fs \<Rightarrow> io_state" where
  "filled data lo hi se f = \<lparr>io_d = \<lparr>d_readPos = 0, d_writePos = 0, d_readFileNum = 0, d_writeFileNum = 1, d_depth = 1,
        d_maxBytesPerFile = 4 + int (length data), d_minMsgSize = lo, d_maxMsgSize = hi, d_syncEvery = se, d_exitFlag = 0,
        d_needSync = False, d_nextReadPos = 0, d_nextReadFileNum = 0, d_readFile = None, d_writeFile = None, d_fs = f\<rparr>,
      io_count = 1, io_dataRead = []\<rparr>"

definition delivered :: "bytes \<Rightarrow> int \<Rightarrow> int \<Rightarrow> int \<Rightarrow> fs \<Rightarrow> io_state" where
  "delivered data lo hi se f = \<lparr>io_d = \<lparr>d_readPos = 4 + int (length data), d_writePos = 0, d_readFileNum = 0, d_writeFileNum = 1,
        d_depth = 0, d_maxBytesPerFile = 4 + int (length data), d_minMsgSize = lo, d_maxMsgSize = hi, d_syncEvery = se,
        d_exitFlag = 0, d_needSync = False, d_nextReadPos = 4 + int (length data), d_nextReadFileNum = 0,
        d_readFile = Some (0, 4 + int (length data)), d_writeFile = None, d_fs = f\<rparr>,
      io_count = 2, io_dataRead = data\<rparr>"

definition exact :: "bytes \<Rightarrow> int \<Rightarrow> int \<Rightarrow> int \<Rightarrow> bool" where
  "exact data lo hi se \<longleftrightarrow> 0 \<le> lo \<and> lo \<le> int (length data) \<and> int (length data) \<le> hi \<and> hi < 2147483644 \<and> 2 < se"

lemma exact_small:
  assumes "exact data lo hi se"
  shows "to_int32 (int (length data)) = int (length data)" "to_int32 (4 + int (length data)) = 4 + int (length data)"
  using assms by (simp_all add: to_int32_def exact_def)

lemma no_faults_sel:
  "f_open_read no_faults = False" "f_seek_read no_faults = False" "f_read_size no_faults = False" "f_read_body no_faults = False"
  "f_open_write no_faults = False" "f_seek_write no_faults = False" "f_write no_faults = None" "f_sync no_faults = False"
  "f_meta_open no_faults = False" "f_meta_write no_faults = None" "f_meta_rename no_faults = False" "f_rename_bad no_faults = False"
  by (simp_all add: no_faults_def)

lemma put_fills:
  assumes "exact data lo hi se"
  shows "\<exists>f. dqueue_Put 1 (\<lambda>_. no_faults) data (dq_new (4 + int (length data)) lo hi se) = Some (None, filled data lo hi se f)
     \<and> f (Data 0) = Some (enc data) \<and> f (Bad 0) = None"
  using assms exact_small[OF assms]
  by (simp add: dqueue_Put_def dq_new_eq dqueue_round_def io_sync_def readable_def Let_def dqueue_select_def io_serve_def
      dqueue_writeOne_def writeOne_rolling_def open_writer_def no_faults_sel content_def write_at_def enc_def
      sync_def persistMetaData_def to_int64_def filled_def exact_def)

lemma deliver_filled:
  assumes "exact data lo hi se" "f (Data 0) = Some (enc data)"
  shows "dqueue_receive 1 (\<lambda>_. no_faults) (filled data lo hi se f) = Some (data, delivered data lo hi se f)"
proof -
  have "be32_decode (be32 (int (length data))) = int (length data)"
    using assms(1) by (intro be32_round_trip) (simp_all add: exact_def)
  then show ?thesis
    using assms exact_small[OF assms(1)]
    by (simp add: dqueue_receive_def filled_def dqueue_round_def io_sync_def readable_def Let_def dqueue_select_def io_serve_def
        readOne_def open_reader_def no_faults_sel read_full_def content_def enc_def moveForward_def
        checkTailCorruption_def to_int64_def delivered_def exact_def)
qed

lemma bad_delivered:
  assumes "exact data lo hi se" "f (Data 0) = Some (enc data)"
  shows "\<exists>s. dqueue_prepare 2 (\<lambda>_. no_faults) (delivered data lo hi se f) = Some (False, [], s)
     \<and> d_fs (io_d s) (Data 0) = None \<and> d_fs (io_d s) (Bad 0) = Some (enc data) \<and> Depth (io_d s) = 0"
  using assms
  by (simp add: delivered_def numeral_2_eq_2 dqueue_round_def io_sync_def readable_def Let_def 
        readOne_def open_reader_def no_faults_sel read_full_def content_def enc_def exact_def handleReadError_def
        sync_def persistMetaData_def Depth_def)

text \<open>When a message fills a data file exactly, \<open>dqueue\<close> starts a new file but its reader, whose \<open>readOne\<close> tests for
  \<open>>\<close>, stays in the full one: after the message is written and delivered, the next round of the loop reads past the end of the intact
  file, takes the error for corruption and renames the file to \<open>.bad\<close> instead of removing it.  No message is
  lost.\<close>

theorem dqueue_exact_fill:
  assumes "0 \<le> lo" "lo \<le> int (length data)" "int (length data) \<le> hi" "hi < 2147483644" "2 < se"
  shows "\<exists>s1 s2 s3. dqueue_Put 1 (\<lambda>_. no_faults) data (dq_new (4 + int (length data)) lo hi se) = Some (None, s1)
     \<and> dqueue_receive 1 (\<lambda>_. no_faults) s1 = Some (data, s2)
     \<and> dqueue_prepare 2 (\<lambda>_. no_faults) s2 = Some (False, [], s3)
     \<and> d_fs (io_d s3) (Data 0) = None \<and> d_fs (io_d s3) (Bad 0) = Some (enc data) \<and> Depth (io_d s3) = 0"
proof -
  have e: "exact data lo hi se" using assms by (simp add: exact_def)
  with put_fills[OF e] deliver_filled[OF e] bad_delivered[OF e] show ?thesis by blast
qed

theorem dqueue_exact_fill_witness:
  "\<exists>s1 s2 s3. dqueue_Put 1 (\<lambda>_. no_faults) ''hello'' (dq_new (4 + int (length ''hello'')) 1 100 5) = Some (None, s1)
     \<and> dqueue_receive 1 (\<lambda>_. no_faults) s1 = Some (''hello'', s2)
     \<and> dqueue_prepare 2 (\<lambda>_. no_faults) s2 = Some (False, [], s3)
     \<and> d_fs (io_d s3) (Data 0) = None \<and> d_fs (io_d s3) (Bad 0) = Some (enc ''hello'') \<and> Depth (io_d s3) = 0"
  by (rule dqueue_exact_fill) simp_all

end
