(* ===== verification/Registry.thy ===== *)
theory Registry
  imports Prelude "HOL-Library.AList" "HOL-Library.Multiset" "HOL-Library.Word"
begin

text \<open>
  The service registry of \<^verbatim>\<open>registry/registry.go\<close>.  The program shares \<open>Application\<close> and \<open>Instance\<close> objects by pointer: an
  instance given to \<open>Register\<close> is the object the registry keeps and \<open>Renew\<close> mutates.  The model has a heap for each type, addressed
  by numbers, and the maps hold addresses.  The map of instances is an association list with distinct keys,
  since \<open>GetInstance\<close> ranges over it; the order in which Go ranges over a map is an argument of the definitions.  The clock is
  an argument too.  Each operation is written as the composition of the sections it executes under a lock.
\<close>

unbundle bit_operations_syntax

section \<open>Data\<close>

record Instance =
  i_Env :: string
  i_AppID :: string
  i_Hostname :: string
  i_Addrs :: "string list"
  i_Version :: string
  i_Status :: "32 word"
  i_RegTimestamp :: int
  i_UpTimestamp :: int
  i_RenewTimestamp :: int
  i_DirtyTimestamp :: int
  i_LatestTimestamp :: int

record Application =
  a_appid :: string
  a_instances :: "(string \<times> nat) list"
  a_latestTimestamp :: int

text \<open>The registry, with the heaps its pointers lead to and the next free address of each.\<close>

record Registry =
  r_apps :: "string \<rightharpoonup> nat"
  r_app :: "nat \<Rightarrow> Application"
  r_ins :: "nat \<Rightarrow> Instance"
  r_nextapp :: nat
  r_nextins :: nat

record RequestRegister =
  q_Env :: string
  q_AppId :: string
  q_Hostname :: string
  q_Addrs :: "string list"
  q_Status :: "32 word"
  q_Version :: string
  q_LatestTimestamp :: int

record FetchData =
  fd_Instances :: "Instance list"
  fd_LatestTimestamp :: int

datatype reg_error = NotFound | NotModified

definition NewInstance :: "int \<Rightarrow> RequestRegister \<Rightarrow> Instance" where
  "NewInstance now req =
     \<lparr>i_Env = q_Env req, i_AppID = q_AppId req, i_Hostname = q_Hostname req, i_Addrs = q_Addrs req,
      i_Version = q_Version req, i_Status = q_Status req, i_RegTimestamp = now, i_UpTimestamp = now,
      i_RenewTimestamp = now, i_DirtyTimestamp = now, i_LatestTimestamp = now\<rparr>"

definition NewApplication :: "string \<Rightarrow> Application" where
  "NewApplication appid = \<lparr>a_appid = appid, a_instances = [], a_latestTimestamp = 0\<rparr>"

definition no_instance :: Instance where
  "no_instance = \<lparr>i_Env = [], i_AppID = [], i_Hostname = [], i_Addrs = [], i_Version = [], i_Status = 0, i_RegTimestamp = 0,
     i_UpTimestamp = 0, i_RenewTimestamp = 0, i_DirtyTimestamp = 0, i_LatestTimestamp = 0\<rparr>"

definition NewRegistry :: Registry where
  "NewRegistry = \<lparr>r_apps = Map.empty, r_app = (\<lambda>_. NewApplication []), r_ins = (\<lambda>_. no_instance),
     r_nextapp = 0, r_nextins = 0\<rparr>"

text \<open>Allocation: a new object at the next free address.\<close>

definition alloc_ins :: "Instance \<Rightarrow> Registry \<Rightarrow> nat \<times> Registry" where
  "alloc_ins x r = (r_nextins r, r\<lparr>r_ins := (r_ins r)(r_nextins r := x), r_nextins := r_nextins r + 1\<rparr>)"

definition alloc_app :: "Application \<Rightarrow> Registry \<Rightarrow> nat \<times> Registry" where
  "alloc_app x r = (r_nextapp r, r\<lparr>r_app := (r_app r)(r_nextapp r := x), r_nextapp := r_nextapp r + 1\<rparr>)"

definition getKey :: "string \<Rightarrow> string \<Rightarrow> string" where
  "getKey appid env = appid @ '':'' @ env"

section \<open>Registering\<close>

definition upLatestTimestamp :: "int \<Rightarrow> Application \<Rightarrow> Application" where
  "upLatestTimestamp ts app = app\<lparr>a_latestTimestamp := ts\<rparr>"

text \<open>\<open>AddInstance\<close> writes the up-time of the registered instance into its argument also when it then keeps the registered one.\<close>

definition AddInstance :: "nat \<Rightarrow> nat \<Rightarrow> int \<Rightarrow> Registry \<Rightarrow> Instance \<times> bool \<times> Registry" where
  "AddInstance a i ts r =
     (let app = r_app r a; host = i_Hostname (r_ins r i);
          found = map_of (a_instances app) host;
          r1 = (case found of
                  None \<Rightarrow> r
                | Some old \<Rightarrow> r\<lparr>r_ins := (r_ins r)(i := (r_ins r i)\<lparr>i_UpTimestamp := i_UpTimestamp (r_ins r old)\<rparr>)\<rparr>);
          i1 = (case found of
                  None \<Rightarrow> i
                | Some old \<Rightarrow> if i_DirtyTimestamp (r_ins r1 i) < i_DirtyTimestamp (r_ins r1 old) then old else i);
          app1 = upLatestTimestamp ts (app\<lparr>a_instances := AList.update (i_Hostname (r_ins r1 i1)) i1 (a_instances app)\<rparr>)
      in (r_ins r1 i1, found = None, r1\<lparr>r_app := (r_app r1)(a := app1)\<rparr>))"

definition Register_lookup :: "nat \<Rightarrow> Registry \<Rightarrow> nat \<times> Registry" where
  "Register_lookup i r =
     (let ins = r_ins r i
      in case r_apps r (getKey (i_AppID ins) (i_Env ins)) of
           Some a \<Rightarrow> (a, r)
         | None \<Rightarrow> alloc_app (NewApplication (i_AppID ins)) r)"

definition Register_store :: "string \<Rightarrow> nat \<Rightarrow> Registry \<Rightarrow> Registry" where
  "Register_store key a r = r\<lparr>r_apps := (r_apps r)(key \<mapsto> a)\<rparr>"

definition Register :: "nat \<Rightarrow> int \<Rightarrow> Registry \<Rightarrow> nat \<times> Registry" where
  "Register i ts r =
     (let key = getKey (i_AppID (r_ins r i)) (i_Env (r_ins r i))
      in case Register_lookup i r of
           (a, r1) \<Rightarrow> (case AddInstance a i ts r1 of (_, _, r2) \<Rightarrow> (a, Register_store key a r2)))"

section \<open>Fetching\<close>

definition getApplication :: "string \<Rightarrow> string \<Rightarrow> Registry \<Rightarrow> nat option" where
  "getApplication appid env r = r_apps r (getKey appid env)"

definition copyInstance :: "Instance \<Rightarrow> Instance" where
  "copyInstance src =
     src\<lparr>i_Addrs := foldl (\<lambda>dst i. dst[i := i_Addrs src ! i]) (replicate (length (i_Addrs src)) []) [0..<length (i_Addrs src)]\<rparr>"

definition GetInstance :: "((string \<times> nat) list \<Rightarrow> (string \<times> nat) list) \<Rightarrow> nat \<Rightarrow> 32 word \<Rightarrow> int \<Rightarrow> Registry
    \<Rightarrow> reg_error + FetchData" where
  "GetInstance order a status latestTime r =
     (let app = r_app r a
      in if latestTime \<ge> a_latestTimestamp app then Inl NotModified
         else let found = filter (\<lambda>(_, i). status AND i_Status (r_ins r i) > 0) (order (a_instances app))
              in if found = [] then Inl NotFound
                 else Inr \<lparr>fd_Instances = map (\<lambda>(_, i). copyInstance (r_ins r i)) found,
                           fd_LatestTimestamp = a_latestTimestamp app\<rparr>)"

definition Fetch :: "((string \<times> nat) list \<Rightarrow> (string \<times> nat) list) \<Rightarrow> string \<Rightarrow> string \<Rightarrow> 32 word \<Rightarrow> int \<Rightarrow> Registry
    \<Rightarrow> reg_error + FetchData" where
  "Fetch order env appid status latestTime r =
     (case getApplication appid env r of
        None \<Rightarrow> Inl NotFound
      | Some a \<Rightarrow> GetInstance order a status latestTime r)"

section \<open>Cancelling and renewing\<close>

definition Application_Cancel :: "nat \<Rightarrow> string \<Rightarrow> int \<Rightarrow> Registry \<Rightarrow> (Instance \<times> nat) option \<times> Registry" where
  "Application_Cancel a host ts r =
     (let app = r_app r a
      in case map_of (a_instances app) host of
           None \<Rightarrow> (None, r)
         | Some i \<Rightarrow>
             let rest = AList.delete host (a_instances app);
                 r1 = r\<lparr>r_ins := (r_ins r)(i := (r_ins r i)\<lparr>i_LatestTimestamp := ts\<rparr>),
                        r_app := (r_app r)(a := upLatestTimestamp ts (app\<lparr>a_instances := rest\<rparr>))\<rparr>
             in (Some (r_ins r1 i, length rest), r1))"

definition Cancel_delete :: "string \<Rightarrow> Registry \<Rightarrow> Registry" where
  "Cancel_delete key r = r\<lparr>r_apps := (r_apps r)(key := None)\<rparr>"

definition Cancel :: "string \<Rightarrow> string \<Rightarrow> string \<Rightarrow> int \<Rightarrow> Registry \<Rightarrow> (reg_error + Instance) \<times> Registry" where
  "Cancel env appid host ts r =
     (case getApplication appid env r of
        None \<Rightarrow> (Inl NotFound, r)
      | Some a \<Rightarrow>
          (case Application_Cancel a host ts r of
             (None, r1) \<Rightarrow> (Inl NotFound, r1)
           | (Some (ins, n), r1) \<Rightarrow> (Inr ins, if n = 0 then Cancel_delete (getKey appid env) r1 else r1)))"

definition Application_Renew :: "nat \<Rightarrow> string \<Rightarrow> int \<Rightarrow> Registry \<Rightarrow> Instance option \<times> Registry" where
  "Application_Renew a host now r =
     (case map_of (a_instances (r_app r a)) host of
        None \<Rightarrow> (None, r)
      | Some i \<Rightarrow>
          let r1 = r\<lparr>r_ins := (r_ins r)(i := (r_ins r i)\<lparr>i_RenewTimestamp := now\<rparr>)\<rparr>
          in (Some (copyInstance (r_ins r1 i)), r1))"

definition Renew :: "string \<Rightarrow> string \<Rightarrow> string \<Rightarrow> int \<Rightarrow> Registry \<Rightarrow> (reg_error + Instance) \<times> Registry" where
  "Renew env appid host now r =
     (case getApplication appid env r of
        None \<Rightarrow> (Inl NotFound, r)
      | Some a \<Rightarrow>
          (case Application_Renew a host now r of
             (None, r1) \<Rightarrow> (Inl NotFound, r1)
           | (Some ins, r1) \<Rightarrow> (Inr ins, r1)))"

text \<open>A request as \<open>main\<close> serves it: the instance is created and registered.\<close>

definition register_request :: "int \<Rightarrow> RequestRegister \<Rightarrow> Registry \<Rightarrow> nat \<times> Registry" where
  "register_request now req r =
     (case alloc_ins (NewInstance now req) r of (i, r1) \<Rightarrow> Register i (q_LatestTimestamp req) r1)"

definition registry_main :: "int \<Rightarrow> int \<Rightarrow> (reg_error + FetchData) \<times> Registry" where
  "registry_main now1 now2 =
     (let req = \<lparr>q_Env = ''dev'', q_AppId = ''com.xx.testapp'', q_Hostname = ''myhost'',
                 q_Addrs = [''http://testapp.xx.com/myhost''], q_Status = 1, q_Version = [], q_LatestTimestamp = now1\<rparr>;
          r1 = snd (register_request now2 req NewRegistry);
          data = Fetch (\<lambda>xs. xs) (q_Env req) (q_AppId req) (q_Status req) 0 r1
      in case data of
           Inl e \<Rightarrow> (Inl e, r1)
         | Inr d \<Rightarrow> (Inr d, snd (Cancel (q_Env req) (q_AppId req) (q_Hostname req) 0 r1)))"

end
