(* ===== verification/Registry_Spec.thy ===== *)
theory Registry_Spec
  imports Registry
begin

text \<open>
  The registry refines a directory: a map from application key and host name to instances, with a time stamp for each application
  that has instances.  The invariant says that the heap is not shared: different keys have different applications, and
  an instance is in at most one of them, under its own host name.
\<close>

section \<open>The directory\<close>

type_synonym directory = "(string \<times> string \<rightharpoonup> Instance) \<times> (string \<rightharpoonup> int)"

datatype reg_op =
    RegisterOp int RequestRegister
  | CancelOp string string string int
  | RenewOp string string string int

text \<open>What a registration leaves of the old and the new instance.\<close>

definition merge :: "Instance option \<Rightarrow> Instance \<Rightarrow> Instance" where
  "merge old new =
     (case old of
        None \<Rightarrow> new
      | Some x \<Rightarrow> if i_DirtyTimestamp new < i_DirtyTimestamp x then x else new\<lparr>i_UpTimestamp := i_UpTimestamp x\<rparr>)"

fun dir_step :: "reg_op \<Rightarrow> directory \<Rightarrow> (reg_error + Instance option) \<times> directory" where
  "dir_step (RegisterOp now req) (V, L) =
     (let k = getKey (q_AppId req) (q_Env req); h = q_Hostname req
      in (Inr None, (V((k, h) \<mapsto> merge (V (k, h)) (NewInstance now req)), L(k \<mapsto> q_LatestTimestamp req))))"
| "dir_step (CancelOp env appid h ts) (V, L) =
     (let k = getKey appid env
      in case V (k, h) of
           None \<Rightarrow> (Inl NotFound, (V, L))
         | Some x \<Rightarrow>
             (Inr (Some (x\<lparr>i_LatestTimestamp := ts\<rparr>)),
              (V((k, h) := None), if \<exists>h' y. h' \<noteq> h \<and> V (k, h') = Some y then L(k \<mapsto> ts) else L(k := None))))"
| "dir_step (RenewOp env appid h now) (V, L) =
     (let k = getKey appid env
      in case V (k, h) of
           None \<Rightarrow> (Inl NotFound, (V, L))
         | Some x \<Rightarrow> (Inr (Some (x\<lparr>i_RenewTimestamp := now\<rparr>)), (V((k, h) \<mapsto> x\<lparr>i_RenewTimestamp := now\<rparr>), L)))"

section \<open>Abstraction and invariant\<close>

definition reg_step :: "reg_op \<Rightarrow> Registry \<Rightarrow> (reg_error + Instance option) \<times> Registry" where
  "reg_step op r =
     (case op of
        RegisterOp now req \<Rightarrow> (Inr None, snd (register_request now req r))
      | CancelOp env appid h ts \<Rightarrow> (case Cancel env appid h ts r of (x, r1) \<Rightarrow> (map_sum id Some x, r1))
      | RenewOp env appid h now \<Rightarrow> (case Renew env appid h now r of (x, r1) \<Rightarrow> (map_sum id Some x, r1)))"

definition reg_view :: "Registry \<Rightarrow> string \<times> string \<rightharpoonup> Instance" where
  "reg_view r = (\<lambda>(k, h). case r_apps r k of
     None \<Rightarrow> None | Some a \<Rightarrow> map_option (r_ins r) (map_of (a_instances (r_app r a)) h))"

definition reg_latest :: "Registry \<Rightarrow> string \<rightharpoonup> int" where
  "reg_latest r k = map_option (\<lambda>a. a_latestTimestamp (r_app r a)) (r_apps r k)"

definition reg_abs :: "Registry \<Rightarrow> directory" where
  "reg_abs r = (reg_view r, reg_latest r)"

definition app_ok :: "Registry \<Rightarrow> nat \<Rightarrow> bool" where
  "app_ok r a \<longleftrightarrow> a < r_nextapp r \<and> a_instances (r_app r a) \<noteq> [] \<and> distinct (map fst (a_instances (r_app r a)))
     \<and> (\<forall>(h, i) \<in> set (a_instances (r_app r a)). i < r_nextins r \<and> i_Hostname (r_ins r i) = h)"

definition unshared :: "Registry \<Rightarrow> bool" where
  "unshared r \<longleftrightarrow> (\<forall>k k' a. r_apps r k = Some a \<longrightarrow> r_apps r k' = Some a \<longrightarrow> k = k')
     \<and> (\<forall>k k' a a' h h' i. r_apps r k = Some a \<longrightarrow> r_apps r k' = Some a' \<longrightarrow> (h, i) \<in> set (a_instances (r_app r a)) \<longrightarrow>
          (h', i) \<in> set (a_instances (r_app r a')) \<longrightarrow> a = a')"

definition reg_inv :: "Registry \<Rightarrow> bool" where
  "reg_inv r \<longleftrightarrow> (\<forall>k a. r_apps r k = Some a \<longrightarrow> app_ok r a) \<and> unshared r"

lemma reg_inv_New: "reg_inv NewRegistry"
  by (simp add: reg_inv_def unshared_def NewRegistry_def)

lemma reg_abs_New: "reg_abs NewRegistry = (Map.empty, Map.empty)"
  by (auto simp: reg_abs_def reg_view_def reg_latest_def NewRegistry_def)

section \<open>Updating one application and one instance\<close>

text \<open>Every operation changes the objects of one application: the application object itself, and at most one instance object
  that no other application holds.\<close>

lemma copyInstance_eq [simp]: "copyInstance src = src"
proof -
  have "foldl (\<lambda>dst i. dst[i := xs ! i]) (replicate (length xs) []) [0..<n] = take n xs @ replicate (length xs - n) []"
    if "n \<le> length xs" for n and xs :: "string list"
    using that
  proof (induction n)
    case (Suc n)
    then have "replicate (length xs - n) ([] :: string) = [] # replicate (length xs - Suc n) []"
      by (metis Suc_diff_Suc Suc_le_lessD replicate_Suc)
    with Suc show ?case by (simp add: take_Suc_conv_app_nth list_update_append)
  qed simp
  from this[of "length (i_Addrs src)" "i_Addrs src"] show ?thesis by (simp add: copyInstance_def)
qed

lemma reg_view_app: "r_apps r k = Some a \<Longrightarrow> reg_view r (k, h) = map_option (r_ins r) (map_of (a_instances (r_app r a)) h)"
  by (simp add: reg_view_def)

definition change :: "string \<Rightarrow> nat \<Rightarrow> nat \<Rightarrow> Application \<Rightarrow> Instance \<Rightarrow> Registry \<Rightarrow> Registry" where
  "change k a i app x r = r\<lparr>r_apps := (r_apps r)(k \<mapsto> a), r_app := (r_app r)(a := app), r_ins := (r_ins r)(i := x)\<rparr>"

definition owned :: "string \<Rightarrow> nat \<Rightarrow> nat \<Rightarrow> Registry \<Rightarrow> bool" where
  "owned k a i r \<longleftrightarrow> (\<forall>k' a'. k' \<noteq> k \<longrightarrow> r_apps r k' = Some a' \<longrightarrow> a' \<noteq> a \<and> i \<notin> snd ` set (a_instances (r_app r a')))"

lemma change_view:
  assumes "owned k a i r"
  shows "reg_view (change k a i app x r) = (\<lambda>(k', h). if k' = k then map_option ((r_ins r)(i := x)) (map_of (a_instances app) h)
       else reg_view r (k', h))"
    and "reg_latest (change k a i app x r) = (reg_latest r)(k \<mapsto> a_latestTimestamp app)"
proof -
  have "map_option ((r_ins r)(i := x)) (map_of (a_instances (r_app r a')) h) = map_option (r_ins r) (map_of (a_instances (r_app r a')) h)"
    if "k' \<noteq> k" "r_apps r k' = Some a'" for k' a' h
  proof (cases "map_of (a_instances (r_app r a')) h")
    case (Some j)
    then have "j \<in> snd ` set (a_instances (r_app r a'))" by (metis map_of_SomeD snd_conv image_eqI)
    then show ?thesis using Some assms that by (auto simp: owned_def)
  qed simp
  with assms show "reg_view (change k a i app x r) = (\<lambda>(k', h). if k' = k then map_option ((r_ins r)(i := x)) (map_of (a_instances app) h)
       else reg_view r (k', h))"
    by (auto simp: reg_view_def change_def owned_def fun_eq_iff split: option.splits)
  show "reg_latest (change k a i app x r) = (reg_latest r)(k \<mapsto> a_latestTimestamp app)"
    using assms by (auto simp: reg_latest_def change_def owned_def fun_eq_iff map_option_case split: option.splits)
qed

lemma change_inv:
  assumes "reg_inv r" "owned k a i r" "a < r_nextapp r" "a_instances app \<noteq> []" "distinct (map fst (a_instances app))"
    and "\<And>h j. (h, j) \<in> set (a_instances app) \<Longrightarrow> j < r_nextins r \<and> i_Hostname (((r_ins r)(i := x)) j) = h"
    and "\<And>h j k' a'. (h, j) \<in> set (a_instances app) \<Longrightarrow> k' \<noteq> k \<Longrightarrow> r_apps r k' = Some a' \<Longrightarrow> j \<notin> snd ` set (a_instances (r_app r a'))"
  shows "reg_inv (change k a i app x r)"
proof -
  let ?r = "change k a i app x r"
  have other: "app_ok ?r a'" if "k' \<noteq> k" "r_apps r k' = Some a'" for k' a'
    using assms(1,2) that by (force simp: reg_inv_def app_ok_def change_def owned_def)
  have "app_ok ?r a" using assms(3-5) by (auto simp: app_ok_def change_def dest: assms(6))
  moreover have "unshared ?r"
    using assms(1,2,7) unfolding unshared_def reg_inv_def change_def owned_def
    by (auto simp: image_iff split: if_splits) (metis snd_conv)+
  ultimately show ?thesis using other by (auto simp: reg_inv_def change_def split: if_splits)
qed

section \<open>The operations as changes\<close>

text \<open>The application that a registration under a key works on, before it.\<close>

definition old_instances :: "string \<Rightarrow> Registry \<Rightarrow> (string \<times> nat) list" where
  "old_instances k r = (case r_apps r k of None \<Rightarrow> [] | Some a \<Rightarrow> a_instances (r_app r a))"

definition target :: "string \<Rightarrow> Registry \<Rightarrow> nat" where
  "target k r = (case r_apps r k of None \<Rightarrow> r_nextapp r | Some a \<Rightarrow> a)"

definition allocated :: "string \<Rightarrow> Registry \<Rightarrow> Registry" where
  "allocated k r = r\<lparr>r_nextins := r_nextins r + 1, r_nextapp := (if r_apps r k = None then r_nextapp r + 1 else r_nextapp r)\<rparr>"

lemma reg_invD:
  assumes "reg_inv r" "r_apps r k = Some a"
  shows "a < r_nextapp r" "a_instances (r_app r a) \<noteq> []" "distinct (map fst (a_instances (r_app r a)))"
    "\<And>h i. (h, i) \<in> set (a_instances (r_app r a)) \<Longrightarrow> i < r_nextins r \<and> i_Hostname (r_ins r i) = h"
    "\<And>k' a'. k' \<noteq> k \<Longrightarrow> r_apps r k' = Some a' \<Longrightarrow> a' \<noteq> a"
    "\<And>k' a' h i. k' \<noteq> k \<Longrightarrow> r_apps r k' = Some a' \<Longrightarrow> (h, i) \<in> set (a_instances (r_app r a)) \<Longrightarrow>
       i \<notin> snd ` set (a_instances (r_app r a'))"
proof -
  have ok: "app_ok r a" and un: "unshared r" using assms by (auto simp: reg_inv_def)
  from ok show "a < r_nextapp r" "a_instances (r_app r a) \<noteq> []" "distinct (map fst (a_instances (r_app r a)))"
    "\<And>h i. (h, i) \<in> set (a_instances (r_app r a)) \<Longrightarrow> i < r_nextins r \<and> i_Hostname (r_ins r i) = h"
    by (auto simp: app_ok_def)
  from un assms(2) show other: "\<And>k' a'. k' \<noteq> k \<Longrightarrow> r_apps r k' = Some a' \<Longrightarrow> a' \<noteq> a"
    unfolding unshared_def by blast
  show "i \<notin> snd ` set (a_instances (r_app r a'))"
    if "k' \<noteq> k" "r_apps r k' = Some a'" "(h, i) \<in> set (a_instances (r_app r a))" for k' a' h i
  proof
    assume "i \<in> snd ` set (a_instances (r_app r a'))"
    then obtain h' where "(h', i) \<in> set (a_instances (r_app r a'))" by auto
    with un assms(2) that(2,3) have "a = a'" unfolding unshared_def by blast
    with other[OF that(1,2)] show False by simp
  qed
qed

lemma old_instancesD:
  assumes "reg_inv r"
  shows "distinct (map fst (old_instances k r))"
    "(h, i) \<in> set (old_instances k r) \<Longrightarrow> i < r_nextins r \<and> i_Hostname (r_ins r i) = h"
    "(h, i) \<in> set (old_instances k r) \<Longrightarrow> k' \<noteq> k \<Longrightarrow> r_apps r k' = Some a' \<Longrightarrow> i \<notin> snd ` set (a_instances (r_app r a'))"
    "reg_view r (k, h) = map_option (r_ins r) (map_of (old_instances k r) h)"
proof -
  note inv = reg_invD[OF assms]
  show "distinct (map fst (old_instances k r))"
    by (cases "r_apps r k") (simp_all add: old_instances_def inv(3))
  show "i < r_nextins r \<and> i_Hostname (r_ins r i) = h" if "(h, i) \<in> set (old_instances k r)"
    using that inv(4)[of k] by (cases "r_apps r k") (simp_all add: old_instances_def)
  show "i \<notin> snd ` set (a_instances (r_app r a'))" if "(h, i) \<in> set (old_instances k r)" "k' \<noteq> k" "r_apps r k' = Some a'"
    using that inv(6)[of k _ k' a' h i] by (cases "r_apps r k") (simp_all add: old_instances_def)
  show "reg_view r (k, h) = map_option (r_ins r) (map_of (old_instances k r) h)"
    by (simp add: old_instances_def reg_view_def split: option.splits)
qed

text \<open>The instance object a registration creates, and the address it leaves under the host name.\<close>

definition created :: "int \<Rightarrow> RequestRegister \<Rightarrow> Instance option \<Rightarrow> Instance" where
  "created now req old = (case old of None \<Rightarrow> NewInstance now req | Some y \<Rightarrow> (NewInstance now req)\<lparr>i_UpTimestamp := i_UpTimestamp y\<rparr>)"

definition kept :: "int \<Rightarrow> nat option \<Rightarrow> Registry \<Rightarrow> nat" where
  "kept now old r = (case old of None \<Rightarrow> r_nextins r | Some j \<Rightarrow> if now < i_DirtyTimestamp (r_ins r j) then j else r_nextins r)"

lemma NewInstance_sel [simp]:
  "i_Hostname (NewInstance now req) = q_Hostname req" "i_DirtyTimestamp (NewInstance now req) = now"
  "i_AppID (NewInstance now req) = q_AppId req" "i_Env (NewInstance now req) = q_Env req"
  by (simp_all add: NewInstance_def)

lemma register_change:
  fixes req :: RequestRegister
  assumes "reg_inv r"
  defines "k \<equiv> getKey (q_AppId req) (q_Env req)" and "h \<equiv> q_Hostname req"
  defines "old \<equiv> map_of (old_instances k r) h"
  obtains app where
    "snd (register_request now req r)
       = change k (target k r) (r_nextins r) app (created now req (map_option (r_ins r) old)) (allocated k r)"
    "a_instances app = AList.update h (kept now old r) (old_instances k r)" "a_latestTimestamp app = q_LatestTimestamp req"
proof -
  let ?i = "r_nextins r" and ?x = "created now req (map_option (r_ins r) old)"
  have less: "j \<noteq> ?i \<and> i_Hostname (r_ins r j) = h" if "old = Some j" for j
    using old_instancesD(2)[OF assms(1), of h j k] that by (auto simp: old_def dest: map_of_SomeD)
  define base where "base = (case r_apps r k of None \<Rightarrow> NewApplication (q_AppId req) | Some a \<Rightarrow> r_app r a)"
  have insts: "a_instances base = old_instances k r"
    by (simp add: base_def old_instances_def NewApplication_def split: option.splits)
  let ?app = "upLatestTimestamp (q_LatestTimestamp req) (base\<lparr>a_instances := AList.update h (kept now old r) (old_instances k r)\<rparr>)"
  have "snd (register_request now req r) = change k (target k r) ?i ?app ?x (allocated k r)"
  proof (cases "r_apps r k"; cases old)
  qed (use less insts in \<open>auto simp: register_request_def alloc_ins_def Register_def Register_lookup_def alloc_app_def Let_def
      AddInstance_def Register_store_def change_def target_def allocated_def created_def kept_def base_def old_def h_def k_def
      old_instances_def NewApplication_def\<close>)
  then show thesis by (rule that) (simp_all add: upLatestTimestamp_def)
qed

lemma owned_fresh:
  assumes "reg_inv r"
  shows "owned k (target k r) (r_nextins r) r"
proof -
  have "r_nextins r \<notin> snd ` set (a_instances (r_app r a'))" if "r_apps r k' = Some a'" for k' a'
    using reg_invD(4)[OF assms that] by fastforce
  then show ?thesis
    using reg_invD(5)[OF assms] by (auto simp: owned_def target_def split: option.splits dest: reg_invD(1)[OF assms])
qed

lemma allocated_heap [simp]:
  "r_ins (allocated k r) = r_ins r" "r_apps (allocated k r) = r_apps r" "r_app (allocated k r) = r_app r"
  by (simp_all add: allocated_def)

lemma allocated_same:
  "reg_view (allocated k r) = reg_view r" "reg_latest (allocated k r) = reg_latest r" "owned k a i (allocated k r) = owned k a i r"
  by (simp_all add: reg_view_def reg_latest_def owned_def fun_eq_iff split: option.splits)

lemma allocated_inv: "reg_inv r \<Longrightarrow> reg_inv (allocated k r)"
proof -
  have "app_ok r a \<Longrightarrow> app_ok (allocated k r) a" for a
    by (auto simp: app_ok_def) (auto simp: allocated_def)
  then show "reg_inv r \<Longrightarrow> reg_inv (allocated k r)" by (simp add: reg_inv_def unshared_def)
qed

lemma created_host [simp]: "i_Hostname (created now req old) = q_Hostname req"
  by (simp add: created_def split: option.splits)

lemma merge_created:
  assumes "\<And>j. old = Some j \<Longrightarrow> j \<noteq> r_nextins r"
  shows "((r_ins r)(r_nextins r := created now req (map_option (r_ins r) old))) (kept now old r)
       = merge (map_option (r_ins r) old) (NewInstance now req)"
  using assms by (auto simp: created_def kept_def merge_def split: option.splits)

lemma in_update: "(h, j) \<in> set (AList.update h' v xs) \<Longrightarrow> (h, j) \<in> set xs \<or> h = h' \<and> j = v"
  by (induction xs) (auto split: if_splits)

lemma register_step:
  assumes "reg_inv r"
  shows "reg_inv (snd (register_request now req r))"
    "dir_step (RegisterOp now req) (reg_abs r) = (Inr None, reg_abs (snd (register_request now req r)))"
proof -
  let ?k = "getKey (q_AppId req) (q_Env req)" and ?h = "q_Hostname req"
  let ?a = "target ?k r" and ?i = "r_nextins r" and ?old = "map_of (old_instances ?k r) ?h"
  let ?x = "created now req (map_option (r_ins r) ?old)" and ?r = "allocated ?k r" and ?xs = "old_instances ?k r"
  obtain app where eq: "snd (register_request now req r) = change ?k ?a ?i app ?x ?r"
    and app: "a_instances app = AList.update ?h (kept now ?old r) ?xs" "a_latestTimestamp app = q_LatestTimestamp req"
    using register_change[OF assms] by blast
  have owned: "owned ?k ?a ?i ?r" using owned_fresh[OF assms] by (simp add: allocated_same)
  note xs = old_instancesD[OF assms, where k = ?k]
  have old: "j \<noteq> ?i" "(?h, j) \<in> set ?xs" if "?old = Some j" for j
    using xs(2)[of ?h j] that by (auto dest: map_of_SomeD)
  have upd: "(h, j) \<in> set ?xs \<or> h = ?h \<and> j = ?i" if "(h, j) \<in> set (a_instances app)" for h j
    using in_update[of h j ?h "kept now ?old r" ?xs] that app(1) old
    by (auto simp: kept_def split: option.splits if_splits)
  show "reg_inv (snd (register_request now req r))"
    unfolding eq
  proof (rule change_inv[OF allocated_inv[OF assms] owned])
    show "?a < r_nextapp ?r"
      using reg_invD(1)[OF assms] by (auto simp: target_def allocated_def split: option.splits)
    show "a_instances app \<noteq> []" by (simp add: app)
    show "distinct (map fst (a_instances app))" using xs(1) by (simp add: app distinct_update)
    show "j < r_nextins ?r \<and> i_Hostname (((r_ins ?r)(?i := ?x)) j) = h" if "(h, j) \<in> set (a_instances app)" for h j
      using upd[OF that] xs(2)[of h j] by (auto simp: allocated_def)
    show "j \<notin> snd ` set (a_instances (r_app ?r a'))"
      if "(h, j) \<in> set (a_instances app)" "k' \<noteq> ?k" "r_apps ?r k' = Some a'" for h j k' a'
      using upd[OF that(1)] xs(3)[of h j k' a'] that(2,3) owned unfolding owned_def allocated_heap by metis
  qed
  have "map_option ((r_ins r)(?i := ?x)) (map_of (a_instances app) h)
      = ((\<lambda>h. reg_view r (?k, h))(?h \<mapsto> merge (reg_view r (?k, ?h)) (NewInstance now req))) h" for h
  proof (cases "h = ?h")
    case True
    then show ?thesis using merge_created[of ?old r] old by (simp add: app update_conv xs(4))
  next
    case False
    then have "map_of (a_instances app) h = map_of ?xs h" by (simp add: app update_conv)
    moreover have "j \<noteq> ?i" if "map_of ?xs h = Some j" for j using xs(2)[of h j] that by (auto dest: map_of_SomeD)
    ultimately show ?thesis using False by (cases "map_of ?xs h") (auto simp: xs(4))
  qed
  then show "dir_step (RegisterOp now req) (reg_abs r) = (Inr None, reg_abs (snd (register_request now req r)))"
    using change_view[OF owned, of app ?x] unfolding eq
    by (auto simp: reg_abs_def Let_def allocated_same app fun_eq_iff)
qed

lemma owned_registered:
  assumes "reg_inv r" "r_apps r k = Some a" "(h, i) \<in> set (a_instances (r_app r a))"
  shows "owned k a i r"
  using reg_invD(5,6)[OF assms(1,2)] assms(3) unfolding owned_def by metis

lemma Cancel_delete_view:
  "reg_view (Cancel_delete k r) = (\<lambda>(k', h). if k' = k then None else reg_view r (k', h))"
  "reg_latest (Cancel_delete k r) = (reg_latest r)(k := None)"
  by (auto simp: reg_view_def reg_latest_def Cancel_delete_def fun_eq_iff split: option.splits)

lemma delete_change:
  assumes "reg_inv r" "owned k a i r"
  shows "reg_inv (Cancel_delete k (change k a i app x r))"
    "reg_view (Cancel_delete k (change k a i app x r)) = (\<lambda>(k', h). if k' = k then None else reg_view r (k', h))"
    "reg_latest (Cancel_delete k (change k a i app x r)) = (reg_latest r)(k := None)"
proof -
  let ?r = "change k a i app x r"
  have other: "app_ok ?r a'" if "k' \<noteq> k" "r_apps r k' = Some a'" for k' a'
    using assms that by (force simp: reg_inv_def app_ok_def change_def owned_def)
  have "unshared (Cancel_delete k ?r)"
    using assms unfolding unshared_def reg_inv_def change_def owned_def Cancel_delete_def by (auto split: if_splits)
  then show "reg_inv (Cancel_delete k ?r)"
    using other by (auto simp: reg_inv_def change_def Cancel_delete_def app_ok_def split: if_splits)
  show "reg_view (Cancel_delete k ?r) = (\<lambda>(k', h). if k' = k then None else reg_view r (k', h))"
    by (auto simp: Cancel_delete_view change_view(1)[OF assms(2)] fun_eq_iff)
  show "reg_latest (Cancel_delete k ?r) = (reg_latest r)(k := None)"
    by (simp add: Cancel_delete_view change_view(2)[OF assms(2)])
qed

text \<open>Changing an instance in place.\<close>

lemma in_place:
  assumes "reg_inv r" "r_apps r k = Some a" "map_of (a_instances (r_app r a)) h = Some i" "map_of (a_instances (r_app r a)) h' = Some j"
  shows "j = i \<longleftrightarrow> h' = h"
  using reg_invD(4)[OF assms(1,2)] assms(3,4) by (metis map_of_SomeD option.inject)

lemma renew_step:
  assumes "reg_inv r" "reg_step (RenewOp env appid h now) r = (y, r')"
  shows "reg_inv r' \<and> dir_step (RenewOp env appid h now) (reg_abs r) = (y, reg_abs r')"
proof -
  let ?k = "getKey appid env"
  consider (none) "r_apps r ?k = None" | (missing) a where "r_apps r ?k = Some a" "map_of (a_instances (r_app r a)) h = None"
    | (found) a i where "r_apps r ?k = Some a" "map_of (a_instances (r_app r a)) h = Some i"
    by (cases "r_apps r ?k"; blast)
  then show ?thesis
  proof cases
    case found
    let ?x = "(r_ins r i)\<lparr>i_RenewTimestamp := now\<rparr>"
    have at: "(h, i) \<in> set (a_instances (r_app r a))" using found(2) by (rule map_of_SomeD)
    note owned = owned_registered[OF assms(1) found(1) at] and inv = reg_invD[OF assms(1) found(1)]
    have r': "r' = change ?k a i (r_app r a) ?x r" "y = Inr (Some ?x)"
      using assms(2) found
      by (auto simp: reg_step_def Renew_def getApplication_def Application_Renew_def change_def fun_upd_idem)
    have "reg_inv r'"
      unfolding r' using inv(1-3,6) inv(4)[OF at]
      by (intro change_inv[OF assms(1) owned]) (auto dest: inv(4))
    moreover have "map_option ((r_ins r)(i := ?x)) (map_of (a_instances (r_app r a)) h')
        = (if h' = h then Some ?x else reg_view r (?k, h'))" for h'
      using in_place[OF assms(1) found] found
      by (cases "map_of (a_instances (r_app r a)) h'") (auto simp: reg_view_app)
    moreover have "(reg_latest r)(?k \<mapsto> a_latestTimestamp (r_app r a)) = reg_latest r"
      using found(1) by (simp add: reg_latest_def fun_upd_idem)
    ultimately show ?thesis
      using change_view[OF owned, of "r_app r a" ?x] found unfolding r'
      by (auto simp: reg_abs_def Let_def reg_view_app fun_eq_iff)
  qed (use assms in \<open>auto simp: reg_step_def Renew_def getApplication_def Application_Renew_def reg_abs_def reg_view_def Let_def\<close>)
qed

lemma delete_rest:
  assumes "distinct (map fst xs)" "map_of xs h = Some i"
  shows "AList.delete h xs = [] \<longleftrightarrow> \<not> (\<exists>h' j. h' \<noteq> h \<and> map_of xs h' = Some j)"
proof -
  have "AList.delete h xs \<noteq> [] \<longleftrightarrow> (\<exists>h' j. map_of (AList.delete h xs) h' = Some j)"
    by (cases "AList.delete h xs") (auto intro!: exI)
  also have "\<dots> \<longleftrightarrow> (\<exists>h' j. h' \<noteq> h \<and> map_of xs h' = Some j)" by (auto simp: delete_conv')
  finally show ?thesis by blast
qed

lemma in_delete: "(h', j) \<in> set (AList.delete h xs) \<Longrightarrow> (h', j) \<in> set xs \<and> h' \<noteq> h"
  by (induction xs) (auto split: if_splits)

lemma cancel_step:
  assumes "reg_inv r" "reg_step (CancelOp env appid h ts) r = (y, r')"
  shows "reg_inv r' \<and> dir_step (CancelOp env appid h ts) (reg_abs r) = (y, reg_abs r')"
proof -
  let ?k = "getKey appid env"
  consider (none) "r_apps r ?k = None" | (missing) a where "r_apps r ?k = Some a" "map_of (a_instances (r_app r a)) h = None"
    | (found) a i where "r_apps r ?k = Some a" "map_of (a_instances (r_app r a)) h = Some i"
    by (cases "r_apps r ?k"; blast)
  then show ?thesis
  proof cases
    case found
    let ?xs = "a_instances (r_app r a)"
    let ?x = "(r_ins r i)\<lparr>i_LatestTimestamp := ts\<rparr>" and ?app = "upLatestTimestamp ts ((r_app r a)\<lparr>a_instances := AList.delete h ?xs\<rparr>)"
    let ?c = "change ?k a i ?app ?x r"
    have at: "(h, i) \<in> set ?xs" using found(2) by (rule map_of_SomeD)
    note owned = owned_registered[OF assms(1) found(1) at] and inv = reg_invD[OF assms(1) found(1)]
    have app: "a_instances ?app = AList.delete h ?xs" "a_latestTimestamp ?app = ts" by (simp_all add: upLatestTimestamp_def)
    have r': "r' = (if AList.delete h ?xs = [] then Cancel_delete ?k ?c else ?c)" "y = Inr (Some ?x)"
      using assms(2) found
      by (auto simp: reg_step_def Cancel_def getApplication_def Application_Cancel_def change_def Cancel_delete_def Let_def
          fun_upd_idem split: if_splits)
    have view: "map_option ((r_ins r)(i := ?x)) (map_of (AList.delete h ?xs) h') = (if h' = h then None else reg_view r (?k, h'))" for h'
      using in_place[OF assms(1) found, of h'] found
      by (cases "map_of ?xs h'") (auto simp: reg_view_app delete_conv')
    have rest: "(\<exists>h' z. h' \<noteq> h \<and> reg_view r (?k, h') = Some z) \<longleftrightarrow> AList.delete h ?xs \<noteq> []"
      using delete_rest[OF inv(3) found(2)] found(1) by (auto simp: reg_view_app)
    show ?thesis
    proof (cases "AList.delete h ?xs = []")
      case True
      then have "reg_view r (?k, h') = None" if "h' \<noteq> h" for h' using rest that by (metis option.exhaust)
      with True show ?thesis
        using delete_change[OF assms(1) owned, of ?app ?x] found rest
        by (auto simp: r' reg_abs_def Let_def reg_view_app fun_eq_iff)
    next
      case False
      have "reg_inv ?c"
      proof (rule change_inv[OF assms(1) owned inv(1)])
        show "a_instances ?app \<noteq> []" using False by (simp only: app not_False_eq_True)
        show "distinct (map fst (a_instances ?app))" using distinct_delete[OF inv(3), of h] by (simp only: app)
        fix h' j
        assume "(h', j) \<in> set (a_instances ?app)"
        then have "(h', j) \<in> set ?xs" by (simp only: app in_delete)
        then show "j < r_nextins r \<and> i_Hostname (((r_ins r)(i := ?x)) j) = h'"
          and "\<And>k' a'. k' \<noteq> ?k \<Longrightarrow> r_apps r k' = Some a' \<Longrightarrow> j \<notin> snd ` set (a_instances (r_app r a'))"
          using inv(4)[of h' j] inv(6)[of _ _ h' j] by auto
      qed
      with False show ?thesis
        using change_view[OF owned, of ?app ?x] found rest view
        by (auto simp: r' reg_abs_def Let_def reg_view_app app fun_eq_iff)
    qed
  qed (use assms in \<open>auto simp: reg_step_def Cancel_def getApplication_def Application_Cancel_def reg_abs_def reg_view_def Let_def\<close>)
qed

interpretation registry: simulation reg_step dir_step reg_abs reg_inv "\<lambda>_. True"
proof
  fix r op y r'
  assume "reg_inv r" "reg_step op r = (y, r')"
  then have "reg_inv r' \<and> dir_step op (reg_abs r) = (y, reg_abs r')"
  proof (cases op)
    case (RegisterOp now req)
    then show ?thesis using register_step[OF \<open>reg_inv r\<close>, of now req] \<open>reg_step op r = (y, r')\<close> by (simp add: reg_step_def)
  next
    case (CancelOp env appid h ts)
    show ?thesis using cancel_step[OF \<open>reg_inv r\<close>] \<open>reg_step op r = (y, r')\<close> unfolding CancelOp .
  next
    case (RenewOp env appid h now)
    show ?thesis using renew_step[OF \<open>reg_inv r\<close>] \<open>reg_step op r = (y, r')\<close> unfolding RenewOp .
  qed
  then show "reg_inv r'" "dir_step op (reg_abs r) = (y, reg_abs r')" by auto
qed

section \<open>Properties\<close>

lemma registry_refines:
  "run_ops dir_step ops (Map.empty, Map.empty)
     = (fst (run_ops reg_step ops NewRegistry), reg_abs (snd (run_ops reg_step ops NewRegistry)))"
  using registry.run_simulates[OF reg_inv_New, of ops] by (simp add: reg_abs_New list_all_iff)

text \<open>C20: The registry implements the directory: from an empty registry, every sequence of registrations of new instances,
  cancellations and renewals gives the same results, errors included, as the abstract directory, and leaves the registry
  representing the directory's state; an application without instances is removed.\<close>

theorem registry_refines_directory:
  "run_ops dir_step ops (Map.empty, Map.empty)
     = (fst (run_ops reg_step ops NewRegistry), reg_abs (snd (run_ops reg_step ops NewRegistry)))"
  by (rule registry_refines)

text \<open>What \<open>Fetch\<close> returns, in terms of the directory.\<close>

definition matching :: "32 word \<Rightarrow> Registry \<Rightarrow> string \<Rightarrow> Instance set" where
  "matching status r k = {x. \<exists>h. reg_view r (k, h) = Some x \<and> status AND i_Status x > 0}"

lemma matching_set:
  assumes "reg_inv r" "r_apps r k = Some a"
  shows "(\<lambda>(h, i). r_ins r i) ` {p \<in> set (a_instances (r_app r a)). status AND i_Status (r_ins r (snd p)) > 0} = matching status r k"
proof -
  have "map_of (a_instances (r_app r a)) h = Some i \<longleftrightarrow> (h, i) \<in> set (a_instances (r_app r a))" for h i
    using reg_invD(3)[OF assms] by simp
  then show ?thesis using assms(2) by (force simp: matching_def reg_view_app)
qed

text \<open>C21: In every registry reached from the empty one, \<open>Fetch\<close> answers \<open>NotFound\<close> when the application has no instances,
  \<open>NotModified\<close> when the caller's time stamp is not older than the application's, \<open>NotFound\<close> when no instance has one of
  the wanted status bits, and otherwise each matching instance exactly once, in whatever order the map is iterated.\<close>

theorem Fetch_matching:
  assumes "\<And>xs. mset (order xs) = mset xs"
    and r_def: "r = snd (run_ops reg_step ops NewRegistry)" and k_def: "k = getKey appid env"
  shows "case reg_latest r k of
      None \<Rightarrow> (\<forall>h. reg_view r (k, h) = None) \<and> Fetch order env appid status t r = Inl NotFound
    | Some ts \<Rightarrow>
        if ts \<le> t then Fetch order env appid status t r = Inl NotModified
        else if matching status r k = {} then Fetch order env appid status t r = Inl NotFound
        else \<exists>xs. Fetch order env appid status t r = Inr \<lparr>fd_Instances = xs, fd_LatestTimestamp = ts\<rparr>
               \<and> set xs = matching status r k \<and> distinct (map i_Hostname xs)"
proof (cases "r_apps r k")
  case None
  then show ?thesis by (simp add: reg_latest_def reg_view_def Fetch_def getApplication_def k_def)
next
  case (Some a)
  have inv: "reg_inv r" using registry.run_keeps_inv[OF reg_inv_New, of ops] by (simp add: r_def list_all_iff)
  let ?ok = "\<lambda>p. status AND i_Status (r_ins r (snd p)) > 0" and ?ys = "order (a_instances (r_app r a))"
  let ?xs = "map (\<lambda>(_, i). r_ins r i) (filter ?ok ?ys)"
  note invs = reg_invD[OF inv Some]
  have ys: "set ?ys = set (a_instances (r_app r a))" using assms(1) by (metis set_mset_mset)
  have set: "set ?xs = matching status r k" using matching_set[OF inv Some, of status] by (simp add: ys)
  have empty: "filter ?ok ?ys = [] \<longleftrightarrow> matching status r k = {}" using set by (metis map_is_Nil_conv set_empty)
  have hosts: "map i_Hostname ?xs = map fst (filter ?ok ?ys)" using invs(4) ys by auto
  have "distinct (map fst ?ys)" using invs(3) assms(1) by (metis mset_eq_imp_distinct_iff mset_map)
  then have "distinct (map i_Hostname ?xs)" unfolding hosts by (rule distinct_map_filter)
  moreover have "Fetch order env appid status t r =
      (if a_latestTimestamp (r_app r a) \<le> t then Inl NotModified
       else if filter ?ok ?ys = [] then Inl NotFound
       else Inr \<lparr>fd_Instances = ?xs, fd_LatestTimestamp = a_latestTimestamp (r_app r a)\<rparr>)"
    using Some by (simp add: Fetch_def getApplication_def GetInstance_def k_def Let_def case_prod_unfold)
  ultimately show ?thesis using Some set empty by (auto simp: reg_latest_def)
qed

definition example_request :: RequestRegister where
  "example_request = \<lparr>q_Env = ''dev'', q_AppId = ''com.xx.testapp'', q_Hostname = ''myhost'',
     q_Addrs = [''http://testapp.xx.com/myhost''], q_Status = 1, q_Version = [], q_LatestTimestamp = 7\<rparr>"

theorem Fetch_matching_witness:
  "\<exists>xs. Fetch rev ''dev'' ''com.xx.testapp'' 1 0 (snd (run_ops reg_step [RegisterOp 5 example_request] NewRegistry))
      = Inr \<lparr>fd_Instances = xs, fd_LatestTimestamp = 7\<rparr>
    \<and> set xs = {NewInstance 5 example_request}"
proof -
  let ?r = "snd (run_ops reg_step [RegisterOp 5 example_request] NewRegistry)" and ?k = "getKey ''com.xx.testapp'' ''dev''"
  have "reg_abs ?r = ([(?k, ''myhost'') \<mapsto> NewInstance 5 example_request], [?k \<mapsto> 7])"
    using registry_refines[of "[RegisterOp 5 example_request]"] by (simp add: Let_def example_request_def merge_def)
  then have v: "reg_view ?r = [(?k, ''myhost'') \<mapsto> NewInstance 5 example_request]" "reg_latest ?r = [?k \<mapsto> 7]"
    by (auto simp: reg_abs_def)
  then have m: "matching 1 ?r ?k = {NewInstance 5 example_request}"
    by (auto simp: matching_def NewInstance_def example_request_def)
  show ?thesis
    using Fetch_matching[of rev ?r "[RegisterOp 5 example_request]" ?k "''com.xx.testapp''" "''dev''" 1 0, OF _ refl refl] v(2) m by auto
qed

text \<open>The key is the application and the environment joined by a colon.\<close>

lemma getKey_inj:
  assumes "CHR '':'' \<notin> set appid" "CHR '':'' \<notin> set appid'" "getKey appid env = getKey appid' env'"
  shows "appid = appid' \<and> env = env'"
proof -
  have "takeWhile (\<lambda>c. c \<noteq> CHR '':'') (getKey x y) = x" if "CHR '':'' \<notin> set x" for x y
    using that by (induction x) (auto simp: getKey_def)
  with assms show ?thesis by (metis getKey_def append_same_eq same_append_eq)
qed

fun op_app :: "reg_op \<Rightarrow> string \<times> string" where
  "op_app (RegisterOp now req) = (q_AppId req, q_Env req)"
| "op_app (CancelOp env appid h ts) = (appid, env)"
| "op_app (RenewOp env appid h now) = (appid, env)"

lemma dir_step_other:
  assumes "dir_step op (V, L) = (y, (V', L'))" "k \<noteq> getKey (fst (op_app op)) (snd (op_app op))"
  shows "V' (k, h) = V (k, h) \<and> L' k = L k"
  using assms by (cases op) (auto simp: Let_def split: option.splits if_splits)

text \<open>Applications do not interfere: in every reachable registry, an operation on one application and environment changes nothing
  that can be fetched for another one, provided no application id contains a colon.\<close>

theorem applications_separate:
  assumes "r = snd (run_ops reg_step ops NewRegistry)" "reg_step op r = (y, r')"
    and "op_app op \<noteq> (appid, env)" "CHR '':'' \<notin> set appid" "CHR '':'' \<notin> set (fst (op_app op))"
  shows "reg_latest r' (getKey appid env) = reg_latest r (getKey appid env)
     \<and> matching status r' (getKey appid env) = matching status r (getKey appid env)"
proof -
  have "reg_inv r" using registry.run_keeps_inv[OF reg_inv_New, of ops] by (simp add: assms(1) list_all_iff)
  then have "dir_step op (reg_abs r) = (y, reg_abs r')" using registry.step_spec assms(2) by blast
  moreover have "getKey appid env \<noteq> getKey (fst (op_app op)) (snd (op_app op))"
    using getKey_inj[OF assms(4,5)] assms(3) by (metis prod.collapse)
  ultimately have "reg_view r' (getKey appid env, h) = reg_view r (getKey appid env, h)
      \<and> reg_latest r' (getKey appid env) = reg_latest r (getKey appid env)" for h
    by (intro dir_step_other) (simp_all add: reg_abs_def)
  then show ?thesis by (simp add: matching_def)
qed

theorem applications_separate_witness:
  "matching 1 (snd (reg_step (CancelOp ''prod'' ''com.xx.testapp'' ''myhost'' 9)
        (snd (run_ops reg_step [RegisterOp 5 example_request] NewRegistry)))) (getKey ''com.xx.testapp'' ''dev'')
     = matching 1 (snd (run_ops reg_step [RegisterOp 5 example_request] NewRegistry)) (getKey ''com.xx.testapp'' ''dev'')"
  by (rule conjunct2[OF applications_separate[OF refl prod.collapse[symmetric]]]) simp_all

text \<open>With a colon in the application id the keys of different applications coincide.\<close>

lemma getKey_collision: "getKey ''a:b'' ''c'' = getKey ''a'' ''b:c''"
  by (simp add: getKey_def)

end
