(* ===== verification/Registry_Race.thy ===== *)
theory Registry_Race
  imports Registry_Spec
begin

text \<open>
  Concurrent calls of the registry.  \<open>Register\<close> and \<open>Cancel\<close> hold a lock only while they look up the application, change it, and
  change the map of applications; between these sections other calls run.  A thread is a call and the section it executes next, and a run
  is given by the schedule of the threads.
\<close>

datatype call = RegisterCall nat int | CancelCall string string string int

datatype pc = Idle | Adding string nat | Storing string nat | Cancelling string nat | Deleting string | Finished

fun thread_step :: "call \<Rightarrow> pc \<Rightarrow> Registry \<Rightarrow> pc \<times> Registry" where
  "thread_step (RegisterCall i ts) Idle r =
     (case Register_lookup i r of (a, r1) \<Rightarrow> (Adding (getKey (i_AppID (r_ins r i)) (i_Env (r_ins r i))) a, r1))"
| "thread_step (RegisterCall i ts) (Adding key a) r = (case AddInstance a i ts r of (_, _, r1) \<Rightarrow> (Storing key a, r1))"
| "thread_step (RegisterCall i ts) (Storing key a) r = (Finished, Register_store key a r)"
| "thread_step (CancelCall env appid h ts) Idle r =
     (case getApplication appid env r of None \<Rightarrow> (Finished, r) | Some a \<Rightarrow> (Cancelling (getKey appid env) a, r))"
| "thread_step (CancelCall env appid h ts) (Cancelling key a) r =
     (case Application_Cancel a h ts r of
        (None, r1) \<Rightarrow> (Finished, r1)
      | (Some (_, n), r1) \<Rightarrow> (if n = 0 then Deleting key else Finished, r1))"
| "thread_step (CancelCall env appid h ts) (Deleting key) r = (Finished, Cancel_delete key r)"
| "thread_step _ p r = (p, r)"

fun run_threads :: "(nat \<Rightarrow> call) \<Rightarrow> nat list \<Rightarrow> (nat \<Rightarrow> pc) \<times> Registry \<Rightarrow> (nat \<Rightarrow> pc) \<times> Registry" where
  "run_threads calls [] s = s"
| "run_threads calls (t # ts) (pcs, r) =
     (case thread_step (calls t) (pcs t) r of (p, r1) \<Rightarrow> run_threads calls ts (pcs(t := p), r1))"

text \<open>A thread that runs alone executes the sequential operation.\<close>

lemma thread_alone_Register:
  "run_threads calls [t, t, t] ((\<lambda>_. Idle), r) = ((\<lambda>_. Idle)(t := Finished), snd (Register i ts r))" if "calls t = RegisterCall i ts"
  using that by (simp add: Register_def Let_def split: prod.splits)

lemma thread_alone_Cancel:
  "snd (run_threads calls [t, t, t] ((\<lambda>_. Idle), r)) = snd (Cancel env appid h ts r)" if "calls t = CancelCall env appid h ts"
  using that by (simp add: Cancel_def split: prod.splits option.splits)

section \<open>Registrations of known applications\<close>

text \<open>No step of a registration changes the host name or the dirty time of an instance.\<close>

definition same_identity :: "Registry \<Rightarrow> Registry \<Rightarrow> bool" where
  "same_identity r r' \<longleftrightarrow> (\<forall>i. i_Hostname (r_ins r' i) = i_Hostname (r_ins r i) \<and> i_DirtyTimestamp (r_ins r' i) = i_DirtyTimestamp (r_ins r i)
     \<and> i_AppID (r_ins r' i) = i_AppID (r_ins r i) \<and> i_Env (r_ins r' i) = i_Env (r_ins r i))"

definition ikey :: "Registry \<Rightarrow> nat \<Rightarrow> string" where
  "ikey r i = getKey (i_AppID (r_ins r i)) (i_Env (r_ins r i))"

text \<open>An instance is visible in an application when its host has an instance that is not older.\<close>

definition shown :: "Registry \<Rightarrow> nat \<Rightarrow> nat \<Rightarrow> bool" where
  "shown r a i \<longleftrightarrow> (\<exists>j. map_of (a_instances (r_app r a)) (i_Hostname (r_ins r i)) = Some j
     \<and> i_DirtyTimestamp (r_ins r i) \<le> i_DirtyTimestamp (r_ins r j))"

definition hosts_ok :: "Registry \<Rightarrow> nat \<Rightarrow> bool" where
  "hosts_ok r a \<longleftrightarrow> (\<forall>h j. map_of (a_instances (r_app r a)) h = Some j \<longrightarrow> i_Hostname (r_ins r j) = h)"

lemma AddInstance_effect:
  assumes "AddInstance a i ts r = (x, isNew, r')" "hosts_ok r a"
  shows "same_identity r r'" "r_apps r' = r_apps r" "shown r' a i" "hosts_ok r' a"
    "\<And>b. b \<noteq> a \<Longrightarrow> r_app r' b = r_app r b"
    "\<And>k. shown r a k \<Longrightarrow> shown r' a k"
proof -
  show same: "same_identity r r'" and "r_apps r' = r_apps r" "\<And>b. b \<noteq> a \<Longrightarrow> r_app r' b = r_app r b"
    using assms(1) by (auto simp: AddInstance_def Let_def same_identity_def split: option.splits if_splits)
  note id = same[unfolded same_identity_def, rule_format]
  define j where "j = (case map_of (a_instances (r_app r a)) (i_Hostname (r_ins r i)) of
     None \<Rightarrow> i | Some old \<Rightarrow> if i_DirtyTimestamp (r_ins r i) < i_DirtyTimestamp (r_ins r old) then old else i)"
  have host: "i_Hostname (r_ins r j) = i_Hostname (r_ins r i)"
    using assms(2) by (simp add: j_def hosts_ok_def split: option.splits)
  have j: "i_DirtyTimestamp (r_ins r i) \<le> i_DirtyTimestamp (r_ins r j)" "map_of (a_instances (r_app r a)) (i_Hostname (r_ins r i)) = Some old \<Longrightarrow>
      i_DirtyTimestamp (r_ins r old) \<le> i_DirtyTimestamp (r_ins r j)" for old
    by (auto simp: j_def split: option.splits)
  have upd: "a_instances (r_app r' a) = AList.update (i_Hostname (r_ins r i)) j (a_instances (r_app r a))"
  proof (cases "map_of (a_instances (r_app r a)) (i_Hostname (r_ins r i))")
    case None
    then show ?thesis using assms(1) by (auto simp: AddInstance_def Let_def upLatestTimestamp_def j_def)
  next
    case (Some old)
    then have "i_Hostname (r_ins r old) = i_Hostname (r_ins r i)" using assms(2) by (simp add: hosts_ok_def)
    then show ?thesis using assms(1) Some by (auto simp: AddInstance_def Let_def upLatestTimestamp_def j_def)
  qed
  show "shown r' a i" using j(1) by (simp add: shown_def id upd update_conv)
  show "hosts_ok r' a" using host assms(2) by (simp add: hosts_ok_def id upd update_conv)
  show "shown r' a k" if "shown r a k" for k
    using that j(2) by (auto simp: shown_def id upd update_conv intro: order_trans)
qed

text \<open>The invariant of a run of registrations whose applications \<open>M\<close> exist: a thread works on the application of its key, and from its
  second section on its instance is visible there.\<close>

definition thread_ok :: "(string \<rightharpoonup> nat) \<Rightarrow> Registry \<Rightarrow> call \<Rightarrow> pc \<Rightarrow> bool" where
  "thread_ok M r c p =
     (case c of
        RegisterCall i ts \<Rightarrow>
          (case p of
             Idle \<Rightarrow> M (ikey r i) \<noteq> None
           | Adding k a \<Rightarrow> k = ikey r i \<and> M k = Some a
           | Storing k a \<Rightarrow> k = ikey r i \<and> M k = Some a \<and> shown r a i
           | Finished \<Rightarrow> (\<exists>a. M (ikey r i) = Some a \<and> shown r a i)
           | _ \<Rightarrow> False)
      | CancelCall env appid h ts \<Rightarrow> False)"

definition race_inv :: "(string \<rightharpoonup> nat) \<Rightarrow> (nat \<Rightarrow> call) \<Rightarrow> (nat \<Rightarrow> pc) \<times> Registry \<Rightarrow> bool" where
  "race_inv M calls s \<longleftrightarrow> (\<forall>k a. M k = Some a \<longrightarrow> r_apps (snd s) k = Some a \<and> hosts_ok (snd s) a)
     \<and> (\<forall>t. thread_ok M (snd s) (calls t) (fst s t))"

lemma same_identityD:
  "same_identity r r' \<Longrightarrow> ikey r' i = ikey r i"
  "same_identity r r' \<Longrightarrow> r_app r' a = r_app r a \<Longrightarrow> shown r' a i = shown r a i"
  "same_identity r r' \<Longrightarrow> r_app r' a = r_app r a \<Longrightarrow> hosts_ok r' a = hosts_ok r a"
  by (simp_all add: same_identity_def ikey_def shown_def hosts_ok_def)

lemma thread_ok_mono:
  assumes "same_identity r r'" "\<And>a i. shown r a i \<Longrightarrow> shown r' a i" "thread_ok M r c p"
  shows "thread_ok M r' c p"
  using assms same_identityD(1)[OF assms(1)] by (auto simp: thread_ok_def split: call.splits pc.splits)

lemma race_step:
  assumes "race_inv M calls (pcs, r)" "thread_step (calls t) (pcs t) r = (p, r1)"
  shows "race_inv M calls (pcs(t := p), r1) \<and> same_identity r r1"
proof -
  have apps: "r_apps r k = Some a" "hosts_ok r a" if "M k = Some a" for k a using assms(1) that by (simp_all add: race_inv_def)
  have ok: "thread_ok M r (calls u) (pcs u)" for u using assms(1) by (simp add: race_inv_def)
  have refl: "same_identity r r" by (simp add: same_identity_def)
  obtain i ts where c: "calls t = RegisterCall i ts" using ok[of t] by (auto simp: thread_ok_def split: call.splits)
  have "same_identity r r1 \<and> (\<forall>k a. M k = Some a \<longrightarrow> r_apps r1 k = Some a \<and> hosts_ok r1 a) \<and> (\<forall>a i. shown r a i \<longrightarrow> shown r1 a i)
      \<and> thread_ok M r1 (calls t) p"
  proof (cases "pcs t")
    case Idle
    then obtain a where a: "M (ikey r i) = Some a" using ok[of t] c by (auto simp: thread_ok_def)
    then have "r1 = r" "p = Adding (ikey r i) a"
      using assms(2) c Idle apps(1)[OF a] by (auto simp: Register_lookup_def ikey_def Let_def)
    then show ?thesis using a c apps refl by (simp add: thread_ok_def)
  next
    case (Adding k a)
    then have k: "k = ikey r i" "M k = Some a" using ok[of t] c by (auto simp: thread_ok_def)
    obtain x b where add: "AddInstance a i ts r = (x, b, r1)" and p: "p = Storing k a"
      using assms(2) c Adding by (auto split: prod.splits)
    note eff = AddInstance_effect[OF add apps(2)[OF k(2)]]
    have "shown r1 b i" if "shown r b i" for b i
      using that eff(6) same_identityD(2)[OF eff(1)] eff(5) by (cases "b = a") auto
    moreover have "hosts_ok r1 b" if "M k = Some b" for k b
      using eff(4) apps(2)[OF that] same_identityD(3)[OF eff(1)] eff(5) by (cases "b = a") auto
    ultimately show ?thesis using eff k p c apps same_identityD(1)[OF eff(1)] by (simp add: thread_ok_def)
  next
    case (Storing k a)
    then have k: "k = ikey r i" "M k = Some a" "shown r a i" using ok[of t] c by (auto simp: thread_ok_def)
    have "r1 = r" "p = Finished"
      using assms(2) c Storing apps(1)[OF k(2)] by (auto simp: Register_store_def fun_upd_idem)
    then show ?thesis using k c apps refl by (simp add: thread_ok_def)
  next
    case Finished
    then show ?thesis using assms(2) c ok[of t] apps refl by simp
  qed (use ok[of t] c in \<open>simp_all add: thread_ok_def\<close>)
  then show ?thesis using ok thread_ok_mono[of r r1 M] by (auto simp: race_inv_def)
qed

lemma race_run:
  "race_inv M calls s \<Longrightarrow> race_inv M calls (run_threads calls sched s) \<and> same_identity (snd s) (snd (run_threads calls sched s))"
proof (induction sched arbitrary: s)
  case (Cons t sched)
  obtain pcs r where s: "s = (pcs, r)" by force
  obtain p r1 where p: "thread_step (calls t) (pcs t) r = (p, r1)" by force
  from race_step[OF Cons.prems[unfolded s] p] Cons.IH[of "(pcs(t := p), r1)"] show ?case
    by (auto simp: s p same_identity_def)
qed (simp add: same_identity_def)

text \<open>C22: Concurrent registrations of instances of applications that the registry already has lose nothing: whatever the
  schedule of the calls' critical sections, once a call has returned, its host is registered with an instance that is not older than
  its own.\<close>

theorem concurrent_registers_visible:
  assumes "reg_inv r" "\<And>t. \<exists>i ts. calls t = RegisterCall i ts \<and> r_apps r (ikey r i) \<noteq> None"
    and "run_threads calls sched ((\<lambda>_. Idle), r) = (pcs, r')" "pcs t = Finished" "calls t = RegisterCall i ts"
  shows "\<exists>x. reg_view r' (ikey r i, i_Hostname (r_ins r i)) = Some x \<and> i_DirtyTimestamp (r_ins r i) \<le> i_DirtyTimestamp x"
proof -
  have "hosts_ok r a" if "r_apps r k = Some a" for k a
    using reg_invD(4)[OF assms(1) that] by (auto simp: hosts_ok_def dest: map_of_SomeD)
  moreover have "thread_ok (r_apps r) r (calls t) Idle" for t using assms(2)[of t] by (auto simp: thread_ok_def)
  ultimately have "race_inv (r_apps r) calls ((\<lambda>_. Idle), r)" by (simp add: race_inv_def)
  from race_run[OF this, of sched] have inv: "race_inv (r_apps r) calls (pcs, r')" and same: "same_identity r r'" by (simp_all add: assms(3))
  have "thread_ok (r_apps r) r' (calls t) (pcs t)" using inv by (simp add: race_inv_def)
  then obtain a where "r_apps r (ikey r' i) = Some a" "shown r' a i" using assms(4,5) by (auto simp: thread_ok_def)
  then show ?thesis using inv same same_identityD(1)[OF same] by (auto simp: race_inv_def reg_view_app shown_def same_identity_def)
qed

text \<open>Three hosts of one application; the first is registered alone.\<close>

definition host_request :: "string \<Rightarrow> RequestRegister" where
  "host_request h = example_request\<lparr>q_Hostname := h\<rparr>"

definition two_created :: "Registry \<Rightarrow> Registry" where
  "two_created r = snd (alloc_ins (NewInstance 6 (host_request ''h2'')) (snd (alloc_ins (NewInstance 6 (host_request ''h1'')) r)))"

lemma two_created_eq:
  "two_created r = r\<lparr>r_nextins := r_nextins r + 2, r_ins := (r_ins r)(r_nextins r := NewInstance 6 (host_request ''h1''),
      Suc (r_nextins r) := NewInstance 6 (host_request ''h2''))\<rparr>"
  by (simp add: two_created_def alloc_ins_def)

definition one_host :: Registry where
  "one_host = two_created (snd (reg_step (RegisterOp 5 (host_request ''h0'')) NewRegistry))"

lemma one_host_eq:
  "one_host = \<lparr>r_apps = [getKey ''com.xx.testapp'' ''dev'' \<mapsto> 0],
     r_app = (\<lambda>_. NewApplication [])(0 := \<lparr>a_appid = ''com.xx.testapp'', a_instances = [(''h0'', 0)], a_latestTimestamp = 7\<rparr>),
     r_ins = (\<lambda>_. no_instance)(0 := NewInstance 5 (host_request ''h0''), 1 := NewInstance 6 (host_request ''h1''),
       2 := NewInstance 6 (host_request ''h2'')), r_nextapp = 1, r_nextins = 3\<rparr>"
  by (simp add: one_host_def two_created_eq reg_step_def register_request_def alloc_ins_def Register_def NewRegistry_def
      Register_lookup_def Let_def host_request_def example_request_def alloc_app_def AddInstance_def upLatestTimestamp_def
      NewApplication_def Register_store_def numeral_2_eq_2)

theorem concurrent_registers_visible_witness:
  "\<exists>x. reg_view (snd (run_threads (\<lambda>t. RegisterCall (if t = 0 then 1 else 2) 7) [0, 1, 1, 0, 0, 1] ((\<lambda>_. Idle), one_host)))
       (getKey ''com.xx.testapp'' ''dev'', ''h1'') = Some x \<and> 6 \<le> i_DirtyTimestamp x"
proof -
  let ?calls = "\<lambda>t::nat. RegisterCall (if t = 0 then 1 else 2) 7"
  obtain pcs r' where run: "run_threads ?calls [0, 1, 1, 0, 0, 1] ((\<lambda>_. Idle), one_host) = (pcs, r')" by force
  have ins: "r_ins one_host 1 = NewInstance 6 (host_request ''h1'')" "r_ins one_host 2 = NewInstance 6 (host_request ''h2'')"
    by (simp_all add: one_host_eq)
  have key: "ikey one_host 1 = getKey ''com.xx.testapp'' ''dev''" "ikey one_host 2 = getKey ''com.xx.testapp'' ''dev''"
    by (simp_all add: ikey_def one_host_eq host_request_def example_request_def)
  have "reg_inv one_host"
    by (simp add: reg_inv_def app_ok_def unshared_def one_host_eq host_request_def)
  moreover have "r_apps one_host (getKey ''com.xx.testapp'' ''dev'') \<noteq> None" by (simp add: one_host_eq)
  moreover have "pcs 0 = Finished" using run by (auto split: prod.splits)
  ultimately show ?thesis
    using concurrent_registers_visible[of one_host ?calls "[0, 1, 1, 0, 0, 1]" pcs r' 0 1 7, OF _ _ run, unfolded key ins] run
    by (auto simp: host_request_def key[unfolded One_nat_def])
qed

section \<open>Registrations that are lost\<close>

text \<open>Two concurrent registrations of an application that is not registered yet can lose one of them: both find no
  application and create one, and the second to store it replaces the first.  Both calls return success, and the first host is not
  registered.\<close>

theorem first_registrations_race:
  "case run_threads (\<lambda>t. RegisterCall t 7) [0, 1, 0, 1, 0, 1] ((\<lambda>_. Idle), two_created NewRegistry) of
     (pcs, r) \<Rightarrow> pcs 0 = Finished \<and> pcs 1 = Finished
       \<and> reg_view r (getKey ''com.xx.testapp'' ''dev'', ''h1'') = None
       \<and> reg_view r (getKey ''com.xx.testapp'' ''dev'', ''h2'') \<noteq> None"
  by (simp add: two_created_eq NewRegistry_def Register_lookup_def Let_def host_request_def example_request_def alloc_app_def
      AddInstance_def upLatestTimestamp_def NewApplication_def Register_store_def reg_view_def)

text \<open>In the same way a cancellation of the last instance can remove an application to which an instance has just been added.\<close>

lemma cancel_registration_race:
  "case run_threads (\<lambda>t. if t = 0 then CancelCall ''dev'' ''com.xx.testapp'' ''h0'' 8 else RegisterCall 1 7) [0, 0, 1, 1, 1, 0]
       ((\<lambda>_. Idle), one_host) of
     (pcs, r) \<Rightarrow> pcs 1 = Finished \<and> reg_view r (getKey ''com.xx.testapp'' ''dev'', ''h1'') = None"
  by (simp add: one_host_eq getApplication_def Application_Cancel_def Register_lookup_def Let_def host_request_def example_request_def
      AddInstance_def upLatestTimestamp_def Register_store_def Cancel_delete_def reg_view_def)

end
