(* ===== verification/Work_Pool.thy ===== *)
theory Work_Pool
  imports My_Queue "HOL-Library.Multiset"
begin

text \<open>
  The worker pool of \<^verbatim>\<open>workpool/workpool.go\<close>, on top of the guarded queue of \<open>My_Queue\<close>.  Its goroutines are a step relation: the callers
  of \<open>Do\<close>, the dispatcher \<open>startQueue\<close> that moves tasks from the queue to the channel \<open>task\<close>, the workers started by \<open>loop\<close>, the
  goroutine that watches the time limit of each run, and one call of \<open>Wait\<close>.  A task is a handler, whose result is given by
  the argument \<open>outcome\<close>; the value \<open>Some None\<close> of the queue is a nil handler.  Every access to shared state is a step of its own.

  The environment follows the protocol of the package's tests: \<open>Wait\<close> is called once, after the last call of \<open>Do\<close> has
  returned.
\<close>

section \<open>State\<close>

datatype 'e pool_error = TaskErr 'e | DeadlineExceeded

datatype 'f dispatcher = D_off | D_pop | D_check "'f option option" | D_close | D_send 'f | D_leave | D_done

datatype ('f, 'e) worker = W_idle | W_got 'f | W_run nat 'f | W_err "'e pool_error" | W_store | W_exit

datatype 'e waiter = V_off | V_queue | V_close | V_task | V_flag | V_chan | V_wg | V_select | V_ret "'e pool_error option"

record ('f, 'e) WorkPool =
  w_closed :: bool
  w_isQueTask :: bool
  w_errChan :: "'e pool_error list"
  w_timeout :: bool
  w_wg :: nat
  w_task :: "'f list"
  w_cap :: nat
  w_task_closed :: bool
  w_waitingQueue :: "'f option MyQueue"
  w_pushing :: "'f option list"
  w_dispatcher :: "'f dispatcher"
  w_workers :: "('f, 'e) worker list"
  w_timers :: "nat list"
  w_expired :: nat
  w_finished :: "nat list"
  w_wait :: "'e waiter"
  w_panicked :: bool
  w_loop :: nat
  w_pushed :: "'f option list"
  w_taken :: "'f option option list"
  w_ran :: "'f list"

text \<open>
  \<open>w_loop\<close> counts what \<open>loop\<close> has done: 0 nothing, 1 started the dispatcher, 2 added to the wait group and started the workers.
  \<open>w_timers\<close> are the runs whose time limit is watched, \<open>w_expired\<close> the watchers that have sent their error and not yet set
  \<open>closed\<close>, \<open>w_finished\<close> the runs that have ended.  The last three fields record what was pushed, what the dispatcher took, and the
  tasks in the order they were started.
\<close>

definition pool_New :: "int \<Rightarrow> ('f, 'e) WorkPool" where
  "pool_New most =
     (let n = (if most < 1 then 1 else most)
      in \<lparr>w_closed = False, w_isQueTask = False, w_errChan = [], w_timeout = False, w_wg = 0, w_task = [], w_cap = nat (2 * n),
          w_task_closed = False, w_waitingQueue = MyQueue_New, w_pushing = [], w_dispatcher = D_done, w_workers = [],
          w_timers = [], w_expired = 0, w_finished = [], w_wait = V_off, w_panicked = False, w_loop = 0,
          w_pushed = [], w_taken = [], w_ran = []\<rparr>)"

definition SetTimeout :: "int \<Rightarrow> ('f, 'e) WorkPool \<Rightarrow> ('f, 'e) WorkPool" where
  "SetTimeout timeout s = s\<lparr>w_timeout := timeout > 0\<rparr>"

definition IsClosed :: "('f, 'e) WorkPool \<Rightarrow> bool" where
  "IsClosed s = w_closed s"

definition IsDone :: "('f, 'e) WorkPool \<Rightarrow> bool" where
  "IsDone s \<longleftrightarrow> MyQueue_Len (w_waitingQueue s) = 0 \<and> w_task s = []"

section \<open>Steps\<close>

text \<open>The two parts of \<open>loop\<close>, for \<open>n\<close> workers.\<close>

inductive loop_step :: "nat \<Rightarrow> ('f, 'e) WorkPool \<Rightarrow> ('f, 'e) WorkPool \<Rightarrow> bool" for n where
  loop_queue: "w_loop s = 0 \<Longrightarrow> loop_step n s (s\<lparr>w_loop := 1, w_dispatcher := D_off\<rparr>)"
| loop_workers: "w_loop s = 1 \<Longrightarrow> loop_step n s (s\<lparr>w_loop := 2, w_wg := w_wg s + n, w_workers := replicate n W_idle\<rparr>)"

inductive client_step :: "('f, 'e) WorkPool \<Rightarrow> ('f, 'e) WorkPool \<Rightarrow> bool" where
  set_timeout: "client_step s (SetTimeout t s)"
| do_check: "w_wait s = V_off \<Longrightarrow> \<not> IsClosed s \<Longrightarrow> client_step s (s\<lparr>w_pushing := w_pushing s @ [f]\<rparr>)"
| do_push: "w_pushing s = a @ f # b \<Longrightarrow> MyQueue_Push (Some f) (w_waitingQueue s) = Inr q \<Longrightarrow>
    client_step s (s\<lparr>w_pushing := a @ b, w_waitingQueue := q,
      w_pushed := (if m_closed (w_waitingQueue s) then w_pushed s else w_pushed s @ [f])\<rparr>)"

inductive startQueue_step :: "('f, 'e) WorkPool \<Rightarrow> ('f, 'e) WorkPool \<Rightarrow> bool" where
  q_start: "w_dispatcher s = D_off \<Longrightarrow> startQueue_step s (s\<lparr>w_isQueTask := True, w_dispatcher := D_pop\<rparr>)"
| q_pop: "w_dispatcher s = D_pop \<Longrightarrow> Pop_attempt (w_waitingQueue s) = Inr (Some v, q) \<Longrightarrow>
    startQueue_step s (s\<lparr>w_waitingQueue := q, w_dispatcher := D_check v, w_taken := w_taken s @ [v]\<rparr>)"
| q_closed: "w_dispatcher s = D_check v \<Longrightarrow> IsClosed s \<Longrightarrow> startQueue_step s (s\<lparr>w_dispatcher := D_close\<rparr>)"
| q_close: "w_dispatcher s = D_close \<Longrightarrow>
    startQueue_step s (s\<lparr>w_waitingQueue := MyQueue_Close (w_waitingQueue s), w_dispatcher := D_leave\<rparr>)"
| q_check: "w_dispatcher s = D_check v \<Longrightarrow> \<not> IsClosed s \<Longrightarrow>
    startQueue_step s (s\<lparr>w_dispatcher := (case v of None \<Rightarrow> D_leave | Some None \<Rightarrow> D_pop | Some (Some f) \<Rightarrow> D_send f)\<rparr>)"
| q_send: "w_dispatcher s = D_send f \<Longrightarrow> \<not> w_task_closed s \<Longrightarrow> length (w_task s) < w_cap s \<Longrightarrow>
    startQueue_step s (s\<lparr>w_task := w_task s @ [f], w_dispatcher := D_pop\<rparr>)"
| q_panic: "w_dispatcher s = D_send f \<Longrightarrow> w_task_closed s \<Longrightarrow> startQueue_step s (s\<lparr>w_panicked := True\<rparr>)"
| q_leave: "w_dispatcher s = D_leave \<Longrightarrow> startQueue_step s (s\<lparr>w_isQueTask := False, w_dispatcher := D_done\<rparr>)"

text \<open>Worker \<open>i\<close>; the number of a run is the number of runs before it.\<close>

inductive worker_step :: "('f \<Rightarrow> 'e option) \<Rightarrow> nat \<Rightarrow> ('f, 'e) WorkPool \<Rightarrow> ('f, 'e) WorkPool \<Rightarrow> bool" for outcome i where
  w_recv: "i < length (w_workers s) \<Longrightarrow> w_workers s ! i = W_idle \<Longrightarrow> w_task s = f # fs \<Longrightarrow>
    worker_step outcome i s (s\<lparr>w_task := fs, w_workers := (w_workers s)[i := W_got f]\<rparr>)"
| w_drop: "i < length (w_workers s) \<Longrightarrow> w_workers s ! i = W_got f \<Longrightarrow> w_closed s \<Longrightarrow>
    worker_step outcome i s (s\<lparr>w_workers := (w_workers s)[i := W_idle]\<rparr>)"
| w_start: "i < length (w_workers s) \<Longrightarrow> w_workers s ! i = W_got f \<Longrightarrow> \<not> w_closed s \<Longrightarrow>
    worker_step outcome i s (s\<lparr>w_workers := (w_workers s)[i := W_run (length (w_ran s)) f], w_ran := w_ran s @ [f],
      w_timers := (if w_timeout s then length (w_ran s) # w_timers s else w_timers s)\<rparr>)"
| w_ok: "i < length (w_workers s) \<Longrightarrow> w_workers s ! i = W_run k f \<Longrightarrow> outcome f = None \<Longrightarrow>
    worker_step outcome i s (s\<lparr>w_workers := (w_workers s)[i := W_idle], w_finished := k # w_finished s\<rparr>)"
| w_fail: "i < length (w_workers s) \<Longrightarrow> w_workers s ! i = W_run k f \<Longrightarrow> outcome f = Some e \<Longrightarrow>
    worker_step outcome i s (s\<lparr>w_workers := (w_workers s)[i := W_err (TaskErr e)], w_finished := k # w_finished s\<rparr>)"
| w_report: "i < length (w_workers s) \<Longrightarrow> w_workers s ! i = W_err e \<Longrightarrow> w_errChan s = [] \<Longrightarrow>
    worker_step outcome i s (s\<lparr>w_errChan := [e], w_workers := (w_workers s)[i := W_store]\<rparr>)"
| w_ignore: "i < length (w_workers s) \<Longrightarrow> w_workers s ! i = W_err e \<Longrightarrow> w_errChan s \<noteq> [] \<Longrightarrow>
    worker_step outcome i s (s\<lparr>w_workers := (w_workers s)[i := W_idle]\<rparr>)"
| w_stored: "i < length (w_workers s) \<Longrightarrow> w_workers s ! i = W_store \<Longrightarrow>
    worker_step outcome i s (s\<lparr>w_closed := True, w_workers := (w_workers s)[i := W_idle]\<rparr>)"
| w_done: "i < length (w_workers s) \<Longrightarrow> w_workers s ! i = W_idle \<Longrightarrow> w_task s = [] \<Longrightarrow> w_task_closed s \<Longrightarrow>
    worker_step outcome i s (s\<lparr>w_workers := (w_workers s)[i := W_exit], w_wg := w_wg s - 1\<rparr>)"

text \<open>The watcher of a run ends once the run has, or sends the error when the time limit is over, for which it needs room in the channel.\<close>

inductive timer_step :: "('f, 'e) WorkPool \<Rightarrow> ('f, 'e) WorkPool \<Rightarrow> bool" where
  t_fire: "w_timers s = a @ k # b \<Longrightarrow> w_errChan s = [] \<Longrightarrow>
    timer_step s (s\<lparr>w_timers := a @ b, w_errChan := [DeadlineExceeded], w_expired := w_expired s + 1\<rparr>)"
| t_store: "w_expired s > 0 \<Longrightarrow> timer_step s (s\<lparr>w_expired := w_expired s - 1, w_closed := True\<rparr>)"
| t_stop: "w_timers s = a @ k # b \<Longrightarrow> k \<in> set (w_finished s) \<Longrightarrow> timer_step s (s\<lparr>w_timers := a @ b\<rparr>)"

inductive Wait_step :: "('f, 'e) WorkPool \<Rightarrow> ('f, 'e) WorkPool \<Rightarrow> bool" where
  v_call: "w_wait s = V_off \<Longrightarrow> w_pushing s = [] \<Longrightarrow> Wait_step s (s\<lparr>w_wait := V_queue\<rparr>)"
| v_queue: "w_wait s = V_queue \<Longrightarrow> MyQueue_Wait_done (w_waitingQueue s) \<Longrightarrow> Wait_step s (s\<lparr>w_wait := V_close\<rparr>)"
| v_close: "w_wait s = V_close \<Longrightarrow>
    Wait_step s (s\<lparr>w_waitingQueue := MyQueue_Close (w_waitingQueue s), w_wait := V_task\<rparr>)"
| v_done: "w_wait s = V_task \<Longrightarrow> IsDone s \<Longrightarrow> Wait_step s (s\<lparr>w_wait := V_flag\<rparr>)"
| v_flag: "w_wait s = V_flag \<Longrightarrow> Wait_step s (s\<lparr>w_wait := (if w_isQueTask s then V_task else V_chan)\<rparr>)"
| v_chan: "w_wait s = V_chan \<Longrightarrow> Wait_step s (s\<lparr>w_task_closed := True, w_wait := V_wg\<rparr>)"
| v_wg: "w_wait s = V_wg \<Longrightarrow> w_wg s = 0 \<Longrightarrow> Wait_step s (s\<lparr>w_wait := V_select\<rparr>)"
| v_error: "w_wait s = V_select \<Longrightarrow> w_errChan s = e # es \<Longrightarrow> Wait_step s (s\<lparr>w_errChan := es, w_wait := V_ret (Some e)\<rparr>)"
| v_nil: "w_wait s = V_select \<Longrightarrow> w_errChan s = [] \<Longrightarrow> Wait_step s (s\<lparr>w_wait := V_ret None\<rparr>)"

inductive pool_step :: "('f \<Rightarrow> 'e option) \<Rightarrow> nat \<Rightarrow> ('f, 'e) WorkPool \<Rightarrow> ('f, 'e) WorkPool \<Rightarrow> bool" for outcome n where
  by_loop: "loop_step n s s' \<Longrightarrow> pool_step outcome n s s'"
| by_client: "client_step s s' \<Longrightarrow> pool_step outcome n s s'"
| by_queue: "startQueue_step s s' \<Longrightarrow> pool_step outcome n s s'"
| by_worker: "worker_step outcome i s s' \<Longrightarrow> pool_step outcome n s s'"
| by_timer: "timer_step s s' \<Longrightarrow> pool_step outcome n s s'"
| by_wait: "Wait_step s s' \<Longrightarrow> pool_step outcome n s s'"

text \<open>\<open>DoWait\<close> submits a task as \<open>Do\<close> does, wrapped so that its end closes a channel, and then waits on the channel: it can return only when a run
  of the task has ended.\<close>

definition DoWait_returns :: "'f \<Rightarrow> ('f, 'e) WorkPool \<Rightarrow> bool" where
  "DoWait_returns f s \<longleftrightarrow> (\<exists>k \<in> set (w_finished s). k < length (w_ran s) \<and> w_ran s ! k = f)"

end
