(* ===== verification/Work_Pool_Safety.thy ===== *)
theory Work_Pool_Safety
  imports Work_Pool
begin

text \<open>
  What the worker pool of \<open>Work_Pool\<close> guarantees: the dispatcher never sends on the closed task channel, and a call of \<open>Wait\<close> that returns nil
  returns after every task has run and succeeded, provided the pool had started its workers.  The invariants are proved by
  groups: the stages of \<open>Wait\<close>, the queue, the tasks in flight, the wait group, and the errors.
\<close>

section \<open>Runs\<close>

definition workers :: "int \<Rightarrow> nat" where
  "workers most = nat (if most < 1 then 1 else most)"

definition pool_started :: "int \<Rightarrow> ('f, 'e) WorkPool" where
  "pool_started most = (pool_New most)\<lparr>w_loop := 2, w_dispatcher := D_off, w_wg := workers most, w_workers := replicate (workers most) W_idle\<rparr>"

lemma workers_pos: "0 < workers most"
  by (simp add: workers_def)

lemma pool_started_reached: "(pool_step outcome (workers most))\<^sup>*\<^sup>* (pool_New most) (pool_started most)"
proof -
  let ?s1 = "(pool_New most :: ('a, 'b) WorkPool)\<lparr>w_loop := 1, w_dispatcher := D_off\<rparr>"
  have "loop_step (workers most) (pool_New most) ?s1" by (rule loop_queue) (simp add: pool_New_def Let_def)
  moreover have "loop_step (workers most) ?s1 (pool_started most)"
    using loop_workers[of ?s1 "workers most"] by (simp add: pool_started_def pool_New_def Let_def)
  ultimately show ?thesis by (meson by_loop converse_rtranclp_into_rtranclp rtranclp.rtrancl_refl)
qed

inductive_cases pool_stepE: "pool_step outcome n s s'"

fun stage :: "'e waiter \<Rightarrow> nat" where
  "stage V_off = 0"
| "stage V_queue = 1"
| "stage V_close = 2"
| "stage V_task = 3"
| "stage V_flag = 4"
| "stage V_chan = 5"
| "stage V_wg = 6"
| "stage V_select = 7"
| "stage (V_ret e) = 8"

text \<open>The task the dispatcher holds, and the task a worker has received and not started.\<close>

fun held_d :: "'f dispatcher \<Rightarrow> 'f multiset" where
  "held_d (D_check (Some (Some f))) = {#f#}"
| "held_d (D_send f) = {#f#}"
| "held_d _ = {#}"

fun held_w :: "('f, 'e) worker \<Rightarrow> 'f multiset" where
  "held_w (W_got f) = {#f#}"
| "held_w _ = {#}"

lemma Pop_closed: "m_closed q \<Longrightarrow> Pop_attempt q = Inr (Some v, q') \<Longrightarrow> v = None \<and> q' = q"
  by (auto simp: Pop_attempt_def)

lemma Close_closed [simp]: "m_closed (MyQueue_Close q)"
  by (simp add: MyQueue_Close_def)

lemma Push_closed: "MyQueue_Push v q = Inr q' \<Longrightarrow> m_closed q' = m_closed q"
  by (auto simp: MyQueue_Push_def split: if_splits)

section \<open>The stages of Wait\<close>

definition safe :: "('f, 'e) WorkPool \<Rightarrow> bool" where
  "safe s \<longleftrightarrow> \<not> w_panicked s \<and> (3 \<le> stage (w_wait s) \<longrightarrow> m_closed (w_waitingQueue s))
     \<and> (\<not> w_isQueTask s \<longrightarrow> w_dispatcher s = D_off \<or> w_dispatcher s = D_done)
     \<and> (5 \<le> stage (w_wait s) \<longrightarrow> held_d (w_dispatcher s) = {#})
     \<and> (w_task_closed s \<longleftrightarrow> 6 \<le> stage (w_wait s))"

lemma safe_queue:
  assumes "startQueue_step s s'" "safe s"
  shows "safe s'"
  using assms(1)
proof cases
  case (q_pop v q)
  then show ?thesis
  proof (cases "m_closed (w_waitingQueue s)")
    case True
    then show ?thesis using q_pop Pop_closed[OF True q_pop(3)] assms(2) by (auto simp: safe_def)
  next
    case False
    then show ?thesis using q_pop assms(2) by (auto simp: safe_def)
  qed
next
  case (q_check v)
  then show ?thesis using assms(2) by (auto simp: safe_def split: option.splits)
qed (use assms(2) in \<open>auto simp: safe_def\<close>)

lemma safe_step: "pool_step outcome n s s' \<Longrightarrow> safe s \<Longrightarrow> safe s'"
proof (erule pool_stepE)
  assume "client_step s s'" "safe s"
  then show "safe s'" by (cases rule: client_step.cases) (auto simp: safe_def SetTimeout_def Push_closed)
next
  assume "startQueue_step s s'" "safe s"
  then show "safe s'" by (rule safe_queue)
next
  assume "Wait_step s s'" "safe s"
  then show "safe s'" by (cases rule: Wait_step.cases) (auto simp: safe_def)
next
  fix i
  assume "worker_step outcome i s s'" "safe s"
  then show "safe s'" by (cases rule: worker_step.cases) (auto simp: safe_def)
next
  assume "loop_step n s s'" "safe s"
  then show "safe s'" by (cases rule: loop_step.cases) (auto simp: safe_def)
next
  assume "timer_step s s'" "safe s"
  then show "safe s'" by (cases rule: timer_step.cases) (auto simp: safe_def)
qed

interpretation work_pool: keeps_invariant "pool_step outcome n" safe for outcome n
  by unfold_locales (rule safe_step[rotated])

lemma safe_New: "safe (pool_New most)"
  by (simp add: safe_def pool_New_def Let_def)

text \<open>C11: Whatever the interleaving, the dispatcher never sends on the task channel after \<open>Wait\<close> has closed it, which would be a
  panic: \<open>Wait\<close> closes the channel only after the dispatcher has left its loop or found the queue closed.\<close>

theorem no_send_on_closed_channel:
  assumes "(pool_step outcome (workers most))\<^sup>*\<^sup>* (pool_New most) s"
  shows "\<not> w_panicked s \<and> (w_task_closed s \<longrightarrow> held_d (w_dispatcher s) = {#})"
  using work_pool.steps_keep[OF assms safe_New] by (auto simp: safe_def)

section \<open>The queue\<close>

definition handlers :: "'f option option list \<Rightarrow> 'f list" where
  "handlers vs = concat (map (\<lambda>v. case v of Some (Some f) \<Rightarrow> [f] | _ \<Rightarrow> []) vs)"

lemma handlers_simps [simp]: "handlers [] = []" "handlers (xs @ ys) = handlers xs @ handlers ys"
  by (simp_all add: handlers_def)

lemma mset_handlers_single: "mset (handlers [v]) = held_d (D_check v)"
  by (cases "D_check v" rule: held_d.cases) (auto simp: handlers_def)

definition queue_ok :: "('f, 'e) WorkPool \<Rightarrow> bool" where
  "queue_ok s \<longleftrightarrow> myqueue_inv (w_waitingQueue s)
     \<and> (\<not> m_closed (w_waitingQueue s) \<longrightarrow> map Some (w_pushed s) = w_taken s @ queue_list (m_buffer (w_waitingQueue s)))
     \<and> (1 \<le> stage (w_wait s) \<longrightarrow> w_pushing s = [])
     \<and> (2 \<le> stage (w_wait s) \<longrightarrow> m_closed (w_waitingQueue s) \<or> queue_list (m_buffer (w_waitingQueue s)) = [])
     \<and> (m_closed (w_waitingQueue s) \<longrightarrow> \<not> w_closed s \<longrightarrow> handlers (w_taken s) = handlers (map Some (w_pushed s)))
     \<and> (w_dispatcher s = D_close \<longrightarrow> w_closed s)"

lemma Close_inv: "myqueue_inv q \<Longrightarrow> myqueue_inv (MyQueue_Close q)"
  by (simp add: MyQueue_Close_def myqueue_inv_def)

lemma queue_ok_frame:
  assumes "queue_ok s" "w_waitingQueue s' = w_waitingQueue s" "w_pushed s' = w_pushed s" "w_taken s' = w_taken s"
    "w_pushing s' = w_pushing s" "w_wait s' = w_wait s" "w_closed s \<longrightarrow> w_closed s'" "w_dispatcher s' = D_close \<longrightarrow> w_closed s'"
  shows "queue_ok s'"
  using assms by (auto simp: queue_ok_def)

lemma queue_ok_client:
  assumes "client_step s s'" "queue_ok s" "length (w_pushed s') < 2 ^ 31"
  shows "queue_ok s'"
  using assms(1)
proof cases
  case (do_push a f b q)
  let ?q = "w_waitingQueue s"
  show ?thesis
  proof (cases "m_closed ?q")
    case True
    then have "q = ?q" using do_push(3) by (simp add: MyQueue_Push_def)
    then show ?thesis using do_push(1,2) True assms(2) by (auto simp: queue_ok_def)
  next
    case False
    have m: "myqueue_inv ?q" "map Some (w_pushed s) = w_taken s @ queue_list (m_buffer ?q)"
      using assms(2) False by (auto simp: queue_ok_def)
    then have "length (w_pushed s) = length (w_taken s) + length (queue_list (m_buffer ?q))" by (metis length_map length_append)
    then have "m_count ?q < 2 ^ 31 - 1" using m(1) False assms(3) do_push(1) by (simp add: myqueue_inv_def)
    then obtain q' where "MyQueue_Push (Some f) ?q = Inr q'" "myqueue_inv q'" "\<not> m_closed q'"
        "queue_list (m_buffer q') = queue_list (m_buffer ?q) @ [Some f]"
      using Push_open[OF m(1) False, of "Some f"] by blast
    moreover have "stage (w_wait s) = 0" using assms(2) do_push(2) by (auto simp: queue_ok_def)
    ultimately show ?thesis using do_push False m assms(2) by (auto simp: queue_ok_def)
  qed
next
  case (do_check f)
  then show ?thesis using assms(2) by (auto simp: queue_ok_def)
qed (use assms(2) in \<open>auto simp: queue_ok_def SetTimeout_def\<close>)

lemma queue_ok_queue:
  assumes "startQueue_step s s'" "queue_ok s"
  shows "queue_ok s'"
  using assms(1)
proof cases
  case (q_pop v q)
  have "myqueue_inv (w_waitingQueue s)" using assms(2) by (simp add: queue_ok_def)
  then show ?thesis
  proof (cases rule: Pop_attempt_cases)
    case closed
    with q_pop have "v = None" "q = w_waitingQueue s" by auto
    then show ?thesis using q_pop(1,2) closed assms(2) by (auto simp: queue_ok_def handlers_def)
  next
    case (taken w vs m')
    then have "v = w" "q = m'" using q_pop(3) by auto
    moreover have "stage (w_wait s) < 2" using taken(2,4) assms(2) by (auto simp: queue_ok_def not_less)
    moreover have "map Some (w_pushed s) = w_taken s @ w # vs" "1 \<le> stage (w_wait s) \<longrightarrow> w_pushing s = []"
      using taken(2) assms(2) unfolding queue_ok_def taken(4) by blast+
    ultimately show ?thesis using taken(5-7) unfolding q_pop(1) by (simp add: queue_ok_def)
  qed (use q_pop in auto)
next
  case q_close
  then show ?thesis using assms(2) Close_inv[of "w_waitingQueue s"] by (auto simp: queue_ok_def)
next
  case (q_check v)
  then show ?thesis using assms(2) by (auto simp: queue_ok_def split: option.splits)
qed (use assms(2) in \<open>auto simp: queue_ok_def IsClosed_def\<close>)

lemma queue_ok_Wait:
  assumes "Wait_step s s'" "queue_ok s" "safe s"
  shows "queue_ok s'"
  using assms(1)
proof cases
  case v_queue
  have "m_closed (w_waitingQueue s) \<or> queue_list (m_buffer (w_waitingQueue s)) = []"
    using v_queue assms(2) by (auto simp: MyQueue_Wait_done_def MyQueue_Len_def queue_ok_def myqueue_inv_def split: if_splits)
  then show ?thesis using v_queue assms(2) by (auto simp: queue_ok_def)
next
  case v_close
  then show ?thesis
    using assms(2) Close_inv[of "w_waitingQueue s"] by (cases "m_closed (w_waitingQueue s)") (auto simp: queue_ok_def MyQueue_Close_def)
qed (use assms(2) in \<open>auto simp: queue_ok_def\<close>)

section \<open>The tasks in flight\<close>

lemma sum_update:
  fixes h :: "'a \<Rightarrow> 'b::comm_monoid_add"
  shows "i < length xs \<Longrightarrow> sum_list (map h (xs[i := y])) + h (xs ! i) = sum_list (map h xs) + h y"
proof (induction xs arbitrary: i)
  case (Cons x xs)
  then show ?case by (cases i) (auto simp: ac_simps)
qed simp

definition in_flight :: "('f, 'e) WorkPool \<Rightarrow> 'f multiset" where
  "in_flight s = mset (w_ran s) + mset (w_task s) + held_d (w_dispatcher s) + sum_list (map held_w (w_workers s))"

definition flight_ok :: "('f, 'e) WorkPool \<Rightarrow> bool" where
  "flight_ok s \<longleftrightarrow> (\<not> w_closed s \<longrightarrow> mset (handlers (w_taken s)) = in_flight s)"

lemma worker_in_flight:
  assumes "worker_step outcome i s s'" "\<not> w_closed s'"
  shows "in_flight s' = in_flight s" "w_taken s' = w_taken s" "\<not> w_closed s"
proof -
  have upd: "sum_list (map held_w (ws[i := w])) + held_w (ws ! i) = sum_list (map held_w ws) + held_w w"
    if "i < length ws" for ws w using sum_update[OF that] .
  show "w_taken s' = w_taken s" "\<not> w_closed s" using assms by (auto elim: worker_step.cases)
  show "in_flight s' = in_flight s"
    using assms(1)
  proof cases
    case (w_recv f fs)
    then show ?thesis using upd[OF w_recv(2), of "W_got f"] by (simp add: in_flight_def ac_simps)
  next
    case (w_start f)
    then show ?thesis using upd[OF w_start(2), of "W_run (length (w_ran s)) f"] by (simp add: in_flight_def ac_simps)
  next
    case (w_drop f)
    then show ?thesis using assms(2) by simp
  next
    case (w_ok k f)
    then show ?thesis using upd[OF w_ok(2), of W_idle] by (simp add: in_flight_def)
  next
    case (w_fail k f e)
    then show ?thesis using upd[OF w_fail(2), of "W_err (TaskErr e)"] by (simp add: in_flight_def)
  next
    case (w_report e)
    then show ?thesis using upd[OF w_report(2), of W_store] by (simp add: in_flight_def)
  next
    case (w_ignore e)
    then show ?thesis using upd[OF w_ignore(2), of W_idle] by (simp add: in_flight_def)
  next
    case w_stored
    then show ?thesis using assms(2) by simp
  next
    case w_done
    then show ?thesis using upd[OF w_done(2), of W_exit] by (simp add: in_flight_def)
  qed
qed

lemma queue_in_flight:
  assumes "startQueue_step s s'" "flight_ok s"
  shows "flight_ok s'"
  using assms(1)
proof cases
  case (q_pop v q)
  then show ?thesis using assms(2) mset_handlers_single[of v] by (simp add: flight_ok_def in_flight_def ac_simps)
next
  case (q_check v)
  then have "held_d (w_dispatcher s') = held_d (w_dispatcher s)" by (auto split: option.splits)
  then show ?thesis using assms(2) q_check by (simp add: flight_ok_def in_flight_def)
qed (use assms(2) in \<open>auto simp: flight_ok_def in_flight_def IsClosed_def ac_simps\<close>)

section \<open>The wait group\<close>

fun active :: "('f, 'e) worker \<Rightarrow> nat" where
  "active W_exit = 0"
| "active _ = 1"

definition group_ok :: "('f, 'e) WorkPool \<Rightarrow> bool" where
  "group_ok s \<longleftrightarrow> w_loop s = 2 \<and> w_workers s \<noteq> [] \<and> w_wg s = sum_list (map active (w_workers s))
     \<and> (W_exit \<in> set (w_workers s) \<longrightarrow> w_task s = [] \<and> w_task_closed s)
     \<and> (7 \<le> stage (w_wait s) \<longrightarrow> w_wg s = 0)"

lemma active_pos: "w \<noteq> W_exit \<Longrightarrow> active w = 1"
  by (cases w) auto

lemma all_exited: "sum_list (map active ws) = 0 \<Longrightarrow> w \<in> set ws \<Longrightarrow> w = W_exit"
  using active_pos by (force simp: sum_list_eq_0_iff)

lemma group_worker:
  assumes "worker_step outcome i s s'" "group_ok s"
  shows "group_ok s'"
proof -
  have i: "i < length (w_workers s)" "w_workers s ! i \<noteq> W_exit" using assms(1) by (auto elim: worker_step.cases)
  have pos: "0 < w_wg s"
    using all_exited[of "w_workers s" "w_workers s ! i"] i assms(2) by (fastforce simp: group_ok_def)
  then have stage: "stage (w_wait s) < 7" using assms(2) by (auto simp: group_ok_def not_le)
  have sum: "sum_list (map active ((w_workers s)[i := w])) = w_wg s - 1 + active w" for w
    using sum_update[OF i(1), of active w] active_pos[OF i(2)] assms(2) pos by (simp add: group_ok_def)
  have exits: "W_exit \<in> set ((w_workers s)[i := w]) \<Longrightarrow> w \<noteq> W_exit \<Longrightarrow> W_exit \<in> set (w_workers s)" for w
    using set_update_subset_insert[of "w_workers s" i w] by auto
  from assms(1) show ?thesis
  proof cases
    case w_done
    then show ?thesis using assms(2) sum[of W_exit] stage by (simp add: group_ok_def)
  qed (use assms(2) pos sum exits stage in \<open>auto simp: group_ok_def\<close>)
qed

section \<open>Errors\<close>

definition explained :: "('f \<Rightarrow> 'e option) \<Rightarrow> 'f list \<Rightarrow> 'e pool_error \<Rightarrow> bool" where
  "explained outcome fs e \<longleftrightarrow> (case e of DeadlineExceeded \<Rightarrow> True | TaskErr x \<Rightarrow> \<exists>f \<in> set fs. outcome f = Some x)"

definition reporting :: "('f, 'e) worker list \<Rightarrow> 'f \<Rightarrow> bool" where
  "reporting ws f \<longleftrightarrow> (\<exists>k. W_run k f \<in> set ws) \<or> (\<exists>e. W_err e \<in> set ws)"

definition sources_ok :: "('f \<Rightarrow> 'e option) \<Rightarrow> ('f, 'e) WorkPool \<Rightarrow> bool" where
  "sources_ok outcome s \<longleftrightarrow> (\<forall>e \<in> set (w_errChan s). explained outcome (w_ran s) e)
     \<and> (\<forall>e. W_err e \<in> set (w_workers s) \<longrightarrow> explained outcome (w_ran s) e)
     \<and> (\<forall>k f. W_run k f \<in> set (w_workers s) \<longrightarrow> f \<in> set (w_ran s))"

definition reports_ok :: "('f \<Rightarrow> 'e option) \<Rightarrow> ('f, 'e) WorkPool \<Rightarrow> bool" where
  "reports_ok outcome s \<longleftrightarrow> (stage (w_wait s) < 8 \<longrightarrow> w_errChan s = [] \<longrightarrow>
     \<not> w_closed s \<and> W_store \<notin> set (w_workers s) \<and> w_expired s = 0
     \<and> (\<forall>f \<in> set (w_ran s). outcome f \<noteq> None \<longrightarrow> reporting (w_workers s) f))"

lemma in_list_update: "z \<in> set (xs[i := y]) \<Longrightarrow> z = y \<or> z \<in> set xs"
  using set_update_subset_insert[of xs i y] by auto

lemma stays_in_list: "z \<in> set xs \<Longrightarrow> z \<noteq> xs ! i \<Longrightarrow> z \<in> set (xs[i := y])"
  by (metis in_set_conv_nth length_list_update nth_list_update_neq)

lemma explained_mono: "explained outcome fs e \<Longrightarrow> set fs \<subseteq> set fs' \<Longrightarrow> explained outcome fs' e"
  by (auto simp: explained_def split: pool_error.splits)

lemma sources_worker:
  assumes "worker_step outcome i s s'" "sources_ok outcome s"
  shows "sources_ok outcome s'"
proof -
  let ?ws = "w_workers s"
  have at: "i < length ?ws \<Longrightarrow> ?ws ! i \<in> set ?ws" by simp
  from assms(1) show ?thesis
  proof cases
    case (w_start f)
    then show ?thesis
      using assms(2) explained_mono[of outcome "w_ran s" _ "w_ran s @ [f]"] in_list_update[of _ ?ws i]
      by (fastforce simp: sources_ok_def)
  next
    case (w_fail k f e)
    then have "f \<in> set (w_ran s)" using assms(2) at by (auto simp: sources_ok_def)
    then have "explained outcome (w_ran s) (TaskErr e)" using w_fail by (auto simp: explained_def)
    then show ?thesis using w_fail(1) assms(2) in_list_update[of _ ?ws i] by (fastforce simp: sources_ok_def)
  next
    case (w_report e)
    then have "explained outcome (w_ran s) e" using assms(2) at by (auto simp: sources_ok_def)
    then show ?thesis using w_report(1) assms(2) in_list_update[of _ ?ws i] by (fastforce simp: sources_ok_def)
  qed (use assms(2) in_list_update[of _ ?ws i] in \<open>fastforce simp: sources_ok_def\<close>)+
qed

lemma reporting_update:
  assumes "reporting ws f" "\<And>k. ws ! i \<noteq> W_run k f" "\<And>e. ws ! i \<noteq> W_err e"
  shows "reporting (ws[i := w]) f"
  using assms stays_in_list[of _ ws i w] unfolding reporting_def by metis

lemma reports_worker:
  assumes "worker_step outcome i s s'" "reports_ok outcome s"
  shows "reports_ok outcome s'"
proof -
  let ?ws = "w_workers s"
  have store: "W_store \<notin> set ?ws \<Longrightarrow> w \<noteq> W_store \<Longrightarrow> W_store \<notin> set (?ws[i := w])" for w
    using in_list_update[of W_store ?ws i w] by auto
  note rep = reporting_update[of ?ws _ i]
  from assms(1) show ?thesis
  proof cases
    case (w_start f)
    then have "reporting (?ws[i := W_run k f]) f" for k by (auto simp: reporting_def intro!: set_update_memI)
    then show ?thesis using w_start(1,3) assms(2) store rep by (auto simp: reports_ok_def)
  next
    case (w_ok k f)
    then have "reporting (?ws[i := W_idle]) g" if "reporting ?ws g" "outcome g \<noteq> None" for g
      using that by (intro rep) auto
    then show ?thesis using w_ok(1) assms(2) store by (auto simp: reports_ok_def)
  next
    case (w_fail k f e)
    then have "reporting (?ws[i := W_err (TaskErr e)]) g" for g by (auto simp: reporting_def intro!: set_update_memI)
    then show ?thesis using w_fail(1) assms(2) store by (auto simp: reports_ok_def)
  next
    case w_stored
    then have "W_store \<in> set ?ws" by (metis nth_mem)
    then show ?thesis using w_stored(1) assms(2) by (auto simp: reports_ok_def)
  qed (use assms(2) store rep in \<open>auto simp: reports_ok_def\<close>)
qed

section \<open>All groups\<close>

definition pool_inv :: "('f \<Rightarrow> 'e option) \<Rightarrow> ('f, 'e) WorkPool \<Rightarrow> bool" where
  "pool_inv outcome s \<longleftrightarrow> safe s \<and> queue_ok s \<and> flight_ok s \<and> group_ok s \<and> sources_ok outcome s \<and> reports_ok outcome s"

lemma sum_none: "(\<And>x. x \<in> set xs \<Longrightarrow> h x = {#}) \<Longrightarrow> sum_list (map h xs) = {#}"
  by (induction xs) auto

lemma pool_inv_started: "pool_inv outcome (pool_started most)"
proof -
  have none: "sum_list (replicate n {#}) = {#}" "sum_list (replicate n (Suc 0)) = n" for n by (induction n) auto
  have new: "m_buffer MyQueue_New = queue_New" "m_closed MyQueue_New = False" by (simp_all add: MyQueue_New_def)
  show ?thesis
    using workers_pos[of most]
    by (simp add: pool_inv_def safe_def queue_ok_def flight_ok_def in_flight_def group_ok_def sources_ok_def reports_ok_def
        pool_started_def pool_New_def Let_def MyQueue_New_inv new queue_New_inv none)
qed

lemma worker_frame:
  assumes "worker_step outcome i s s'"
  shows "w_waitingQueue s' = w_waitingQueue s" "w_pushed s' = w_pushed s" "w_taken s' = w_taken s" "w_pushing s' = w_pushing s"
    "w_wait s' = w_wait s" "w_closed s \<longrightarrow> w_closed s'" "w_dispatcher s' = w_dispatcher s"
  using assms by (cases; simp)+

lemma timer_frame:
  assumes "timer_step s s'"
  shows "w_waitingQueue s' = w_waitingQueue s" "w_pushed s' = w_pushed s" "w_taken s' = w_taken s" "w_pushing s' = w_pushing s"
    "w_wait s' = w_wait s" "w_closed s \<longrightarrow> w_closed s'" "w_dispatcher s' = w_dispatcher s"
  using assms by (cases; simp)+

lemma client_frame:
  assumes "client_step s s'"
  shows "w_closed s' = w_closed s" "w_taken s' = w_taken s" "w_ran s' = w_ran s" "w_task s' = w_task s" "w_dispatcher s' = w_dispatcher s"
    "w_workers s' = w_workers s" "w_loop s' = w_loop s" "w_wg s' = w_wg s" "w_task_closed s' = w_task_closed s" "w_wait s' = w_wait s"
    "w_errChan s' = w_errChan s" "w_expired s' = w_expired s"
  using assms by (cases; simp add: SetTimeout_def)+

lemma pushed_grows: "pool_step outcome n s s' \<Longrightarrow> length (w_pushed s) \<le> length (w_pushed s')"
proof (erule pool_stepE)
  fix i
  assume "worker_step outcome i s s'"
  then show ?thesis by (simp add: worker_frame)
next
  assume "timer_step s s'"
  then show ?thesis by (simp add: timer_frame)
qed (auto simp: SetTimeout_def elim: loop_step.cases client_step.cases startQueue_step.cases Wait_step.cases)

lemma pool_inv_step:
  assumes "pool_step outcome n s s'" "pool_inv outcome s" "length (w_pushed s') < 2 ^ 31"
  shows "pool_inv outcome s'"
  using assms(1)
proof cases
  case by_loop
  then show ?thesis using assms(2) by (auto simp: pool_inv_def group_ok_def elim: loop_step.cases)
next
  case by_client
  have "flight_ok s' = flight_ok s" "group_ok s' = group_ok s" "sources_ok outcome s' = sources_ok outcome s"
      "reports_ok outcome s' = reports_ok outcome s"
    unfolding flight_ok_def in_flight_def group_ok_def sources_ok_def reports_ok_def client_frame[OF by_client] by (rule refl)+
  then show ?thesis using queue_ok_client[OF by_client _ assms(3)] safe_step[OF assms(1)] assms(2) by (simp add: pool_inv_def)
next
  case by_queue
  from by_queue have "group_ok s'" using assms(2) by (cases; auto simp: pool_inv_def group_ok_def)
  moreover from by_queue have "sources_ok outcome s' = sources_ok outcome s" by (cases; simp add: sources_ok_def)
  moreover from by_queue have "reports_ok outcome s' = reports_ok outcome s" by (cases; simp add: reports_ok_def)
  ultimately show ?thesis
    using queue_ok_queue[OF by_queue] queue_in_flight[OF by_queue] safe_step[OF assms(1)] assms(2) by (simp add: pool_inv_def)
next
  case (by_worker i)
  have "queue_ok s'"
    by (rule queue_ok_frame[of s]) (use worker_frame[OF by_worker] assms(2) in \<open>auto simp: pool_inv_def queue_ok_def\<close>)
  moreover have "flight_ok s'" using worker_in_flight[OF by_worker] assms(2) by (auto simp: flight_ok_def pool_inv_def)
  ultimately show ?thesis
    using group_worker[OF by_worker] sources_worker[OF by_worker] reports_worker[OF by_worker] safe_step[OF assms(1)] assms(2)
    by (simp add: pool_inv_def)
next
  case by_timer
  have "queue_ok s'"
    by (rule queue_ok_frame[of s]) (use timer_frame[OF by_timer] assms(2) in \<open>auto simp: pool_inv_def queue_ok_def\<close>)
  moreover from by_timer have "flight_ok s'" "reports_ok outcome s'"
    using assms(2) by (cases; simp add: pool_inv_def flight_ok_def in_flight_def reports_ok_def)+
  moreover from by_timer have "group_ok s'" using assms(2) by cases (auto simp: pool_inv_def group_ok_def)
  moreover from by_timer have "sources_ok outcome s'"
    using assms(2) by cases (simp_all add: pool_inv_def sources_ok_def explained_def)
  ultimately show ?thesis using safe_step[OF assms(1)] assms(2) by (simp add: pool_inv_def)
next
  case by_wait
  from by_wait have "flight_ok s' = flight_ok s" by (cases; simp add: flight_ok_def in_flight_def)
  moreover from by_wait have "group_ok s'" using assms(2) by (cases; auto simp: pool_inv_def group_ok_def)
  moreover from by_wait have "sources_ok outcome s'" using assms(2) by (cases; simp add: pool_inv_def sources_ok_def)
  moreover from by_wait have "reports_ok outcome s'" using assms(2) by (cases; simp add: pool_inv_def reports_ok_def)
  ultimately show ?thesis using queue_ok_Wait[OF by_wait] safe_step[OF assms(1)] assms(2) by (simp add: pool_inv_def)
qed

lemma pool_inv_reach:
  assumes "(pool_step outcome n)\<^sup>*\<^sup>* s s'" "pool_inv outcome s" "length (w_pushed s') < 2 ^ 31"
  shows "pool_inv outcome s'"
  using assms
proof (induction rule: rtranclp_induct)
  case (step y z)
  then show ?case using pushed_grows[OF step(2)] pool_inv_step[OF step(2)] by simp
qed simp


section \<open>After an error\<close>

lemma closed_step:
  assumes "pool_step outcome n s s'" "w_closed s"
  shows "w_closed s' \<and> w_ran s' = w_ran s"
  using assms(1)
proof cases
  case (by_worker i)
  from by_worker show ?thesis using assms(2) by (cases; simp)
next
  case by_client
  then show ?thesis using assms(2) by (simp add: client_frame)
next
  case by_queue
  from by_queue show ?thesis using assms(2) by (cases; simp)
next
  case by_wait
  from by_wait show ?thesis using assms(2) by (cases; simp)
next
  case by_timer
  from by_timer show ?thesis using assms(2) by (cases; simp)
next
  case by_loop
  from by_loop show ?thesis using assms(2) by (cases; simp)
qed

lemma closed_reach: "(pool_step outcome n)\<^sup>*\<^sup>* s s' \<Longrightarrow> w_closed s \<Longrightarrow> w_closed s' \<and> w_ran s' = w_ran s"
  by (induction rule: rtranclp_induct) (auto dest: closed_step)

text \<open>After the first error or time-out no task is started any more; so a \<open>DoWait\<close> whose task had not been started by then never
  returns, since nothing else closes the channel it waits on.\<close>

theorem closed_pool_starts_nothing:
  assumes "w_closed s" "(pool_step outcome n)\<^sup>*\<^sup>* s s'"
  shows "w_ran s' = w_ran s \<and> (f \<notin> set (w_ran s) \<longrightarrow> \<not> DoWait_returns f s')"
  using closed_reach[OF assms(2,1)] by (auto simp: DoWait_returns_def)

theorem closed_pool_starts_nothing_witness:
  "\<not> DoWait_returns () ((pool_started 1 :: (unit, nat) WorkPool)\<lparr>w_closed := True, w_isQueTask := True, w_dispatcher := D_pop\<rparr>)"
proof -
  let ?s = "(pool_started 1 :: (unit, nat) WorkPool)\<lparr>w_closed := True\<rparr>"
  have "startQueue_step ?s (?s\<lparr>w_isQueTask := True, w_dispatcher := D_pop\<rparr>)"
    by (rule q_start) (simp add: pool_started_def)
  then have "(pool_step (\<lambda>_. None) 1)\<^sup>*\<^sup>* ?s (?s\<lparr>w_isQueTask := True, w_dispatcher := D_pop\<rparr>)" by (meson by_queue r_into_rtranclp)
  from closed_pool_starts_nothing[OF _ this, of "()"] show ?thesis by (simp add: pool_started_def pool_New_def Let_def)
qed

section \<open>Runs of a pool with one worker\<close>

lemma pool_one:
  "pool_started 1 = \<lparr>w_closed = False, w_isQueTask = False, w_errChan = [], w_timeout = False, w_wg = Suc 0, w_task = [], w_cap = 2,
     w_task_closed = False, w_waitingQueue = MyQueue_New, w_pushing = [], w_dispatcher = D_off, w_workers = [W_idle],
     w_timers = [], w_expired = 0, w_finished = [], w_wait = V_off, w_panicked = False, w_loop = 2,
     w_pushed = [], w_taken = [], w_ran = []\<rparr>"
  by (simp add: pool_started_def pool_New_def Let_def workers_def)

lemma one_task:
  fixes f :: 'a
  obtains q q1 where "MyQueue_Push (Some f) MyQueue_New = Inr q" "Pop_attempt q = Inr (Some (Some f), q1)" "m_closed q = False"
    "m_closed q1 = False" "m_count q1 = 0"
proof -
  have "\<not> m_closed (MyQueue_New :: 'a MyQueue)" "m_count (MyQueue_New :: 'a MyQueue) < 2 ^ 31 - 1" "m_count (MyQueue_New :: 'a MyQueue) = 0"
      "queue_list (m_buffer (MyQueue_New :: 'a MyQueue)) = []"
    by (simp_all add: MyQueue_New_def queue_New_inv)
  then obtain q where q: "MyQueue_Push (Some f) MyQueue_New = Inr q" "myqueue_inv q" "\<not> m_closed q" "m_count q = 1"
      "queue_list (m_buffer q) = [Some f]"
    using Push_open[OF MyQueue_New_inv, of "Some f"] by auto
  from q(2) show thesis
  proof (cases rule: Pop_attempt_cases)
    case (taken v vs m')
    then show ?thesis using that[of q m'] q by auto
  qed (use q in auto)
qed

lemma pool_New_one:
  "pool_New 1 = \<lparr>w_closed = False, w_isQueTask = False, w_errChan = [], w_timeout = False, w_wg = 0, w_task = [], w_cap = 2,
     w_task_closed = False, w_waitingQueue = MyQueue_New, w_pushing = [], w_dispatcher = D_done, w_workers = [],
     w_timers = [], w_expired = 0, w_finished = [], w_wait = V_off, w_panicked = False, w_loop = 0,
     w_pushed = [], w_taken = [], w_ran = []\<rparr>"
  by (simp add: pool_New_def Let_def)

lemmas go = rtranclp.rtrancl_into_rtrancl

text \<open>One task, pushed, dispatched and run, and then \<open>Wait\<close>.\<close>

lemma one_task_run:
  obtains s where "(pool_step (\<lambda>_. None) (workers 1))\<^sup>*\<^sup>* (pool_started 1) (s :: (unit, nat) WorkPool)" "w_wait s = V_select"
    "w_pushed s = [Some ()]" "w_ran s = [()]" "w_errChan s = []" "w_task_closed s"
proof -
  obtain q q1 where q: "MyQueue_Push (Some (Some ())) MyQueue_New = Inr q" "m_closed q = False" "Pop_attempt q = Inr (Some (Some (Some ())), q1)"
      and q1: "m_closed q1 = False" "m_count q1 = 0"
    by (rule one_task[of "Some ()"])
  have a: "Pop_attempt (MyQueue_Close q1) = Inr (Some None, MyQueue_Close q1)" by (simp add: Pop_attempt_def)
  have b: "m_count (MyQueue_Close q1) = 0" using q1 by (simp add: MyQueue_Close_def)
  have c: "m_closed (MyQueue_New :: unit option MyQueue) = False" by (simp add: MyQueue_New_def)
  note [simp] = q q1 a b c IsClosed_def IsDone_def MyQueue_Wait_done_def MyQueue_Len_def pool_one pool_New_one
  note r0 = rtranclp.rtrancl_refl[of "pool_step (\<lambda>_. None) (workers 1)" "pool_started 1 :: (unit, nat) WorkPool"]
  note r1 = go[OF r0 by_client[OF do_check[of _ "Some ()"]], simplified]
  note r2 = go[OF r1 by_client[OF do_push[where a = "[]" and b = "[]" and f = "Some ()" and q = q]], simplified]
  note r3 = go[OF r2 by_queue[OF q_start], simplified]
  note r4 = go[OF r3 by_queue[OF q_pop[where v = "Some (Some ())" and q = q1]], simplified]
  note r5 = go[OF r4 by_queue[OF q_check[where v = "Some (Some ())"]], simplified]
  note r6 = go[OF r5 by_queue[OF q_send[where f = "()"]], simplified]
  note r7 = go[OF r6 by_worker[OF w_recv[where i = 0 and f = "()" and fs = "[]"]], simplified]
  note r8 = go[OF r7 by_worker[OF w_start[where i = 0 and f = "()"]], simplified]
  note r9 = go[OF r8 by_worker[OF w_ok[where i = 0 and k = 0 and f = "()"]], simplified]
  note r10 = go[OF r9 by_wait[OF v_call], simplified]
  note r11 = go[OF r10 by_wait[OF v_queue], simplified]
  note r12 = go[OF r11 by_wait[OF v_close], simplified]
  note r13 = go[OF r12 by_queue[OF q_pop[where v = None and q = "MyQueue_Close q1"]], simplified]
  note r14 = go[OF r13 by_queue[OF q_check[where v = None]], simplified]
  note r15 = go[OF r14 by_queue[OF q_leave], simplified]
  note r16 = go[OF r15 by_wait[OF v_done], simplified]
  note r17 = go[OF r16 by_wait[OF v_flag], simplified]
  note r18 = go[OF r17 by_wait[OF v_chan], simplified]
  note r19 = go[OF r18 by_worker[OF w_done[where i = 0]], simplified]
  note r20 = go[OF r19 by_wait[OF v_wg], simplified]
  show thesis by (rule that[OF r20[folded pool_one]]) simp_all
qed


theorem no_send_on_closed_channel_witness:
  "\<exists>s. (pool_step (\<lambda>_. None) (workers 1))\<^sup>*\<^sup>* (pool_New 1) (s :: (unit, nat) WorkPool) \<and> w_task_closed s \<and> \<not> w_panicked s
     \<and> held_d (w_dispatcher s) = {#}"
proof -
  obtain s where s: "(pool_step (\<lambda>_. None) (workers 1))\<^sup>*\<^sup>* (pool_started 1) (s :: (unit, nat) WorkPool)" "w_task_closed s"
    by (rule one_task_run)
  then have "(pool_step (\<lambda>_. None) (workers 1))\<^sup>*\<^sup>* (pool_New 1) s"
    by (intro rtranclp_trans[OF pool_started_reached])
  from no_send_on_closed_channel[OF this] this s(2) show ?thesis by auto
qed

text \<open>A pool whose \<open>loop\<close> goroutine has not yet started its workers can return from \<open>Wait\<close> too early: \<open>wg.Add\<close> runs in that
  goroutine, so \<open>Wait\<close> finds the wait group empty, and it returns nil while the accepted task has not run.\<close>

theorem Wait_before_workers:
  "\<exists>s. (pool_step (\<lambda>_. None) (workers 1))\<^sup>*\<^sup>* (pool_New 1) (s :: (unit, nat) WorkPool) \<and> w_wait s = V_ret None
     \<and> w_pushed s = [Some ()] \<and> w_ran s = []"
proof -
  obtain q q1 where q: "MyQueue_Push (Some (Some ())) MyQueue_New = Inr q" "m_closed q = False" "Pop_attempt q = Inr (Some (Some (Some ())), q1)"
      and q1: "m_closed q1 = False" "m_count q1 = 0"
    by (rule one_task[of "Some ()"])
  have a: "Pop_attempt (MyQueue_Close q1) = Inr (Some None, MyQueue_Close q1)" by (simp add: Pop_attempt_def)
  have b: "m_count (MyQueue_Close q1) = 0" using q1 by (simp add: MyQueue_Close_def)
  have c: "m_closed (MyQueue_New :: unit option MyQueue) = False" by (simp add: MyQueue_New_def)
  note [simp] = q q1 a b c IsClosed_def IsDone_def MyQueue_Wait_done_def MyQueue_Len_def pool_one pool_New_one
  note r0 = rtranclp.rtrancl_refl[of "pool_step (\<lambda>_. None) (workers 1)" "pool_New 1 :: (unit, nat) WorkPool"]
  note r1 = go[OF r0 by_loop[OF loop_queue], simplified]
  note r2 = go[OF r1 by_client[OF do_check[of _ "Some ()"]], simplified]
  note r3 = go[OF r2 by_client[OF do_push[where a = "[]" and b = "[]" and f = "Some ()" and q = q]], simplified]
  note r4 = go[OF r3 by_queue[OF q_start], simplified]
  note r5 = go[OF r4 by_queue[OF q_pop[where v = "Some (Some ())" and q = q1]], simplified]
  note r6 = go[OF r5 by_queue[OF q_check[where v = "Some (Some ())"]], simplified]
  note r7 = go[OF r6 by_wait[OF v_call], simplified]
  note r8 = go[OF r7 by_wait[OF v_queue], simplified]
  note r9 = go[OF r8 by_wait[OF v_close], simplified]
  note r10 = go[OF r9 by_wait[OF v_done], simplified]
  note r11 = go[OF r10 by_queue[OF q_send[where f = "()"]], simplified]
  note r12 = go[OF r11 by_queue[OF q_pop[where v = None and q = "MyQueue_Close q1"]], simplified]
  note r13 = go[OF r12 by_queue[OF q_check[where v = None]], simplified]
  note r14 = go[OF r13 by_queue[OF q_leave], simplified]
  note r15 = go[OF r14 by_wait[OF v_flag], simplified]
  note r16 = go[OF r15 by_wait[OF v_chan], simplified]
  note r17 = go[OF r16 by_wait[OF v_wg], simplified]
  note r18 = go[OF r17 by_wait[OF v_nil], simplified]
  show ?thesis by (rule exI, rule conjI[OF r18[folded pool_New_one]]) simp
qed

end
