(* ===== verification/Worker_Pools.thy ===== *)
theory Worker_Pools
  imports Prelude "HOL-Library.Multiset"
begin

text \<open>
  The two pools of idle workers: \<^verbatim>\<open>zero/pool.go\<close>, which serves the connections of the server, and \<^verbatim>\<open>worker_pool.go\<close>, which serves tasks.
  A worker is the goroutine bound to a \<open>workerChan\<close> and is named by its number.  The critical sections are functions on the pool; the
  goroutines around them are one step relation with the functions in which the two packages differ, \<open>getWorkerChan\<close> and \<open>Clean\<close>, as
  arguments.  Times are numbers of nanoseconds.
\<close>

section \<open>Critical sections\<close>

text \<open>The mutex of \<^verbatim>\<open>zero/pool.go\<close> is a pointer, which can be nil.\<close>

record workerPool =
  p_ready :: "nat list"
  p_last :: "nat \<Rightarrow> int"
  p_count :: int
  p_max :: int
  p_idle :: int
  p_mustStop :: bool
  p_started :: bool
  p_lock :: bool

definition MaxIdleDuration :: "workerPool \<Rightarrow> int" where
  "MaxIdleDuration p = (if p_idle p \<le> 0 then 10 * 1000000000 else p_idle p)"

definition getMaxIdleWorkerDuration :: "workerPool \<Rightarrow> int" where
  "getMaxIdleWorkerDuration p = (if p_idle p \<le> 0 then 10 * 1000000000 else p_idle p)"

text \<open>What the section of \<open>getWorkerChan\<close> yields: the worker it takes, and whether a worker is to be created.\<close>

definition getWorkerChan :: "workerPool \<Rightarrow> (nat option \<times> bool) \<times> workerPool" where
  "getWorkerChan p =
     (let n = int (length (p_ready p)) - 1
      in if n > 0 then ((Some (p_ready p ! nat n), False), p\<lparr>p_ready := take (nat n) (p_ready p)\<rparr>)
         else if p_count p < p_max p then ((None, True), p\<lparr>p_count := p_count p + 1\<rparr>)
         else ((None, False), p))"

definition getCh :: "workerPool \<Rightarrow> (nat option \<times> bool) \<times> workerPool" where
  "getCh p =
     (let n = int (length (p_ready p)) - 1
      in if n < 0
         then if p_count p < p_max p then ((None, True), p\<lparr>p_count := p_count p + 1\<rparr>)
              else ((None, False), p)
         else ((Some (p_ready p ! nat n), False), p\<lparr>p_ready := take (nat n) (p_ready p)\<rparr>))"

text \<open>The binary search of \<open>Clean\<close>: \<open>expired\<close> tests the element at an index.\<close>

function clean_search :: "(int \<Rightarrow> bool) \<Rightarrow> int \<Rightarrow> int \<Rightarrow> int" where
  "clean_search expired l r =
     (if l \<le> r
      then let mid = (l + r) div 2
           in if expired mid then clean_search expired (mid + 1) r else clean_search expired l (mid - 1)
      else r)"
  by pat_completeness auto
termination by (relation "measure (\<lambda>(e, l, r). nat (r + 1 - l))") auto

declare clean_search.simps [simp del]

text \<open>The section of \<open>Clean\<close>: the workers to be told to stop and the pool without them.  \<open>ready\<close> is shifted in place, the rest set to
  nil and cut off.\<close>

definition Clean :: "int \<Rightarrow> workerPool \<Rightarrow> nat list \<times> workerPool" where
  "Clean now p =
     (let beforeTime = now - MaxIdleDuration p; ready = p_ready p; n = int (length ready);
          i = clean_search (\<lambda>mid. beforeTime > p_last p (ready ! nat mid)) 0 (n - 1)
      in if i = -1 then ([], p)
         else let chans = take (nat (i + 1)) ready;
                  shifted = go_copy ready (drop (nat (i + 1)) ready);
                  m = length (drop (nat (i + 1)) ready)
              in (chans, p\<lparr>p_ready := take m shifted\<rparr>))"

fun clean_scan :: "(nat \<Rightarrow> bool) \<Rightarrow> nat list \<Rightarrow> nat" where
  "clean_scan expired [] = 0"
| "clean_scan expired (w # ws) = (if expired w then Suc (clean_scan expired ws) else 0)"

definition clean :: "int \<Rightarrow> workerPool \<Rightarrow> nat list \<times> workerPool" where
  "clean now p =
     (let ready = p_ready p; i = clean_scan (\<lambda>w. now - p_last p w > getMaxIdleWorkerDuration p) ready;
          scratch = take i ready
      in if i > 0
         then let shifted = go_copy ready (drop i ready); m = length (drop i ready)
              in (scratch, p\<lparr>p_ready := take m shifted\<rparr>)
         else (scratch, p))"

text \<open>\<open>Release\<close> has two parts: the time is stored before the mutex is taken.\<close>

definition Release_stamp :: "nat \<Rightarrow> int \<Rightarrow> workerPool \<Rightarrow> workerPool" where
  "Release_stamp w now p = p\<lparr>p_last := (p_last p)(w := now)\<rparr>"

definition Release :: "nat \<Rightarrow> workerPool \<Rightarrow> bool \<times> workerPool" where
  "Release w p = (if p_mustStop p then (False, p) else (True, p\<lparr>p_ready := p_ready p @ [w]\<rparr>))"

text \<open>\<open>Start\<close> and \<open>Stop\<close>, with their panics; \<open>Stop\<close> yields the workers it sends nil to.\<close>

definition Start :: "workerPool \<Rightarrow> workerPool may_panic" where
  "Start p = (if p_started p then Inl (Panic ''workerPool already started'') else Inr (p\<lparr>p_started := True\<rparr>))"

definition Stop :: "workerPool \<Rightarrow> (nat list \<times> workerPool) may_panic" where
  "Stop p =
     (if \<not> p_started p then Inl (Panic ''workerPool wasn't started'')
      else if \<not> p_lock p then Inl NilDereference
      else Inr (p_ready p, p\<lparr>p_started := False, p_ready := [], p_mustStop := True\<rparr>))"

text \<open>The same operations of \<^verbatim>\<open>worker_pool.go\<close>, whose mutex is not a pointer.  \<open>WorkerPool_Serve\<close> yields the worker whose channel gets the
  task (a new one is the number \<open>fresh\<close>).\<close>

definition WorkerPool_Start :: "workerPool \<Rightarrow> workerPool may_panic" where
  "WorkerPool_Start p = (if p_started p then Inl (Panic ''BUG: workerPool already started'') else Inr (p\<lparr>p_started := True\<rparr>))"

definition WorkerPool_Stop :: "workerPool \<Rightarrow> (nat list \<times> workerPool) may_panic" where
  "WorkerPool_Stop p =
     (if \<not> p_started p then Inl (Panic ''BUG: workerPool wasn't started'')
      else Inr (p_ready p, p\<lparr>p_started := False, p_ready := [], p_mustStop := True\<rparr>))"

definition WorkerPool_Serve :: "nat \<Rightarrow> workerPool \<Rightarrow> nat option \<times> workerPool" where
  "WorkerPool_Serve fresh p =
     (case getCh p of ((Some w, _), p1) \<Rightarrow> (Some w, p1) | ((None, create), p1) \<Rightarrow> (if create then Some fresh else None, p1))"

definition WorkerPool_release :: "nat \<Rightarrow> int \<Rightarrow> workerPool \<Rightarrow> bool \<times> workerPool" where
  "WorkerPool_release w now p =
     (let p1 = p\<lparr>p_last := (p_last p)(w := now)\<rparr>
      in if p_mustStop p1 then (False, p1) else (True, p1\<lparr>p_ready := p_ready p1 @ [w]\<rparr>))"

section \<open>Goroutines\<close>

text \<open>
  What a worker does next: it does not exist, it waits on its channel, its channel holds a connection or nil, it runs the handler, it has
  to store the time and append itself to \<open>ready\<close>, or it has to decrease the count and end.  \<open>z_notify\<close> are the workers that \<open>Clean\<close> has removed from
  \<open>ready\<close> and not yet told to stop, \<open>z_accepted\<close> the connections for which \<open>Serve\<close> has returned true, and \<open>z_served\<close> those whose handler
  was called.
\<close>

datatype 'c wstate = Absent | Waiting | HasConn 'c | HasNil | Working 'c | Stamping | Appending | Exiting

record 'c wsys =
  z_pool :: workerPool
  z_st :: "nat \<Rightarrow> 'c wstate"
  z_notify :: "nat list"
  z_accepted :: "'c list"
  z_served :: "'c list"

type_synonym get = "workerPool \<Rightarrow> (nat option \<times> bool) \<times> workerPool"
type_synonym cleaner = "int \<Rightarrow> workerPool \<Rightarrow> nat list \<times> workerPool"

inductive wp_step :: "get \<Rightarrow> cleaner \<Rightarrow> 'c wsys \<Rightarrow> 'c wsys \<Rightarrow> bool" for getw cleanw where
  serve_ready: "getw (z_pool s) = ((Some w, b), p) \<Longrightarrow> z_st s w = Waiting \<Longrightarrow>
    wp_step getw cleanw s (s\<lparr>z_pool := p, z_st := (z_st s)(w := HasConn c), z_accepted := c # z_accepted s\<rparr>)"
| serve_new: "getw (z_pool s) = ((None, True), p) \<Longrightarrow> z_st s w = Absent \<Longrightarrow>
    wp_step getw cleanw s (s\<lparr>z_pool := p, z_st := (z_st s)(w := HasConn c), z_accepted := c # z_accepted s\<rparr>)"
| serve_refused: "getw (z_pool s) = ((None, False), p) \<Longrightarrow> wp_step getw cleanw s (s\<lparr>z_pool := p\<rparr>)"
| receive_conn: "z_st s w = HasConn c \<Longrightarrow>
    wp_step getw cleanw s (s\<lparr>z_st := (z_st s)(w := Working c), z_served := c # z_served s\<rparr>)"
| handler_done: "z_st s w = Working c \<Longrightarrow> wp_step getw cleanw s (s\<lparr>z_st := (z_st s)(w := Stamping)\<rparr>)"
| stamp: "z_st s w = Stamping \<Longrightarrow>
    wp_step getw cleanw s (s\<lparr>z_pool := Release_stamp w now (z_pool s), z_st := (z_st s)(w := Appending)\<rparr>)"
| release: "z_st s w = Appending \<Longrightarrow> Release w (z_pool s) = (ok, p) \<Longrightarrow>
    wp_step getw cleanw s (s\<lparr>z_pool := p, z_st := (z_st s)(w := if ok then Waiting else Exiting)\<rparr>)"
| receive_nil: "z_st s w = HasNil \<Longrightarrow> wp_step getw cleanw s (s\<lparr>z_st := (z_st s)(w := Exiting)\<rparr>)"
| worker_end: "z_st s w = Exiting \<Longrightarrow>
    wp_step getw cleanw s (s\<lparr>z_pool := (z_pool s)\<lparr>p_count := p_count (z_pool s) - 1\<rparr>, z_st := (z_st s)(w := Absent)\<rparr>)"
| cleaning: "z_notify s = [] \<Longrightarrow> cleanw now (z_pool s) = (ws, p) \<Longrightarrow> wp_step getw cleanw s (s\<lparr>z_pool := p, z_notify := ws\<rparr>)"
| notify: "z_notify s = w # ws \<Longrightarrow> z_st s w = Waiting \<Longrightarrow>
    wp_step getw cleanw s (s\<lparr>z_notify := ws, z_st := (z_st s)(w := HasNil)\<rparr>)"
| stopping: "Stop (z_pool s) = Inr (ws, p) \<Longrightarrow>
    wp_step getw cleanw s (s\<lparr>z_pool := p, z_st := (\<lambda>w. if w \<in> set ws then HasNil else z_st s w)\<rparr>)"

definition job_step :: "'c wsys \<Rightarrow> 'c wsys \<Rightarrow> bool" where
  "job_step = wp_step getCh clean"

definition wp_init :: "int \<Rightarrow> int \<Rightarrow> 'c wsys" where
  "wp_init most idle = \<lparr>z_pool = \<lparr>p_ready = [], p_last = (\<lambda>_. 0), p_count = 0, p_max = most, p_idle = idle, p_mustStop = False,
       p_started = True, p_lock = True\<rparr>, z_st = (\<lambda>_. Absent), z_notify = [], z_accepted = [], z_served = []\<rparr>"

section \<open>The contract of the two sections\<close>

text \<open>The laws the goroutines rely on: a worker is taken from the end of \<open>ready\<close>, or one is created below the limit, or nothing changes;
  cleaning removes a first part of \<open>ready\<close>.\<close>

locale idle_workers =
  fixes getw :: "workerPool \<Rightarrow> (nat option \<times> bool) \<times> workerPool"
    and cleanw :: "int \<Rightarrow> workerPool \<Rightarrow> nat list \<times> workerPool"
  assumes get_take: "getw p = ((Some w, b), p') \<Longrightarrow> \<exists>ws. p_ready p = ws @ [w] \<and> p' = p\<lparr>p_ready := ws\<rparr>"
    and get_create: "getw p = ((None, True), p') \<Longrightarrow> p_count p < p_max p \<and> p' = p\<lparr>p_count := p_count p + 1\<rparr>"
    and get_refuse: "getw p = ((None, False), p') \<Longrightarrow> p' = p \<and> p_max p \<le> p_count p"
    and clean_cuts: "cleanw now p = (ws, p') \<Longrightarrow> \<exists>rest. p_ready p = ws @ rest \<and> p' = p\<lparr>p_ready := rest\<rparr>"

text \<open>Workers in \<open>ready\<close> or about to be notified wait on an empty channel; the count is the number of workers that exist and is
  within the limit; a connection that was accepted is served or in the channel of exactly one worker.\<close>

fun pend :: "'c wstate \<Rightarrow> 'c multiset" where
  "pend (HasConn c) = {#c#}"
| "pend _ = {#}"

definition live :: "(nat \<Rightarrow> 'c wstate) \<Rightarrow> nat set" where
  "live f = {w. f w \<noteq> Absent}"

definition in_channels :: "(nat \<Rightarrow> 'c wstate) \<Rightarrow> 'c multiset" where
  "in_channels f = (\<Sum>w \<in> live f. pend (f w))"

definition wp_inv :: "'c wsys \<Rightarrow> bool" where
  "wp_inv s \<longleftrightarrow> distinct (p_ready (z_pool s) @ z_notify s)
     \<and> (\<forall>w \<in> set (p_ready (z_pool s) @ z_notify s). z_st s w = Waiting)
     \<and> finite (live (z_st s)) \<and> p_count (z_pool s) = int (card (live (z_st s))) \<and> p_count (z_pool s) \<le> p_max (z_pool s)
     \<and> mset (z_accepted s) = mset (z_served s) + in_channels (z_st s)"

lemma live_update: "live (f(w := x)) = (if x = Absent then live f - {w} else insert w (live f))"
  by (auto simp: live_def)

lemma live_subset: "live (f(w := x)) \<subseteq> insert w (live f)"
  by (auto simp: live_def)

lemma in_channels_superset: "finite A \<Longrightarrow> live f \<subseteq> A \<Longrightarrow> in_channels f = (\<Sum>w \<in> A. pend (f w))"
  unfolding in_channels_def by (rule sum.mono_neutral_left) (auto simp: live_def)

lemma in_channels_update:
  assumes "finite (live f)"
  shows "in_channels (f(w := x)) + pend (f w) = in_channels f + pend x"
proof -
  let ?A = "insert w (live f)" and ?g = "f(w := x)"
  have "in_channels ?g = pend x + (\<Sum>v \<in> ?A - {w}. pend (?g v))"
    using in_channels_superset[of ?A ?g] sum.remove[of ?A w "\<lambda>v. pend (?g v)"] assms
    by (metis (no_types, lifting) finite_insert fun_upd_same insertI1 live_subset)
  moreover have "(\<Sum>v \<in> ?A - {w}. pend (?g v)) = (\<Sum>v \<in> ?A - {w}. pend (f v))" by (rule sum.cong) auto
  moreover have "in_channels f = pend (f w) + (\<Sum>v \<in> ?A - {w}. pend (f v))"
    using assms in_channels_superset[of ?A f] sum.remove[of ?A w "\<lambda>v. pend (f v)"] by auto
  ultimately show ?thesis by (simp add: ac_simps)
qed

text \<open>A step of one worker that keeps it in existence.\<close>

lemma wp_inv_worker:
  assumes "wp_inv s" "z_st s w \<noteq> Absent" "x \<noteq> Absent" "w \<notin> set (p_ready p @ z_notify s')" "z_st s' = (z_st s)(w := x)"
    and "z_pool s' = p" "p_count p = p_count (z_pool s)" "p_max p = p_max (z_pool s)"
    and "set (p_ready p @ z_notify s') \<subseteq> set (p_ready (z_pool s) @ z_notify s)" "distinct (p_ready p @ z_notify s')"
    and "mset (z_accepted s') + mset (z_served s) + pend (z_st s w) = mset (z_accepted s) + mset (z_served s') + pend x"
  shows "wp_inv s'"
proof -
  have fin: "finite (live (z_st s))" and acc: "mset (z_accepted s) = mset (z_served s) + in_channels (z_st s)" using assms(1) by (simp_all add: wp_inv_def)
  have live: "live (z_st s') = live (z_st s)" using assms(2,3,5) by (auto simp: live_update live_def)
  have upd: "in_channels (z_st s') + pend (z_st s w) = in_channels (z_st s) + pend x" unfolding assms(5) by (rule in_channels_update[OF fin])
  have "mset (z_accepted s') + (mset (z_served s) + pend (z_st s w)) = mset (z_accepted s) + mset (z_served s') + pend x"
    unfolding assms(11)[symmetric] by (simp add: ac_simps)
  also have "\<dots> = mset (z_served s) + mset (z_served s') + (in_channels (z_st s) + pend x)" unfolding acc by (simp add: ac_simps)
  also have "\<dots> = (mset (z_served s') + in_channels (z_st s')) + (mset (z_served s) + pend (z_st s w))"
    unfolding upd[symmetric] by (simp add: ac_simps)
  finally have "mset (z_accepted s') = mset (z_served s') + in_channels (z_st s')" by (simp only: add_right_cancel)
  moreover have "z_st s' v = Waiting" if "v \<in> set (p_ready p @ z_notify s')" for v
    using that assms(1,4,5,9) by (auto simp: wp_inv_def)
  ultimately show ?thesis using assms(1,6-8,10) live by (simp add: wp_inv_def)
qed

context idle_workers
begin

lemma step_keeps_inv:
  assumes "wp_step getw cleanw s s'" "wp_inv s"
  shows "wp_inv s'"
  using assms(1)
proof cases
  case (serve_ready w b p c)
  obtain ws where ws: "p_ready (z_pool s) = ws @ [w]" "p = (z_pool s)\<lparr>p_ready := ws\<rparr>" using get_take[OF serve_ready(2)] by blast
  have d: "distinct ((ws @ [w]) @ z_notify s)" using assms(2) ws(1) by (simp add: wp_inv_def)
  show ?thesis
    by (rule wp_inv_worker[OF assms(2), where w = w and x = "HasConn c" and p = p]) (use serve_ready ws d in auto)
next
  case (serve_new p w c)
  note p = get_create[OF serve_new(2)]
  have w: "w \<notin> live (z_st s)" "w \<notin> set (p_ready (z_pool s) @ z_notify s)"
    using serve_new assms(2) by (auto simp: live_def wp_inv_def)
  show ?thesis
    using assms(2) p w serve_new(1,3) in_channels_update[of "z_st s" w "HasConn c"]
    by (auto simp: wp_inv_def live_update)
next
  case (serve_refused p)
  then show ?thesis using get_refuse[OF serve_refused(2)] assms(2) by (simp add: wp_inv_def)
next
  case (receive_conn w c)
  then have "w \<notin> set (p_ready (z_pool s) @ z_notify s)" using assms(2) by (auto simp: wp_inv_def)
  then show ?thesis
    by (intro wp_inv_worker[OF assms(2), where w = w and x = "Working c" and p = "z_pool s"])
      (use receive_conn assms(2) in \<open>auto simp: wp_inv_def\<close>)
next
  case (handler_done w c)
  then have "w \<notin> set (p_ready (z_pool s) @ z_notify s)" using assms(2) by (auto simp: wp_inv_def)
  then show ?thesis
    by (intro wp_inv_worker[OF assms(2), where w = w and x = Stamping and p = "z_pool s"])
      (use handler_done assms(2) in \<open>auto simp: wp_inv_def\<close>)
next
  case (stamp w now)
  then have "w \<notin> set (p_ready (z_pool s) @ z_notify s)" using assms(2) by (auto simp: wp_inv_def)
  then show ?thesis
    by (intro wp_inv_worker[OF assms(2), where w = w and x = Appending and p = "Release_stamp w now (z_pool s)"])
      (use stamp assms(2) in \<open>auto simp: wp_inv_def Release_stamp_def\<close>)
next
  case (release w ok p)
  have w: "w \<notin> set (p_ready (z_pool s) @ z_notify s)" using release assms(2) by (auto simp: wp_inv_def)
  show ?thesis
  proof (cases ok)
    case True
    then have p: "p = (z_pool s)\<lparr>p_ready := p_ready (z_pool s) @ [w]\<rparr>" using release(3) by (auto simp: Release_def split: if_splits)
    have "live ((z_st s)(w := Waiting)) = live (z_st s)" using release(2) by (auto simp: live_def)
    then show ?thesis
      using True p w release(1,2) assms(2) in_channels_update[of "z_st s" w Waiting] by (auto simp: wp_inv_def)
  next
    case False
    then have "p = z_pool s" using release(3) by (auto simp: Release_def split: if_splits)
    then show ?thesis
      using False w by (intro wp_inv_worker[OF assms(2), where w = w and x = Exiting and p = p])
        (use release assms(2) in \<open>auto simp: wp_inv_def\<close>)
  qed
next
  case (receive_nil w)
  then have "w \<notin> set (p_ready (z_pool s) @ z_notify s)" using assms(2) by (auto simp: wp_inv_def)
  then show ?thesis
    by (intro wp_inv_worker[OF assms(2), where w = w and x = Exiting and p = "z_pool s"])
      (use receive_nil assms(2) in \<open>auto simp: wp_inv_def\<close>)
next
  case (worker_end w)
  have w: "w \<notin> set (p_ready (z_pool s) @ z_notify s)" "w \<in> live (z_st s)" using worker_end assms(2) by (auto simp: wp_inv_def live_def)
  have "card (live (z_st s) - {w}) = card (live (z_st s)) - 1" "card (live (z_st s)) > 0"
    using w(2) assms(2) by (auto simp: wp_inv_def card_gt_0_iff)
  then show ?thesis
    using assms(2) w worker_end in_channels_update[of "z_st s" w Absent] by (auto simp: wp_inv_def live_update)
next
  case (cleaning now ws p)
  then show ?thesis using clean_cuts[OF cleaning(3)] assms(2) by (auto simp: wp_inv_def)
next
  case (notify w ws)
  then show ?thesis
    by (intro wp_inv_worker[OF assms(2), where w = w and x = HasNil and p = "z_pool s"]) (use assms(2) in \<open>auto simp: wp_inv_def\<close>)
next
  case (stopping ws p)
  then have ws: "ws = p_ready (z_pool s)" "p_ready p = []" "p_count p = p_count (z_pool s)" "p_max p = p_max (z_pool s)"
    by (auto simp: Stop_def split: if_splits)
  have wait: "z_st s w = Waiting" if "w \<in> set ws" for w using assms(2) that ws(1) by (simp add: wp_inv_def)
  let ?f = "\<lambda>w. if w \<in> set ws then HasNil else z_st s w"
  have live: "live ?f = live (z_st s)" using wait by (auto simp: live_def)
  have "in_channels ?f = in_channels (z_st s)"
    unfolding in_channels_def live by (rule sum.cong) (use wait in auto)
  then show ?thesis using assms(2) stopping(1) ws live by (auto simp: wp_inv_def)
qed

lemma step_keeps_max:
  assumes "wp_step getw cleanw s s'"
  shows "p_max (z_pool s') = p_max (z_pool s)"
  using assms
proof cases
  case (serve_ready w b p c)
  then show ?thesis using get_take by fastforce
next
  case (serve_new p w c)
  then show ?thesis using get_create by fastforce
next
  case (serve_refused p)
  then show ?thesis using get_refuse by fastforce
next
  case (cleaning now ws p)
  then show ?thesis using clean_cuts by fastforce
qed (auto simp: Release_stamp_def Release_def Stop_def split: if_splits)

lemma reach_keeps_max: "(wp_step getw cleanw)\<^sup>*\<^sup>* s s' \<Longrightarrow> p_max (z_pool s') = p_max (z_pool s)"
  by (induction rule: rtranclp_induct) (auto dest: step_keeps_max)

lemma reach_keeps_inv: "(wp_step getw cleanw)\<^sup>*\<^sup>* s s' \<Longrightarrow> wp_inv s \<Longrightarrow> wp_inv s'"
  by (induction rule: rtranclp_induct) (auto intro: step_keeps_inv)

lemma get_never_blocks:
  assumes "wp_inv s" "getw (z_pool s) = ((Some w, b), p)"
  shows "z_st s w = Waiting"
  using get_take[OF assms(2)] assms(1) by (auto simp: wp_inv_def)

end

lemma wp_inv_init: "0 \<le> most \<Longrightarrow> wp_inv (wp_init most idle)"
  by (simp add: wp_inv_def wp_init_def live_def in_channels_def)

section \<open>The two implementations\<close>

text \<open>The search ends between its bounds, at an expired element whose successor is not expired, in whatever order the elements are.\<close>

lemma clean_search_range: "l \<le> r + 1 \<Longrightarrow> l - 1 \<le> clean_search expired l r \<and> clean_search expired l r \<le> r"
proof (induction expired l r rule: clean_search.induct)
  case (1 expired l r)
  show ?case
  proof (cases "l \<le> r")
    case True
    let ?mid = "(l + r) div 2"
    have mid: "l \<le> ?mid" "?mid \<le> r" using True by auto
    show ?thesis
    proof (cases "expired ?mid")
      case e: True
      then show ?thesis using 1(1)[OF True refl e] mid True by (subst (1 2) clean_search.simps) (simp add: Let_def)
    next
      case False
      then show ?thesis using 1(2)[OF True refl False] mid True by (subst (1 2) clean_search.simps) (simp add: Let_def)
    qed
  next
    case False
    then show ?thesis using 1(3) by (subst (1 2) clean_search.simps) simp
  qed
qed

lemma clean_search_boundary:
  assumes "\<And>i j. l \<le> i \<Longrightarrow> i \<le> j \<Longrightarrow> j \<le> r \<Longrightarrow> expired j \<Longrightarrow> expired i" "l \<le> r + 1"
  shows "(\<forall>i. l \<le> i \<and> i \<le> clean_search expired l r \<longrightarrow> expired i) \<and> (\<forall>i. clean_search expired l r < i \<and> i \<le> r \<longrightarrow> \<not> expired i)"
  using assms
proof (induction expired l r rule: clean_search.induct)
  case (1 expired l r)
  show ?case
  proof (cases "l \<le> r")
    case True
    let ?mid = "(l + r) div 2"
    have mid: "l \<le> ?mid" "?mid \<le> r" using True by auto
    show ?thesis
    proof (cases "expired ?mid")
      case e: True
      have eq: "clean_search expired l r = clean_search expired (?mid + 1) r" using True e by (subst clean_search.simps) (simp add: Let_def)
      have low: "expired i" if "l \<le> i" "i \<le> ?mid" for i using "1.prems"(1)[of i ?mid] that mid e by simp
      have "(\<forall>i. ?mid + 1 \<le> i \<and> i \<le> clean_search expired (?mid + 1) r \<longrightarrow> expired i)
          \<and> (\<forall>i. clean_search expired (?mid + 1) r < i \<and> i \<le> r \<longrightarrow> \<not> expired i)"
        using mid by (intro 1(1)[OF True refl e]) (auto intro: "1.prems"(1))
      then show ?thesis unfolding eq using low by (metis zless_add1_eq linorder_not_le add1_zle_eq)
    next
      case False
      have eq: "clean_search expired l r = clean_search expired l (?mid - 1)" using True False by (subst clean_search.simps) (simp add: Let_def)
      have high: "\<not> expired i" if "?mid \<le> i" "i \<le> r" for i using "1.prems"(1)[of ?mid i] that mid False by blast
      have "(\<forall>i. l \<le> i \<and> i \<le> clean_search expired l (?mid - 1) \<longrightarrow> expired i)
          \<and> (\<forall>i. clean_search expired l (?mid - 1) < i \<and> i \<le> ?mid - 1 \<longrightarrow> \<not> expired i)"
        using mid by (intro 1(2)[OF True refl False]) (auto intro: "1.prems"(1))
      then show ?thesis unfolding eq using high by (metis zle_diff1_eq linorder_not_le)
    qed
  next
    case False
    then have "clean_search expired l r = r" by (subst clean_search.simps) simp
    then show ?thesis using False by auto
  qed
qed

lemma cut_front: "k \<le> length xs \<Longrightarrow> take (length (drop k xs)) (go_copy xs (drop k xs)) = drop k xs"
  by (simp add: go_copy_def)

lemma Clean_cuts:
  assumes "Clean now p = (ws, p')"
  shows "\<exists>rest. p_ready p = ws @ rest \<and> p' = p\<lparr>p_ready := rest\<rparr>"
proof -
  let ?i = "clean_search (\<lambda>mid. now - MaxIdleDuration p > p_last p (p_ready p ! nat mid)) 0 (int (length (p_ready p)) - 1)"
  have i: "-1 \<le> ?i" "?i \<le> int (length (p_ready p)) - 1" using clean_search_range[of 0 "int (length (p_ready p)) - 1"] by auto
  show ?thesis
  proof (cases "?i = -1")
    case True
    then show ?thesis using assms by (intro exI[of _ "p_ready p"]) (simp add: Clean_def Let_def)
  next
    case False
    then have "nat (?i + 1) \<le> length (p_ready p)" using i by linarith
    then show ?thesis
      using False assms cut_front[of "nat (?i + 1)" "p_ready p"]
      by (intro exI[of _ "drop (nat (?i + 1)) (p_ready p)"]) (auto simp: Clean_def Let_def)
  qed
qed

lemma clean_scan_le: "clean_scan e ws \<le> length ws"
  by (induction ws) auto

lemma clean_result:
  "clean now p = (let i = clean_scan (\<lambda>w. now - p_last p w > getMaxIdleWorkerDuration p) (p_ready p)
     in (take i (p_ready p), p\<lparr>p_ready := drop i (p_ready p)\<rparr>))"
  using cut_front[OF clean_scan_le] by (simp add: clean_def Let_def)

lemma last_index:
  "xs \<noteq> [] \<Longrightarrow> xs ! nat (int (length xs) - 1) = last xs" "xs \<noteq> [] \<Longrightarrow> take (nat (int (length xs) - 1)) xs = butlast xs"
proof -
  have "nat (int (length xs) - 1) = length xs - 1" by linarith
  then show "xs \<noteq> [] \<Longrightarrow> xs ! nat (int (length xs) - 1) = last xs" "xs \<noteq> [] \<Longrightarrow> take (nat (int (length xs) - 1)) xs = butlast xs"
    by (simp_all add: last_conv_nth butlast_conv_take)
qed

interpretation zero_pool: idle_workers getWorkerChan Clean
proof
  fix p p' :: workerPool and w b
  assume "getWorkerChan p = ((Some w, b), p')"
  then have "p_ready p \<noteq> []" "w = last (p_ready p)" "p' = p\<lparr>p_ready := butlast (p_ready p)\<rparr>"
    using last_index[of "p_ready p"] by (cases "p_ready p = []"; auto simp: getWorkerChan_def Let_def split: if_splits)+
  then show "\<exists>ws. p_ready p = ws @ [w] \<and> p' = p\<lparr>p_ready := ws\<rparr>" by (intro exI[of _ "butlast (p_ready p)"]) simp
qed (auto simp: getWorkerChan_def Let_def split: if_splits intro: Clean_cuts)

interpretation job_pool: idle_workers getCh clean
proof
  fix p p' :: workerPool and w b
  assume "getCh p = ((Some w, b), p')"
  then have "p_ready p \<noteq> []" "w = last (p_ready p)" "p' = p\<lparr>p_ready := butlast (p_ready p)\<rparr>"
    using last_index[of "p_ready p"] by (cases "p_ready p = []"; auto simp: getCh_def Let_def split: if_splits)+
  then show "\<exists>ws. p_ready p = ws @ [w] \<and> p' = p\<lparr>p_ready := ws\<rparr>" by (intro exI[of _ "butlast (p_ready p)"]) simp
next
  fix now ws and p p' :: workerPool
  assume "clean now p = (ws, p')"
  then show "\<exists>rest. p_ready p = ws @ rest \<and> p' = p\<lparr>p_ready := rest\<rparr>"
    by (auto simp: clean_result Let_def intro!: exI append_take_drop_id[symmetric])
qed (auto simp: getCh_def Let_def split: if_splits)

section \<open>Properties\<close>


lemma first_serve: "(wp_step getWorkerChan Clean)\<^sup>*\<^sup>* (wp_init 1 0)
    ((wp_init 1 0)\<lparr>z_pool := (z_pool (wp_init 1 0))\<lparr>p_count := 1\<rparr>, z_st := (\<lambda>_. Absent)(7 := HasConn (42::nat)), z_accepted := [42]\<rparr>)"
proof -
  have "wp_step getWorkerChan Clean (wp_init 1 0) ((wp_init 1 0)\<lparr>z_pool := (z_pool (wp_init 1 0))\<lparr>p_count := 1\<rparr>,
      z_st := (z_st (wp_init 1 0))(7 := HasConn (42::nat)), z_accepted := 42 # z_accepted (wp_init 1 0)\<rparr>)"
    by (rule serve_new) (simp_all add: getWorkerChan_def wp_init_def)
  then show ?thesis by (simp add: wp_init_def r_into_rtranclp)
qed


text \<open>C25: When the workers in \<open>ready\<close> are ordered by the time of their last use, the binary search of \<open>zero\<close> removes exactly the workers that
  the linear scan of \<^verbatim>\<open>worker_pool.go\<close> removes: those idle for longer than the limit.\<close>

theorem Clean_binary_search:
  assumes "sorted (map (p_last p) (p_ready p))"
  shows "Clean now p = clean now p
     \<and> fst (clean now p) = takeWhile (\<lambda>w. now - p_last p w > MaxIdleDuration p) (p_ready p)"
proof -
  let ?xs = "p_ready p" and ?e = "\<lambda>w. now - p_last p w > MaxIdleDuration p"
  let ?n = "int (length ?xs)" and ?x = "\<lambda>mid. now - MaxIdleDuration p > p_last p (?xs ! nat mid)"
  let ?k = "clean_search ?x 0 (?n - 1)"
  have idle: "getMaxIdleWorkerDuration p = MaxIdleDuration p" by (simp add: getMaxIdleWorkerDuration_def MaxIdleDuration_def)
  have scan: "clean_scan e xs = length (takeWhile e xs)" for e xs by (induction xs) auto
  have k: "-1 \<le> ?k" "?k < ?n" using clean_search_range[of 0 "?n - 1" ?x] by auto
  have mono: "?x i" if "0 \<le> i" "i \<le> j" "j \<le> ?n - 1" "?x j" for i j
  proof -
    have "p_last p (?xs ! nat i) \<le> p_last p (?xs ! nat j)" using sorted_nth_mono[OF assms, of "nat i" "nat j"] that by simp
    then show ?thesis using that(4) by linarith
  qed
  have edge: "(\<forall>i. 0 \<le> i \<and> i \<le> ?k \<longrightarrow> ?x i) \<and> (\<forall>i. ?k < i \<and> i \<le> ?n - 1 \<longrightarrow> \<not> ?x i)"
    by (rule clean_search_boundary) (use mono in blast, simp)
  have low: "?x i" if "0 \<le> i" "i \<le> ?k" for i using edge that by blast
  have high: "\<not> ?x i" if "?k < i" "i \<le> ?n - 1" for i using edge that by blast
  have take: "takeWhile ?e ?xs = take (nat (?k + 1)) ?xs"
  proof (rule takeWhile_eq_take_P_nth)
    fix i
    assume "i < nat (?k + 1)" "i < length ?xs"
    then show "?e (?xs ! i)" using low[of "int i"] by (simp add: algebra_simps)
  next
    assume "nat (?k + 1) < length ?xs"
    then show "\<not> ?e (?xs ! nat (?k + 1))" using high[of "?k + 1"] k by (simp add: algebra_simps)
  qed
  have len: "length (takeWhile ?e ?xs) = nat (?k + 1)" using take k by simp
  have "Clean now p = (take (nat (?k + 1)) ?xs, p\<lparr>p_ready := drop (nat (?k + 1)) ?xs\<rparr>)"
    using cut_front[of "nat (?k + 1)" ?xs] k by (cases "?k = -1") (simp_all add: Clean_def Let_def)
  moreover have "clean now p = (take (nat (?k + 1)) ?xs, p\<lparr>p_ready := drop (nat (?k + 1)) ?xs\<rparr>)"
    by (simp add: clean_result scan idle len Let_def)
  ultimately show ?thesis using take by simp
qed

theorem Clean_binary_search_witness:
  "fst (Clean 100 \<lparr>p_ready = [3, 1, 2], p_last = (\<lambda>w. if w = 3 then 10 else if w = 1 then 20 else 95), p_count = 3, p_max = 3, p_idle = 50,
      p_mustStop = False, p_started = True, p_lock = True\<rparr>) = [3, 1]"
  (is "fst (Clean 100 ?p) = _")
proof -
  have "Clean 100 ?p = clean 100 ?p \<and> fst (clean 100 ?p) = takeWhile (\<lambda>w. 100 - p_last ?p w > MaxIdleDuration ?p) (p_ready ?p)"
    by (rule Clean_binary_search) simp
  then show ?thesis by (simp add: MaxIdleDuration_def)
qed

text \<open>\<open>getWorkerChan\<close> of \<open>zero\<close> and \<open>getCh\<close> of \<^verbatim>\<open>worker_pool.go\<close> do the same unless exactly one worker is idle, which \<open>zero\<close> leaves in \<open>ready\<close>:
  it then creates another worker, or refuses the connection when the limit is reached, although a worker is idle.\<close>

theorem one_idle_worker_unused:
  "(length (p_ready p) \<noteq> 1 \<longrightarrow> getWorkerChan p = getCh p)
   \<and> (p_ready p = [w] \<longrightarrow> p_max p \<le> p_count p \<longrightarrow> getWorkerChan p = ((None, False), p) \<and> fst (getCh p) = (Some w, False))"
  by (cases "p_ready p" rule: list.exhaust; cases "tl (p_ready p)") (auto simp: getWorkerChan_def getCh_def Let_def)

theorem one_idle_worker_unused_witness:
  "fst (getWorkerChan \<lparr>p_ready = [3], p_last = (\<lambda>_. 0), p_count = 1, p_max = 1, p_idle = 50, p_mustStop = False, p_started = True, p_lock = True\<rparr>)
     = (None, False)"
  using one_idle_worker_unused[of "\<lparr>p_ready = [3], p_last = (\<lambda>_. 0), p_count = 1, p_max = 1, p_idle = 50, p_mustStop = False,
      p_started = True, p_lock = True\<rparr>" 3]
  by simp

text \<open>The operations of the two packages agree: releasing a worker stores the time and appends it, and the two \<open>Stop\<close> differ in a panic
  only.\<close>

lemma WorkerPool_release_eq: "WorkerPool_release w now p = Release w (Release_stamp w now p)"
  by (simp add: WorkerPool_release_def Release_def Release_stamp_def Let_def)

lemma WorkerPool_Stop_eq: "p_lock p \<Longrightarrow> WorkerPool_Stop p = Inr r \<longleftrightarrow> Stop p = Inr r"
  by (simp add: WorkerPool_Stop_def Stop_def)

text \<open>A pool that was stopped can be started again, but \<open>mustStop\<close> stays set: no worker is ever kept, in any later state, so every task
  gets a worker of its own that ends after it.\<close>

lemma step_keeps_stopped:
  assumes "job_step s s'" "p_mustStop (z_pool s)" "p_ready (z_pool s) = []"
  shows "p_mustStop (z_pool s') \<and> p_ready (z_pool s') = []"
  using assms(1)[unfolded job_step_def] assms(2,3)
  by cases (auto simp: getCh_def clean_result Release_def Release_stamp_def Stop_def Let_def split: if_splits)

theorem restarted_pool_keeps_no_worker:
  assumes "WorkerPool_Stop p = Inr (ws, p1)" "WorkerPool_Start p1 = Inr p2" "z_pool s = p2" "job_step\<^sup>*\<^sup>* s s'"
  shows "p_ready (z_pool s') = [] \<and> fst (WorkerPool_release w now (z_pool s')) = False"
proof -
  have "p_mustStop (z_pool s) \<and> p_ready (z_pool s) = []"
    using assms(1,2) unfolding assms(3) by (auto simp: WorkerPool_Stop_def WorkerPool_Start_def split: if_splits)
  with assms(4) have "p_mustStop (z_pool s') \<and> p_ready (z_pool s') = []"
    by (induction rule: rtranclp_induct) (use step_keeps_stopped in blast)+
  then show ?thesis by (simp add: WorkerPool_release_def Let_def)
qed

end
