(* ===== verification/Zero_Server.thy ===== *)
theory Zero_Server
  imports Worker_Pools "HOL-Library.Word"
begin

text \<open>
  The server of \<^verbatim>\<open>zero/server.go\<close> and the per-address connection counter of \<^verbatim>\<open>zero/peripconn.go\<close>.  A connection is a number;
  its remote address is an argument \<open>remote\<close>, which gives the bytes of a TCP address and \<open>None\<close> for another address.  A wrapper \<open>perIPConn\<close> is an object
  on a heap, since \<open>Close\<close> gives it back to a \<open>sync.Pool\<close> from which it is handed out again; whether the pool returns an object it has is an argument
  too.  What the listener's \<open>Accept\<close> returns is a list of events.
\<close>

unbundle bit_operations_syntax

section \<open>Addresses\<close>

definition ip2uint32 :: "8 word list \<Rightarrow> 32 word" where
  "ip2uint32 ip =
     (if length ip \<noteq> 4 then 0
      else push_bit 24 (ucast (ip ! 0)) OR push_bit 16 (ucast (ip ! 1)) OR push_bit 8 (ucast (ip ! 2)) OR ucast (ip ! 3))"

definition uint322ip :: "32 word \<Rightarrow> 8 word list" where
  "uint322ip ip =
     (replicate 4 0)[0 := ucast (drop_bit 24 ip), 1 := ucast (drop_bit 16 ip), 2 := ucast (drop_bit 8 ip), 3 := ucast ip]"

text \<open>\<open>net.IP.To4\<close>: the four bytes of an IPv4 address, also of one in the sixteen-byte form; the empty list is nil.\<close>

definition To4 :: "8 word list \<Rightarrow> 8 word list" where
  "To4 ip =
     (if length ip = 4 then ip
      else if length ip = 16 \<and> list_all (\<lambda>b. b = 0) (take 10 ip) \<and> ip ! 10 = 255 \<and> ip ! 11 = 255 then drop 12 ip
      else [])"

definition getConnIP4 :: "(nat \<Rightarrow> 8 word list option) \<Rightarrow> nat \<Rightarrow> 8 word list" where
  "getConnIP4 remote c =
     (case remote c of
        None \<Rightarrow> replicate 10 0 @ [255, 255, 0, 0, 0, 0]
      | Some ip \<Rightarrow> To4 ip)"

definition getUinit32IP :: "(nat \<Rightarrow> 8 word list option) \<Rightarrow> nat \<Rightarrow> 32 word" where
  "getUinit32IP remote c = ip2uint32 (getConnIP4 remote c)"

section \<open>Counters and wrappers\<close>

text \<open>The server with its counter (\<open>sv_m\<close>, nil before the first call), the heap of wrappers, the objects in the \<open>sync.Pool\<close>, the next free
  object, the connections closed so far, and the global \<open>globalConnID\<close>.\<close>

record Server =
  sv_concurrency :: "32 word"
  sv_Concurrency :: int
  sv_open :: int
  sv_MaxConnsPerIP :: int
  sv_m :: "(32 word \<Rightarrow> int) option"
  sv_perIPConn :: "nat \<Rightarrow> nat option \<times> 32 word"
  sv_pool :: "nat list"
  sv_next :: nat
  sv_closed :: "nat list"
  sv_IdleTimeout :: int
  sv_ReadTimeout :: int
  sv_WriteTimeout :: int
  sv_MaxRequestBodySize :: int
  sv_globalConnID :: "64 word"

definition Register :: "32 word \<Rightarrow> Server \<Rightarrow> int \<times> Server" where
  "Register ip s =
     (let m = (case sv_m s of None \<Rightarrow> (\<lambda>_. 0) | Some m \<Rightarrow> m); n = m ip + 1
      in (n, s\<lparr>sv_m := Some (m(ip := n))\<rparr>))"

definition Unregister :: "32 word \<Rightarrow> Server \<Rightarrow> Server may_panic" where
  "Unregister ip s =
     (case sv_m s of
        None \<Rightarrow> Inl (Panic ''perIPConnCounter.Register() wasn't called'')
      | Some m \<Rightarrow>
          let n = m ip - 1
          in if n < 0 then Inl (NegativeCounter n) else Inr (s\<lparr>sv_m := Some (m(ip := n))\<rparr>))"

definition acquirePerIPConn :: "bool \<Rightarrow> nat \<Rightarrow> 32 word \<Rightarrow> Server \<Rightarrow> nat \<times> Server" where
  "acquirePerIPConn reuse c ip s =
     (case sv_pool s of
        w # ws \<Rightarrow>
          if reuse then (w, s\<lparr>sv_pool := ws, sv_perIPConn := (sv_perIPConn s)(w := (Some c, ip))\<rparr>)
          else (sv_next s, s\<lparr>sv_next := sv_next s + 1, sv_perIPConn := (sv_perIPConn s)(sv_next s := (Some c, ip))\<rparr>)
      | [] \<Rightarrow> (sv_next s, s\<lparr>sv_next := sv_next s + 1, sv_perIPConn := (sv_perIPConn s)(sv_next s := (Some c, ip))\<rparr>))"

definition releasePerIPConn :: "nat \<Rightarrow> Server \<Rightarrow> Server" where
  "releasePerIPConn w s = s\<lparr>sv_perIPConn := (sv_perIPConn s)(w := (None, snd (sv_perIPConn s w))), sv_pool := w # sv_pool s\<rparr>"

text \<open>The method \<open>Close\<close> of a wrapper; its connection is nil after it has been closed.\<close>

definition perIPConn_Close :: "nat \<Rightarrow> Server \<Rightarrow> Server may_panic" where
  "perIPConn_Close w s =
     (case fst (sv_perIPConn s w) of
        None \<Rightarrow> Inl NilDereference
      | Some c \<Rightarrow>
          bindp (Unregister (snd (sv_perIPConn s w)) (s\<lparr>sv_closed := c # sv_closed s\<rparr>)) (\<lambda>s1. Inr (releasePerIPConn w s1)))"

section \<open>Accepting\<close>

datatype conn = Plain nat | Wrapped nat

definition wrapPerIPConn :: "(nat \<Rightarrow> 8 word list option) \<Rightarrow> bool \<Rightarrow> nat \<Rightarrow> Server \<Rightarrow> (conn option \<times> Server) may_panic" where
  "wrapPerIPConn remote reuse c s =
     (let ip = getUinit32IP remote c
      in if ip = 0 then Inr (Some (Plain c), s)
         else case Register ip s of
           (n, s1) \<Rightarrow>
             if n > sv_MaxConnsPerIP s1
             then bindp (Unregister ip s1) (\<lambda>s2. Inr (None, s2\<lparr>sv_closed := c # sv_closed s2\<rparr>))
             else case acquirePerIPConn reuse c ip s1 of (w, s2) \<Rightarrow> Inr (Some (Wrapped w), s2))"

text \<open>What \<open>Accept\<close> returns: a connection, a temporary error, \<open>io.EOF\<close> or the error of a closed listener, another error, both a connection and an
  error, or neither.\<close>

datatype accept = AConn nat bool | ATemporary | AClosed | AOther | ABoth | ANeither

datatype accepted = Blocked | Accepted conn | EOF | Failed

fun acceptConn :: "(nat \<Rightarrow> 8 word list option) \<Rightarrow> accept list \<Rightarrow> Server \<Rightarrow> (accepted \<times> accept list \<times> Server) may_panic" where
  "acceptConn remote [] s = Inr (Blocked, [], s)"
| "acceptConn remote (ATemporary # es) s = acceptConn remote es s"
| "acceptConn remote (AClosed # es) s = Inr (EOF, es, s)"
| "acceptConn remote (AOther # es) s = Inr (Failed, es, s)"
| "acceptConn remote (ABoth # es) s = Inl (Panic ''net.Listener returned non-nil conn and non-nil error'')"
| "acceptConn remote (ANeither # es) s = Inl (Panic ''net.Listener returned (nil, nil)'')"
| "acceptConn remote (AConn c reuse # es) s =
     (if sv_MaxConnsPerIP s > 0
      then bindp (wrapPerIPConn remote reuse c s) (\<lambda>(ipc, s1).
             case ipc of None \<Rightarrow> acceptConn remote es s1 | Some x \<Rightarrow> Inr (Accepted x, es, s1))
      else Inr (Accepted (Plain c), es, s))"

section \<open>Serving\<close>

definition DefaultConcurrency :: int where
  "DefaultConcurrency = 256 * 1024"

definition getConcurrency :: "Server \<Rightarrow> int" where
  "getConcurrency s = (let n = sv_Concurrency s in if n \<le> 0 then DefaultConcurrency else n)"

text \<open>\<open>Serve\<close> of the worker pool: whether a worker takes the connection.  The fields of the pool that \<open>Serve\<close> of the server creates: the
  mutex is a nil pointer.\<close>

definition pool_Serve :: "workerPool \<Rightarrow> (bool \<times> workerPool) may_panic" where
  "pool_Serve p =
     (if \<not> p_lock p then Inl NilDereference
      else case getWorkerChan p of ((ch, create), p1) \<Rightarrow> Inr (ch \<noteq> None \<or> create, p1))"

definition Serve_pool :: "int \<Rightarrow> workerPool" where
  "Serve_pool most = \<lparr>p_ready = [], p_last = (\<lambda>_. 0), p_count = 0, p_max = most, p_idle = 0, p_mustStop = False, p_started = False, p_lock = False\<rparr>"

definition conn_Close :: "conn \<Rightarrow> Server \<Rightarrow> Server may_panic" where
  "conn_Close x s = (case x of Plain c \<Rightarrow> Inr (s\<lparr>sv_closed := c # sv_closed s\<rparr>) | Wrapped w \<Rightarrow> perIPConn_Close w s)"

datatype served = Waiting_for_conn | Returned_nil | Returned_error

text \<open>The loop, with as many iterations as there are events left.\<close>

fun Serve_loop :: "nat \<Rightarrow> (nat \<Rightarrow> 8 word list option) \<Rightarrow> accept list \<Rightarrow> workerPool \<Rightarrow> Server \<Rightarrow> (served \<times> Server) may_panic" where
  "Serve_loop 0 remote es p s = Inr (Waiting_for_conn, s)"
| "Serve_loop (Suc k) remote es p s =
     bindp (acceptConn remote es s) (\<lambda>(a, es1, s1).
       case a of
         Blocked \<Rightarrow> Inr (Waiting_for_conn, s1)
       | EOF \<Rightarrow> bindp (Stop p) (\<lambda>_. Inr (Returned_nil, s1\<lparr>sv_open := to_int32 (sv_open s1 - 1)\<rparr>))
       | Failed \<Rightarrow> bindp (Stop p) (\<lambda>_. Inr (Returned_error, s1\<lparr>sv_open := to_int32 (sv_open s1 - 1)\<rparr>))
       | Accepted x \<Rightarrow>
           let s2 = s1\<lparr>sv_open := to_int32 (sv_open s1 + 1)\<rparr>
           in bindp (pool_Serve p) (\<lambda>(ok, p1).
                if ok then Serve_loop k remote es1 p1 s2
                else bindp (conn_Close x (s2\<lparr>sv_open := to_int32 (sv_open s2 - 1)\<rparr>)) (\<lambda>s3. Serve_loop k remote es1 p1 s3)))"

definition Server_Serve :: "(nat \<Rightarrow> 8 word list option) \<Rightarrow> accept list \<Rightarrow> Server \<Rightarrow> (served \<times> Server) may_panic" where
  "Server_Serve remote es s =
     bindp (Start (Serve_pool (getConcurrency s))) (\<lambda>p.
       Serve_loop (length es + 1) remote es p (s\<lparr>sv_open := to_int32 (sv_open s + 1)\<rparr>))"

text \<open>The counters around a handler call.\<close>

definition serveConn_begin :: "Server \<Rightarrow> Server" where
  "serveConn_begin s = s\<lparr>sv_concurrency := sv_concurrency s + 1\<rparr>"

definition serveConnCleanup :: "Server \<Rightarrow> Server" where
  "serveConnCleanup s = s\<lparr>sv_open := to_int32 (sv_open s - 1), sv_concurrency := sv_concurrency s + NOT 0\<rparr>"

definition idleTimeout :: "Server \<Rightarrow> int" where
  "idleTimeout s = (if sv_IdleTimeout s \<noteq> 0 then sv_IdleTimeout s else sv_ReadTimeout s)"

definition nextConnID :: "Server \<Rightarrow> 64 word \<times> Server" where
  "nextConnID s = (let n = sv_globalConnID s + 1 in (n, s\<lparr>sv_globalConnID := n\<rparr>))"

definition DefaultMaxRequestBodySize :: int where
  "DefaultMaxRequestBodySize = 4 * 1024 * 1024"

text \<open>\<open>serveConn\<close> prints the number of the connection, the time and the write timeout and returns a nil error; the request body size is
  computed and not used.\<close>

definition serveConn :: "int \<Rightarrow> Server \<Rightarrow> (64 word \<times> int \<times> int) \<times> Server" where
  "serveConn now s =
     (let s1 = serveConn_begin s; (connID, s2) = nextConnID s1; connTime = now;
          maxRequestBodySize = (if sv_MaxRequestBodySize s2 \<le> 0 then DefaultMaxRequestBodySize else sv_MaxRequestBodySize s2);
          writeTimeout = sv_WriteTimeout s2
      in ((connID, connTime, writeTimeout), serveConnCleanup s2))"

section \<open>Properties\<close>

lemma uint322ip_list: "uint322ip ip = [ucast (drop_bit 24 ip), ucast (drop_bit 16 ip), ucast (drop_bit 8 ip), ucast ip]"
  by (simp add: uint322ip_def numeral_eq_Suc)

lemma length_four: "length xs = 4 \<Longrightarrow> \<exists>a b c d. xs = [a, b, c, d]"
  by (auto simp: numeral_eq_Suc length_Suc_conv)

lemma ip2uint32_four:
  "ip2uint32 [a, b, c, d] = push_bit 24 (ucast a) OR push_bit 16 (ucast b) OR push_bit 8 (ucast c) OR ucast d"
  by (simp add: ip2uint32_def numeral_2_eq_2 numeral_3_eq_3)

lemma ip_bytes:
  fixes a b c d :: "8 word"
  shows "uint322ip (ip2uint32 [a, b, c, d]) = [a, b, c, d]"
proof -
  let ?x = "push_bit 24 (ucast a) OR push_bit 16 (ucast b) OR push_bit 8 (ucast c) OR ucast d :: 32 word"
  have high: "\<not> bit w (8 + n)" "\<not> bit w (16 + n)" "\<not> bit w (24 + n)" for w :: "8 word" and n by (auto dest: bit_imp_le_length)
  have "ucast (drop_bit 24 ?x) = a" "ucast (drop_bit 16 ?x) = b" "ucast (drop_bit 8 ?x) = c" "ucast ?x = d"
    by (rule bit_word_eqI, use high in \<open>auto simp: Bit_Operations.bit_simps dest: bit_imp_le_length\<close>)+
  then show ?thesis by (simp add: uint322ip_list ip2uint32_four)
qed

lemma ip_word: "ip2uint32 (uint322ip x) = x"
  unfolding uint322ip_list ip2uint32_four
proof (rule bit_word_eqI)
  fix n
  assume "n < LENGTH(32)"
  consider "n < 8" | "8 \<le> n" "n < 16" | "16 \<le> n" "n < 24" | "24 \<le> n" by linarith
  then show "bit (push_bit 24 (ucast (ucast (drop_bit 24 x) :: 8 word)) OR push_bit 16 (ucast (ucast (drop_bit 16 x) :: 8 word))
      OR push_bit 8 (ucast (ucast (drop_bit 8 x) :: 8 word)) OR ucast (ucast x :: 8 word) :: 32 word) n = bit x n"
    using \<open>n < LENGTH(32)\<close> by cases (auto simp: Bit_Operations.bit_simps)
qed

text \<open>The conversions between an IPv4 address and a number are inverse to each other: \<open>uint322ip\<close> gives back the four bytes of an address
  and \<open>ip2uint32\<close> the number; so different IPv4 addresses are counted separately.\<close>

theorem ip_roundtrip:
  assumes "length ip = 4"
  shows "uint322ip (ip2uint32 ip) = ip \<and> ip2uint32 (uint322ip x) = x \<and> length (uint322ip x) = 4"
proof -
  obtain a b c d where "ip = [a, b, c, d]" using length_four[OF assms] by blast
  then show ?thesis using ip_bytes[of a b c d] ip_word by (simp add: uint322ip_list)
qed

theorem ip_roundtrip_witness: "uint322ip (ip2uint32 [192, 168, 0, 7]) = [192, 168, 0, 7]"
  using ip_roundtrip[of "[192, 168, 0, 7]"] by simp

section \<open>The limit per address\<close>

text \<open>The life of the connections: one arrives and is wrapped or refused, or the owner of a wrapper closes it.\<close>

datatype conn_op = Arrive nat bool | CloseOp nat

fun conn_step :: "(nat \<Rightarrow> 8 word list option) \<Rightarrow> conn_op \<Rightarrow> Server \<Rightarrow> Server may_panic" where
  "conn_step remote (Arrive c reuse) s = bindp (wrapPerIPConn remote reuse c s) (\<lambda>(_, s1). Inr s1)"
| "conn_step remote (CloseOp w) s = perIPConn_Close w s"

fun conn_run :: "(nat \<Rightarrow> 8 word list option) \<Rightarrow> conn_op list \<Rightarrow> Server \<Rightarrow> Server may_panic" where
  "conn_run remote [] s = Inr s"
| "conn_run remote (op # ops) s = bindp (conn_step remote op s) (conn_run remote ops)"

definition open_from :: "Server \<Rightarrow> 32 word \<Rightarrow> nat set" where
  "open_from s ip = {w. \<exists>c. sv_perIPConn s w = (Some c, ip)}"

definition counter :: "Server \<Rightarrow> 32 word \<Rightarrow> int" where
  "counter s ip = (case sv_m s of None \<Rightarrow> 0 | Some m \<Rightarrow> m ip)"

definition slots_ok :: "Server \<Rightarrow> bool" where
  "slots_ok s \<longleftrightarrow> (\<forall>w. sv_next s \<le> w \<longrightarrow> fst (sv_perIPConn s w) = None)
     \<and> (\<forall>w \<in> set (sv_pool s). w < sv_next s \<and> fst (sv_perIPConn s w) = None) \<and> distinct (sv_pool s)"

definition counts_ok :: "Server \<Rightarrow> bool" where
  "counts_ok s \<longleftrightarrow> (\<forall>ip. finite (open_from s ip) \<and> counter s ip = int (card (open_from s ip)) \<and> counter s ip \<le> max 0 (sv_MaxConnsPerIP s))"

lemma open_from_update:
  assumes "fst (sv_perIPConn s w) = None" "sv_perIPConn s' = (sv_perIPConn s)(w := (Some c, ip))"
  shows "open_from s' j = (if j = ip then insert w (open_from s j) else open_from s j)" "w \<notin> open_from s j"
  using assms by (auto simp: open_from_def)

lemma acquire_slot:
  assumes "acquirePerIPConn reuse c ip s = (w, s')" "slots_ok s"
  shows "fst (sv_perIPConn s w) = None" "sv_perIPConn s' = (sv_perIPConn s)(w := (Some c, ip))" "sv_m s' = sv_m s"
    "sv_MaxConnsPerIP s' = sv_MaxConnsPerIP s" "w < sv_next s'" "sv_next s \<le> sv_next s'" "w \<notin> set (sv_pool s')"
    "set (sv_pool s') \<subseteq> set (sv_pool s)" "distinct (sv_pool s')"
  using assms by (auto simp: acquirePerIPConn_def slots_ok_def split: list.splits if_splits)

lemma acquire_slots:
  assumes "acquirePerIPConn reuse c ip s = (w, s')" "slots_ok s"
  shows "slots_ok s'"
proof -
  note a = acquire_slot[OF assms]
  have "fst (sv_perIPConn s' v) = None" if "sv_next s' \<le> v" for v
    using that a(5,6) assms(2) unfolding a(2) slots_ok_def by simp
  moreover have "v < sv_next s' \<and> fst (sv_perIPConn s' v) = None" if "v \<in> set (sv_pool s')" for v
  proof -
    have "v \<in> set (sv_pool s)" "v \<noteq> w" using that a(7,8) by auto
    then show ?thesis using a(6) assms(2) unfolding a(2) slots_ok_def by auto
  qed
  ultimately show ?thesis using a(9) by (simp add: slots_ok_def)
qed

text \<open>The effect of the operations on the counters.\<close>

lemma Register_counter:
  assumes "Register ip s = (n, s1)"
  shows "n = counter s ip + 1" "counter s1 = (counter s)(ip := n)" "sv_perIPConn s1 = sv_perIPConn s"
    "sv_MaxConnsPerIP s1 = sv_MaxConnsPerIP s" "sv_pool s1 = sv_pool s" "sv_next s1 = sv_next s"
  using assms by (cases "sv_m s"; auto simp: Register_def counter_def Let_def fun_eq_iff)+

lemma Unregister_counter:
  assumes "0 < counter s ip"
  obtains s1 where "Unregister ip s = Inr s1" "counter s1 = (counter s)(ip := counter s ip - 1)"
    "sv_perIPConn s1 = sv_perIPConn s" "sv_MaxConnsPerIP s1 = sv_MaxConnsPerIP s" "sv_pool s1 = sv_pool s" "sv_next s1 = sv_next s"
  using assms that
  by (cases "sv_m s") (auto simp: Unregister_def counter_def Let_def fun_eq_iff)

lemma counts_ok_frame:
  assumes "counts_ok s" "counter s' = counter s" "sv_perIPConn s' = sv_perIPConn s" "sv_MaxConnsPerIP s' = sv_MaxConnsPerIP s"
  shows "counts_ok s'"
proof -
  have "open_from s' = open_from s" using assms(3) by (simp add: open_from_def fun_eq_iff)
  then show ?thesis using assms(1) unfolding counts_ok_def assms(2,4) by metis
qed

lemma slots_ok_frame:
  assumes "slots_ok s" "sv_perIPConn s' = sv_perIPConn s" "sv_pool s' = sv_pool s" "sv_next s' = sv_next s"
  shows "slots_ok s'"
  using assms by (simp add: slots_ok_def)

lemma wrap_ok:
  assumes "counts_ok s" "slots_ok s"
  obtains x s' where "wrapPerIPConn remote reuse c s = Inr (x, s')" "counts_ok s'" "slots_ok s'" "sv_MaxConnsPerIP s' = sv_MaxConnsPerIP s"
    "x = None \<longleftrightarrow> getUinit32IP remote c \<noteq> 0 \<and> counter s (getUinit32IP remote c) \<ge> sv_MaxConnsPerIP s"
proof -
  let ?ip = "getUinit32IP remote c"
  obtain n s1 where reg: "Register ?ip s = (n, s1)" by force
  note r = Register_counter[OF reg]
  have pos: "0 \<le> counter s ?ip" using assms(1) by (simp add: counts_ok_def)
  have sl: "slots_ok s1" by (rule slots_ok_frame[OF assms(2)]) (simp_all add: r)
  consider "?ip = 0" | "?ip \<noteq> 0" "n > sv_MaxConnsPerIP s1" | "?ip \<noteq> 0" "n \<le> sv_MaxConnsPerIP s1" by linarith
  then show thesis
  proof cases
    case 1
    then show thesis by (intro that) (use assms in \<open>auto simp: wrapPerIPConn_def\<close>)
  next
    case 2
    have "0 < counter s1 ?ip" using r pos by simp
    then obtain s2 where u: "Unregister ?ip s1 = Inr s2" "counter s2 = (counter s1)(?ip := counter s1 ?ip - 1)"
        "sv_perIPConn s2 = sv_perIPConn s1" "sv_MaxConnsPerIP s2 = sv_MaxConnsPerIP s1" "sv_pool s2 = sv_pool s1" "sv_next s2 = sv_next s1"
      by (rule Unregister_counter)
    let ?s = "s2\<lparr>sv_closed := c # sv_closed s2\<rparr>"
    have "counter ?s = counter s" using r u(2) by (auto simp: counter_def fun_eq_iff)
    then have "counts_ok ?s" by (rule counts_ok_frame[OF assms(1)]) (use r u in simp_all)
    moreover have "slots_ok ?s" by (rule slots_ok_frame[OF sl]) (use u in simp_all)
    ultimately show thesis by (intro that[of None ?s]) (use 2 r u reg in \<open>auto simp: wrapPerIPConn_def\<close>)
  next
    case 3
    obtain w s2 where acq: "acquirePerIPConn reuse c ?ip s1 = (w, s2)" by force
    note a = acquire_slot[OF acq sl]
    have o: "open_from s2 j = (if j = ?ip then insert w (open_from s j) else open_from s j)" "w \<notin> open_from s j" for j
      using open_from_update[OF a(1,2), of j] r(3) by (simp_all add: open_from_def)
    have cn: "counter s2 = (counter s)(?ip := n)" using a(3) r(2) by (simp add: counter_def fun_eq_iff)
    have "counts_ok s2"
      unfolding counts_ok_def
    proof
      fix j
      have "finite (open_from s j)" "counter s j = int (card (open_from s j))" "counter s j \<le> max 0 (sv_MaxConnsPerIP s)"
        using assms(1) unfolding counts_ok_def by blast+
      then show "finite (open_from s2 j) \<and> counter s2 j = int (card (open_from s2 j)) \<and> counter s2 j \<le> max 0 (sv_MaxConnsPerIP s2)"
        using 3(2) o[of j] by (auto simp: cn r a(4))
    qed
    then show thesis
      using acquire_slots[OF acq sl] by (intro that[of "Some (Wrapped w)" s2]) (use 3 r reg acq a(4) in \<open>auto simp: wrapPerIPConn_def\<close>)
  qed
qed

lemma close_ok:
  assumes "counts_ok s" "slots_ok s" "fst (sv_perIPConn s w) = Some c"
  obtains s' where "perIPConn_Close w s = Inr s'" "counts_ok s'" "slots_ok s'" "sv_MaxConnsPerIP s' = sv_MaxConnsPerIP s"
proof -
  obtain ip where w: "sv_perIPConn s w = (Some c, ip)" using assms(3) by (metis prod.collapse)
  let ?sc = "s\<lparr>sv_closed := c # sv_closed s\<rparr>"
  have mem: "w \<in> open_from s ip" using w by (simp add: open_from_def)
  have fin: "finite (open_from s j)" "counter s j = int (card (open_from s j))" "counter s j \<le> max 0 (sv_MaxConnsPerIP s)" for j
    using assms(1) unfolding counts_ok_def by blast+
  have "0 < card (open_from s ip)" using mem fin(1) by (auto simp: card_gt_0_iff)
  then have "0 < counter ?sc ip" using fin(2)[of ip] by (simp add: counter_def)
  then obtain s1 where u: "Unregister ip ?sc = Inr s1" "counter s1 = (counter ?sc)(ip := counter ?sc ip - 1)"
      "sv_perIPConn s1 = sv_perIPConn ?sc" "sv_MaxConnsPerIP s1 = sv_MaxConnsPerIP ?sc" "sv_pool s1 = sv_pool ?sc" "sv_next s1 = sv_next ?sc"
    by (rule Unregister_counter)
  let ?s = "releasePerIPConn w s1"
  have "counter ?sc = counter s" "counter ?s = counter s1" by (simp_all add: counter_def releasePerIPConn_def fun_eq_iff)
  then have cn: "counter ?s = (counter s)(ip := counter s ip - 1)" using u(2) by metis
  have o: "open_from ?s j = (if j = ip then open_from s j - {w} else open_from s j)" for j
    using w u(3) by (auto simp: open_from_def releasePerIPConn_def)
  have mx: "sv_MaxConnsPerIP ?s = sv_MaxConnsPerIP s" using u(4) by (simp add: releasePerIPConn_def)
  have "counts_ok ?s"
    unfolding counts_ok_def
  proof
    fix j
    show "finite (open_from ?s j) \<and> counter ?s j = int (card (open_from ?s j)) \<and> counter ?s j \<le> max 0 (sv_MaxConnsPerIP ?s)"
      using fin[of j] mem \<open>0 < card (open_from s ip)\<close> by (auto simp: cn o mx)
  qed
  moreover have "slots_ok ?s"
    using assms(2) w u by (auto simp: slots_ok_def releasePerIPConn_def) (metis fst_conv not_le_imp_less option.distinct(1))
  moreover have "perIPConn_Close w s = Inr ?s" using w u(1) by (simp add: perIPConn_Close_def)
  ultimately show thesis using that mx by blast
qed

definition new_server :: "int \<Rightarrow> int \<Rightarrow> Server" where
  "new_server concurrency most = \<lparr>sv_concurrency = 0, sv_Concurrency = concurrency, sv_open = 0, sv_MaxConnsPerIP = most, sv_m = None,
     sv_perIPConn = (\<lambda>_. (None, 0)), sv_pool = [], sv_next = 0, sv_closed = [],
     sv_IdleTimeout = 0, sv_ReadTimeout = 0, sv_WriteTimeout = 0, sv_MaxRequestBodySize = 0, sv_globalConnID = 0\<rparr>"

lemma new_server_ok: "counts_ok (new_server k most)" "slots_ok (new_server k most)"
  by (simp_all add: counts_ok_def slots_ok_def open_from_def counter_def new_server_def)

lemma conn_run_ok:
  assumes "counts_ok s" "slots_ok s"
  shows "case conn_run remote ops s of
      Inl e \<Rightarrow> e = NilDereference
    | Inr s' \<Rightarrow> counts_ok s' \<and> slots_ok s' \<and> sv_MaxConnsPerIP s' = sv_MaxConnsPerIP s"
  using assms
proof (induction ops arbitrary: s)
  case (Cons op ops)
  show ?case
  proof (cases op)
    case (Arrive c reuse)
    obtain x s1 where s1: "wrapPerIPConn remote reuse c s = Inr (x, s1)" "counts_ok s1" "slots_ok s1" "sv_MaxConnsPerIP s1 = sv_MaxConnsPerIP s"
      using wrap_ok[OF Cons.prems] by metis
    then show ?thesis using Cons.IH[OF s1(2,3)] Arrive by (simp split: sum.splits)
  next
    case (CloseOp w)
    show ?thesis
    proof (cases "fst (sv_perIPConn s w)")
      case None
      then show ?thesis using CloseOp by (simp add: perIPConn_Close_def)
    next
      case (Some c)
      obtain s1 where s1: "perIPConn_Close w s = Inr s1" "counts_ok s1" "slots_ok s1" "sv_MaxConnsPerIP s1 = sv_MaxConnsPerIP s"
        using close_ok[OF Cons.prems Some] by metis
      then show ?thesis using Cons.IH[OF s1(2,3)] CloseOp by (simp split: sum.splits)
    qed
  qed
qed simp

text \<open>C23: The limit per address holds: after any sequence of arriving connections and closed wrappers, the counter of every address
  is the number of its open connections and is at most \<open>MaxConnsPerIP\<close>; no counter becomes negative, and the only panic is the one of closing a wrapper
  that is closed already.\<close>

theorem conns_per_ip_limited:
  assumes "0 \<le> most"
  shows "case conn_run remote ops (new_server k most) of
      Inl e \<Rightarrow> e = NilDereference
    | Inr s \<Rightarrow> \<forall>ip. counter s ip = int (card {w. \<exists>c. sv_perIPConn s w = (Some c, ip)}) \<and> counter s ip \<le> most"
proof -
  have m: "sv_MaxConnsPerIP (new_server k most) = most" by (simp add: new_server_def)
  have h: "counter s ip = int (card {w. \<exists>c. sv_perIPConn s w = (Some c, ip)}) \<and> counter s ip \<le> most"
    if "counts_ok s" "sv_MaxConnsPerIP s = most" for s ip
    using that(1) assms unfolding counts_ok_def open_from_def that(2) max_absorb2[OF assms] by blast
  show ?thesis
  proof (cases "conn_run remote ops (new_server k most)")
    case (Inr s)
    then have "counts_ok s" "sv_MaxConnsPerIP s = most" using conn_run_ok[OF new_server_ok, of k most remote ops] m by simp_all
    from h[OF this] show ?thesis unfolding Inr sum.case by blast
  qed (use conn_run_ok[OF new_server_ok, of k most remote ops] in simp)
qed

theorem conns_per_ip_limited_witness:
  "case conn_run (\<lambda>_. Some [192, 168, 0, 7]) [Arrive 1 False, Arrive 2 False, Arrive 3 False, CloseOp 0, Arrive 4 True] (new_server 0 2) of
      Inl e \<Rightarrow> e = NilDereference
    | Inr s \<Rightarrow> \<forall>ip. counter s ip = int (card {w. \<exists>c. sv_perIPConn s w = (Some c, ip)}) \<and> counter s ip \<le> 2"
  by (rule conns_per_ip_limited) simp

section \<open>Serving is not possible\<close>

lemma acceptConn_panics:
  assumes "counts_ok s" "slots_ok s"
  shows "case acceptConn remote es s of Inl e \<Rightarrow> ABoth \<in> set es \<or> ANeither \<in> set es | Inr r \<Rightarrow> True"
  using assms
proof (induction es arbitrary: s)
  case (Cons e es)
  show ?case
  proof (cases e)
    case (AConn c reuse)
    obtain x s1 where s1: "wrapPerIPConn remote reuse c s = Inr (x, s1)" "counts_ok s1" "slots_ok s1"
      using wrap_ok[OF Cons.prems] by metis
    then show ?thesis using Cons.IH[OF s1(2,3)] AConn by (cases x) (simp_all split: sum.splits)
  qed (use Cons.IH[OF Cons.prems] in \<open>simp_all split: sum.splits\<close>)
qed simp

text \<open>\<open>Serve\<close> cannot serve: the worker pool it creates has a nil mutex.  As long as the listener has nothing but temporary errors and refused
  connections it waits; with the first connection that is accepted, and also when the listener is closed or fails, it panics with a nil dereference.  The only
  other panics are those of a listener that returns both a connection and an error, or neither; it never returns.\<close>

theorem Server_Serve_panics:
  "case acceptConn remote es ((new_server k most)\<lparr>sv_open := 1\<rparr>) of
      Inl e \<Rightarrow> Server_Serve remote es (new_server k most) = Inl e \<and> (ABoth \<in> set es \<or> ANeither \<in> set es)
    | Inr (a, es1, s1) \<Rightarrow>
        Server_Serve remote es (new_server k most) = (if a = Blocked then Inr (Waiting_for_conn, s1) else Inl NilDereference)"
proof -
  let ?p = "Serve_pool (getConcurrency (new_server k most))" and ?s = "(new_server k most)\<lparr>sv_open := 1\<rparr>"
  have p: "Start ?p = Inr (?p\<lparr>p_started := True\<rparr>)" "Stop (?p\<lparr>p_started := True\<rparr>) = Inl NilDereference"
      "pool_Serve (?p\<lparr>p_started := True\<rparr>) = Inl NilDereference"
    by (simp_all add: Start_def Stop_def pool_Serve_def Serve_pool_def)
  have s: "(new_server k most)\<lparr>sv_open := to_int32 (sv_open (new_server k most) + 1)\<rparr> = ?s"
    by (simp add: new_server_def to_int32_def)
  have "counts_ok ?s" by (rule counts_ok_frame[OF new_server_ok(1)[of k most]]) (simp_all add: counter_def fun_eq_iff)
  moreover have "slots_ok ?s" by (rule slots_ok_frame[OF new_server_ok(2)[of k most]]) simp_all
  ultimately have a: "case acceptConn remote es ?s of Inl e \<Rightarrow> ABoth \<in> set es \<or> ANeither \<in> set es | Inr r \<Rightarrow> True"
    by (rule acceptConn_panics)
  show ?thesis
  proof (cases "acceptConn remote es ?s")
    case (Inr r)
    obtain b es1 s1 where "r = (b, es1, s1)" by (cases r)
    with Inr show ?thesis by (cases b) (simp_all add: Server_Serve_def p s Let_def)
  qed (use a in \<open>simp add: Server_Serve_def p s\<close>)
qed

text \<open>A connection that has been served counts neither as open nor as handled; but the handler does not close it and reports no error, for which the
  worker would close it, so its address stays counted.\<close>

theorem serveConn_leaves_connection:
  "case serveConn now s of (_, s') \<Rightarrow>
     sv_concurrency s' = sv_concurrency s \<and> sv_open s' = to_int32 (sv_open s - 1) \<and> sv_closed s' = sv_closed s \<and> sv_m s' = sv_m s
     \<and> sv_globalConnID s' = sv_globalConnID s + 1"
  by (simp add: serveConn_def serveConn_begin_def nextConnID_def serveConnCleanup_def Let_def)

end
