(* ===== verification/Byte_Buffer.thy ===== *)
theory Byte_Buffer
  imports Prelude
begin

text \<open>
  The buffer and the buffer pool of \<^verbatim>\<open>bytebufferpool\<close>.  A buffer is a slice: a backing array, whose length is the capacity, and the
  length of the part in use.  How much more than needed \<open>append\<close> allocates is the choice of the Go runtime and an argument \<open>extra\<close>; an \<open>io.Reader\<close> is an
  argument too, and so is the order in which \<open>sort.Sort\<close>, which is not stable, leaves elements that compare equal.
\<close>

section \<open>Buffers\<close>

type_synonym byte = "8 word"

record ByteBuffer =
  bb_array :: "byte list"
  bb_len :: nat

definition bb_cap :: "ByteBuffer \<Rightarrow> nat" where
  "bb_cap b = length (bb_array b)"

definition bb_ok :: "ByteBuffer \<Rightarrow> bool" where
  "bb_ok b \<longleftrightarrow> bb_len b \<le> length (bb_array b)"

text \<open>The builtin \<open>append\<close>: in place when the capacity is enough, otherwise into a new array.\<close>

definition bb_append :: "(nat \<Rightarrow> nat \<Rightarrow> nat) \<Rightarrow> ByteBuffer \<Rightarrow> byte list \<Rightarrow> ByteBuffer" where
  "bb_append extra b p =
     (let n = bb_len b + length p
      in if n \<le> bb_cap b
         then \<lparr>bb_array = take (bb_len b) (bb_array b) @ p @ drop n (bb_array b), bb_len = n\<rparr>
         else \<lparr>bb_array = take (bb_len b) (bb_array b) @ p @ replicate (extra (bb_cap b) n) 0, bb_len = n\<rparr>)"

definition buffer_Len :: "ByteBuffer \<Rightarrow> nat" where
  "buffer_Len b = bb_len b"

definition buffer_Bytes :: "ByteBuffer \<Rightarrow> byte list" where
  "buffer_Bytes b = take (bb_len b) (bb_array b)"

definition buffer_String :: "ByteBuffer \<Rightarrow> byte list" where
  "buffer_String b = take (bb_len b) (bb_array b)"

definition buffer_Write :: "(nat \<Rightarrow> nat \<Rightarrow> nat) \<Rightarrow> byte list \<Rightarrow> ByteBuffer \<Rightarrow> nat \<times> ByteBuffer" where
  "buffer_Write extra p b = (length p, bb_append extra b p)"

definition buffer_WriteByte :: "(nat \<Rightarrow> nat \<Rightarrow> nat) \<Rightarrow> byte \<Rightarrow> ByteBuffer \<Rightarrow> ByteBuffer" where
  "buffer_WriteByte extra c b = bb_append extra b [c]"

definition buffer_WriteString :: "(nat \<Rightarrow> nat \<Rightarrow> nat) \<Rightarrow> byte list \<Rightarrow> ByteBuffer \<Rightarrow> nat \<times> ByteBuffer" where
  "buffer_WriteString extra p b = (length p, bb_append extra b p)"

definition buffer_Reset :: "ByteBuffer \<Rightarrow> ByteBuffer" where
  "buffer_Reset b = b\<lparr>bb_len := 0\<rparr>"

definition buffer_Set :: "(nat \<Rightarrow> nat \<Rightarrow> nat) \<Rightarrow> byte list \<Rightarrow> ByteBuffer \<Rightarrow> ByteBuffer" where
  "buffer_Set extra p b = bb_append extra (b\<lparr>bb_len := 0\<rparr>) p"

definition buffer_SetString :: "(nat \<Rightarrow> nat \<Rightarrow> nat) \<Rightarrow> byte list \<Rightarrow> ByteBuffer \<Rightarrow> ByteBuffer" where
  "buffer_SetString extra p b = bb_append extra (b\<lparr>bb_len := 0\<rparr>) p"

text \<open>\<open>WriteTo\<close> hands the contents to a writer, whose answer it returns.\<close>

definition buffer_WriteTo :: "(byte list \<Rightarrow> 'w \<Rightarrow> (nat \<times> 'e option) \<times> 'w) \<Rightarrow> ByteBuffer \<Rightarrow> 'w \<Rightarrow> (nat \<times> 'e option) \<times> 'w" where
  "buffer_WriteTo write b w = write (buffer_Bytes b) w"

section \<open>Reading\<close>

text \<open>\<open>read r k\<close> is a call of the reader with room for \<open>k\<close> bytes: the bytes it stores, its error and its next state.  The loop may run for
  ever, with a reader that never gives an error.\<close>

datatype 'e read_error = REOF | RError 'e

type_synonym ('r, 'e) reader = "'r \<Rightarrow> nat \<Rightarrow> (byte list \<times> 'e read_error option) \<times> 'r"

partial_function (option) ReadFrom_loop ::
    "('r, 'e) reader \<Rightarrow> byte list \<Rightarrow> nat \<Rightarrow> 'r \<Rightarrow> (byte list \<times> nat \<times> 'e read_error \<times> 'r) option" where
  "ReadFrom_loop read p n r =
     (let p1 = (if n = length p then go_copy (replicate (2 * length p) 0) p else p)
      in case read r (length p1 - n) of ((bs, err), r1) \<Rightarrow>
           let p2 = take n p1 @ bs @ drop (n + length bs) p1; n1 = n + length bs
           in (case err of None \<Rightarrow> ReadFrom_loop read p2 n1 r1 | Some e \<Rightarrow> Some (p2, n1, e, r1)))"

definition ReadFrom :: "('r, 'e) reader \<Rightarrow> ByteBuffer \<Rightarrow> 'r \<Rightarrow> ((nat \<times> 'e option) \<times> ByteBuffer \<times> 'r) option" where
  "ReadFrom read b r =
     (let p = (if bb_cap b = 0 then replicate 64 0 else bb_array b)
      in case ReadFrom_loop read p (bb_len b) r of
           None \<Rightarrow> None
         | Some (p1, n, e, r1) \<Rightarrow>
             Some ((n - bb_len b, case e of REOF \<Rightarrow> None | RError x \<Rightarrow> Some x), \<lparr>bb_array = p1, bb_len = n\<rparr>, r1))"

section \<open>The pool\<close>

definition minBitSize :: nat where "minBitSize = 6"
definition steps :: nat where "steps = 20"
definition calibrateCallsThreshold :: "64 word" where "calibrateCallsThreshold = 42000"
definition minSize :: "64 word" where "minSize = 64"

record Pool =
  bp_calls :: "64 word list"
  bp_calibrating :: "64 word"
  bp_byteSize :: "64 word"
  bp_maxSize :: "64 word"
  bp_pool :: "ByteBuffer list"

definition bytePool :: Pool where
  "bytePool = \<lparr>bp_calls = replicate steps 0, bp_calibrating = 0, bp_byteSize = 0, bp_maxSize = 0, bp_pool = []\<rparr>"

text \<open>Whether the \<open>sync.Pool\<close> hands out an object it has is the argument \<open>reuse\<close>.\<close>

definition Pool_Get :: "bool \<Rightarrow> Pool \<Rightarrow> ByteBuffer \<times> Pool" where
  "Pool_Get reuse p =
     (case bp_pool p of
        b # bs \<Rightarrow> if reuse then (b, p\<lparr>bp_pool := bs\<rparr>) else (\<lparr>bb_array = replicate (unat (bp_byteSize p)) 0, bb_len = 0\<rparr>, p)
      | [] \<Rightarrow> (\<lparr>bb_array = replicate (unat (bp_byteSize p)) 0, bb_len = 0\<rparr>, p))"

function index_loop :: "int \<Rightarrow> nat \<Rightarrow> nat" where
  "index_loop n idx = (if n > 0 then index_loop (n div 2) (steps - 1) else idx)"
  by pat_completeness auto
termination by (relation "measure (\<lambda>(n, idx). nat n)") auto

declare index_loop.simps [simp del]

definition index :: "int \<Rightarrow> nat" where
  "index n = index_loop ((n - 1) div 2 ^ minBitSize) 0"

record callSize =
  cs_calls :: "64 word"
  cs_size :: "64 word"

definition callSizes_Less :: "callSize list \<Rightarrow> nat \<Rightarrow> nat \<Rightarrow> bool" where
  "callSizes_Less ci i j \<longleftrightarrow> cs_calls (ci ! i) > cs_calls (ci ! j)"

text \<open>The product with the constant \<open>maxPercentile\<close> is computed in double precision: \<open>f64_round\<close> rounds an integer to 53 significant bits,
  ties to even, and the constant is 8556839292003942 / 2 to the power of 53.\<close>

fun bit_length :: "nat \<Rightarrow> nat" where
  "bit_length n = (if n = 0 then 0 else Suc (bit_length (n div 2)))"

definition f64_round :: "nat \<Rightarrow> nat" where
  "f64_round m =
     (let d = 2 ^ (bit_length m - 53); q = m div d; r = m mod d
      in if 2 * r > d \<or> (2 * r = d \<and> odd q) then (q + 1) * d else q * d)"

definition max_percentile :: "64 word \<Rightarrow> 64 word" where
  "max_percentile callsSum = word_of_nat (f64_round (f64_round (unat callsSum) * 8556839292003942) div 2 ^ 53)"

text \<open>The two loops of \<open>calibrate\<close>.\<close>

fun maxSum_loop :: "callSize list \<Rightarrow> 64 word \<Rightarrow> 64 word \<Rightarrow> 64 word \<Rightarrow> 64 word" where
  "maxSum_loop [] callsSum maxSum most = maxSum"
| "maxSum_loop (c # cs) callsSum maxSum most =
     (if callsSum > maxSum then maxSum
      else maxSum_loop cs (callsSum + cs_calls c) (if cs_size c > most then cs_size c else maxSum) most)"

fun maxSize_loop :: "callSize list \<Rightarrow> 64 word \<Rightarrow> 64 word \<Rightarrow> 64 word \<Rightarrow> 64 word" where
  "maxSize_loop [] callsSum maxSum most = most"
| "maxSize_loop (c # cs) callsSum maxSum most =
     (if callsSum > maxSum then most
      else maxSize_loop cs (callsSum + cs_calls c) maxSum (if cs_size c > most then cs_size c else most))"

definition call_sizes :: "Pool \<Rightarrow> callSize list" where
  "call_sizes p = map (\<lambda>i. \<lparr>cs_calls = bp_calls p ! i, cs_size = push_bit i minSize\<rparr>) [0..<steps]"

definition calibrate :: "(callSize list \<Rightarrow> callSize list) \<Rightarrow> Pool \<Rightarrow> Pool" where
  "calibrate srt p =
     (if bp_calibrating p \<noteq> 0 then p
      else let a = srt (call_sizes p); total = sum_list (bp_calls p);
               byteSize = cs_size (a ! 0);
               maxSum = maxSum_loop a 0 (max_percentile total) byteSize;
               most = maxSize_loop a 0 maxSum byteSize
           in p\<lparr>bp_calls := replicate steps 0, bp_byteSize := byteSize, bp_maxSize := most, bp_calibrating := most\<rparr>)"

definition Pool_Put :: "(callSize list \<Rightarrow> callSize list) \<Rightarrow> ByteBuffer \<Rightarrow> Pool \<Rightarrow> Pool" where
  "Pool_Put srt b p =
     (let idx = index (int (bb_len b)); n = bp_calls p ! idx + 1; p1 = p\<lparr>bp_calls := (bp_calls p)[idx := n]\<rparr>;
          p2 = (if n > calibrateCallsThreshold then calibrate srt p1 else p1);
          most = bp_maxSize p2
      in if most = 0 \<or> bb_cap b \<le> unat most then p2\<lparr>bp_pool := buffer_Reset b # bp_pool p2\<rparr> else p2)"

section \<open>Buffers as byte lists\<close>

text \<open>The specification of a buffer is the list of its bytes.  The answer of an operation is a number (the count of a write or the length), a byte list, or
  nothing.\<close>

datatype buffer_op = OWrite "byte list" | OWriteByte byte | OWriteString "byte list" | OSet "byte list" | OSetString "byte list" | OReset | OLen | OBytes | OString

datatype buffer_answer = ANum nat | ABytes "byte list" | ANothing

fun buffer_step :: "(nat \<Rightarrow> nat \<Rightarrow> nat) \<Rightarrow> buffer_op \<Rightarrow> ByteBuffer \<Rightarrow> buffer_answer \<times> ByteBuffer" where
  "buffer_step extra (OWrite p) b = (case buffer_Write extra p b of (n, b1) \<Rightarrow> (ANum n, b1))"
| "buffer_step extra (OWriteByte c) b = (ANothing, buffer_WriteByte extra c b)"
| "buffer_step extra (OWriteString p) b = (case buffer_WriteString extra p b of (n, b1) \<Rightarrow> (ANum n, b1))"
| "buffer_step extra (OSet p) b = (ANothing, buffer_Set extra p b)"
| "buffer_step extra (OSetString p) b = (ANothing, buffer_SetString extra p b)"
| "buffer_step extra OReset b = (ANothing, buffer_Reset b)"
| "buffer_step extra OLen b = (ANum (buffer_Len b), b)"
| "buffer_step extra OBytes b = (ABytes (buffer_Bytes b), b)"
| "buffer_step extra OString b = (ABytes (buffer_String b), b)"

fun bytes_step :: "buffer_op \<Rightarrow> byte list \<Rightarrow> buffer_answer \<times> byte list" where
  "bytes_step (OWrite p) xs = (ANum (length p), xs @ p)"
| "bytes_step (OWriteByte c) xs = (ANothing, xs @ [c])"
| "bytes_step (OWriteString p) xs = (ANum (length p), xs @ p)"
| "bytes_step (OSet p) xs = (ANothing, p)"
| "bytes_step (OSetString p) xs = (ANothing, p)"
| "bytes_step OReset xs = (ANothing, [])"
| "bytes_step OLen xs = (ANum (length xs), xs)"
| "bytes_step OBytes xs = (ABytes xs, xs)"
| "bytes_step OString xs = (ABytes xs, xs)"

lemma bb_append_ok: "bb_ok b \<Longrightarrow> bb_ok (bb_append extra b p) \<and> buffer_Bytes (bb_append extra b p) = buffer_Bytes b @ p"
  by (auto simp: bb_append_def bb_ok_def buffer_Bytes_def bb_cap_def Let_def)

lemma bb_reset_ok: "bb_ok (b\<lparr>bb_len := 0\<rparr>)" "buffer_Bytes (b\<lparr>bb_len := 0\<rparr>) = []"
  by (simp_all add: bb_ok_def buffer_Bytes_def)

lemma buffer_reads: "buffer_String b = buffer_Bytes b" "bb_ok b \<Longrightarrow> buffer_Len b = length (buffer_Bytes b)"
  by (simp_all add: buffer_String_def buffer_Bytes_def buffer_Len_def bb_ok_def)

lemmas buffer_defs = buffer_Write_def buffer_WriteByte_def buffer_WriteString_def buffer_Set_def buffer_SetString_def buffer_Reset_def

lemma buffer_step_ok:
  assumes "bb_ok b" "buffer_step extra op b = (r, b')"
  shows "bb_ok b' \<and> bytes_step op (buffer_Bytes b) = (r, buffer_Bytes b')"
  using assms by (cases op) (auto simp: buffer_defs bb_append_ok bb_reset_ok buffer_reads)

interpretation byte_buffer: simulation "buffer_step extra" bytes_step buffer_Bytes bb_ok "\<lambda>_. True" for extra
  by unfold_locales (use buffer_step_ok in blast)+

text \<open>C26: A buffer behaves as the list of its bytes: whatever sequence of \<open>Write\<close>, \<open>WriteByte\<close>, \<open>WriteString\<close>, \<open>Set\<close>, \<open>SetString\<close>,
  \<open>Reset\<close>, \<open>Len\<close>, \<open>Bytes\<close> and \<open>String\<close> is applied and however much \<open>append\<close> allocates, the answers and the final contents are those of the same
  operations on byte lists.\<close>

theorem buffer_is_byte_list:
  assumes "bb_ok b"
  shows "run_ops bytes_step ops (buffer_Bytes b)
     = (fst (run_ops (buffer_step extra) ops b), buffer_Bytes (snd (run_ops (buffer_step extra) ops b)))"
  using byte_buffer.run_simulates[OF assms, of ops extra] by (simp add: list_all_iff)

theorem buffer_is_byte_list_witness:
  "buffer_Bytes (snd (run_ops (buffer_step (\<lambda>_ _. 3)) [OWrite [1, 2], OReset, OWriteByte 7, OWriteString [8, 9]] \<lparr>bb_array = [0, 0], bb_len = 0\<rparr>)) = [7, 8, 9]"
  using buffer_is_byte_list[of "\<lparr>bb_array = [0, 0], bb_len = 0\<rparr>" "[OWrite [1, 2], OReset, OWriteByte 7, OWriteString [8, 9]]" "\<lambda>_ _. 3"]
  by (simp add: bb_ok_def buffer_Bytes_def)

section \<open>Reading to the end\<close>

text \<open>What the documentation of \<open>io.Reader\<close> promises, for a reader whose remaining data is \<open>data r\<close>, which ends after at most \<open>left r\<close> more reads with the
  error \<open>final r\<close>: a read stores at most as many bytes as there is room for, they are the next bytes of the data, and the error comes when all
  are read.\<close>

definition reader_ok :: "('r, 'e) reader \<Rightarrow> ('r \<Rightarrow> byte list) \<Rightarrow> ('r \<Rightarrow> nat) \<Rightarrow> ('r \<Rightarrow> 'e read_error) \<Rightarrow> bool" where
  "reader_ok read data left final \<longleftrightarrow>
     (\<forall>r k bs err r1. 0 < k \<longrightarrow> read r k = ((bs, err), r1) \<longrightarrow>
        length bs \<le> k \<and>
        (case err of None \<Rightarrow> data r = bs @ data r1 \<and> left r1 < left r \<and> final r1 = final r | Some e \<Rightarrow> data r = bs \<and> e = final r))"

lemma max_grow: "x \<le> max a b \<Longrightarrow> a \<le> max c d \<Longrightarrow> d \<le> b \<Longrightarrow> x \<le> max c (b :: nat)"
  by linarith

lemma ReadFrom_loop_reads:
  assumes "reader_ok read data left final" "n \<le> length p" "0 < length p"
  shows "\<exists>p1 r1. ReadFrom_loop read p n r = Some (p1, n + length (data r), final r, r1)
     \<and> take (n + length (data r)) p1 = take n p @ data r \<and> n + length (data r) \<le> length p1
     \<and> length p1 \<le> max (length p) (2 * (n + length (data r)))"
  using assms(2,3)
proof (induction "left r" arbitrary: p n r rule: less_induct)
  case less
  let ?p = "if n = length p then go_copy (replicate (2 * length p) 0) p else p"
  have p: "n < length ?p" "take n ?p = take n p" "length ?p \<le> max (length p) (2 * n)"
    using less.prems by (auto simp: go_copy_def)
  obtain bs err r1 where rd: "read r (length ?p - n) = ((bs, err), r1)" by (metis prod.exhaust)
  have c: "length bs \<le> length ?p - n"
      "case err of None \<Rightarrow> data r = bs @ data r1 \<and> left r1 < left r \<and> final r1 = final r | Some e \<Rightarrow> data r = bs \<and> e = final r"
    using assms(1) p(1) rd unfolding reader_ok_def by (metis zero_less_diff)+
  let ?q = "take n ?p @ bs @ drop (n + length bs) ?p"
  have q: "length ?q = length ?p" "take (n + length bs) ?q = take n p @ bs" using p c(1) by auto
  have unfold: "ReadFrom_loop read p n r = (case err of None \<Rightarrow> ReadFrom_loop read ?q (n + length bs) r1 | Some e \<Rightarrow> Some (?q, n + length bs, e, r1))"
    by (subst ReadFrom_loop.simps) (simp only: Let_def rd prod.case)
  show ?case
  proof (cases err)
    case None
    with c have d: "data r = bs @ data r1" "left r1 < left r" "final r1 = final r" by simp_all
    have "n + length bs \<le> length ?q" "0 < length ?q" using c(1) p(1) unfolding q(1) by linarith+
    from less.hyps[OF d(2) this] obtain p1 r2 where h:
        "ReadFrom_loop read ?q (n + length bs) r1 = Some (p1, n + length bs + length (data r1), final r1, r2)"
        "take (n + length bs + length (data r1)) p1 = take (n + length bs) ?q @ data r1" "n + length bs + length (data r1) \<le> length p1"
        "length p1 \<le> max (length ?q) (2 * (n + length bs + length (data r1)))" by blast
    have "length p1 \<le> max (length p) (2 * (n + length (data r)))"
      using max_grow[OF h(4)[unfolded q(1)] p(3)] by (simp add: d(1) add.assoc)
    then show ?thesis using h(1,2,3) q(2) None d unfolding unfold by (simp add: add.assoc)
  next
    case (Some e)
    then have "data r = bs" "e = final r" using c(2) by simp_all
    moreover have "length ?q \<le> max (length p) (2 * (n + length bs))"
      unfolding q(1) by (rule order_trans[OF p(3)]) simp
    moreover have "n + length bs \<le> length ?q" using c(1) p(1) unfolding q(1) by linarith
    ultimately show ?thesis using Some q(2) unfolding unfold by auto
  qed
qed

text \<open>\<open>ReadFrom\<close> returns for every reader that ends: it appends all the data to the buffer, returns the number of bytes and the error, with none for the
  end of the input, and allocates at most twice the bytes it holds, unless the buffer was larger or the initial 64 bytes are enough.\<close>

theorem ReadFrom_reads_all:
  assumes "reader_ok read data left final" "bb_ok b"
  shows "\<exists>b1 r1. ReadFrom read b r = Some ((length (data r), case final r of REOF \<Rightarrow> None | RError x \<Rightarrow> Some x), b1, r1)
     \<and> bb_ok b1 \<and> buffer_Bytes b1 = buffer_Bytes b @ data r \<and> bb_cap b1 \<le> max (max 64 (bb_cap b)) (2 * bb_len b1)"
proof -
  let ?p = "if bb_cap b = 0 then replicate 64 0 else bb_array b"
  have p: "bb_len b \<le> length ?p" "0 < length ?p" "take (bb_len b) ?p = buffer_Bytes b" "length ?p \<le> max 64 (bb_cap b)"
    using assms(2) by (auto simp: bb_ok_def bb_cap_def buffer_Bytes_def)
  obtain p1 r1 where h: "ReadFrom_loop read ?p (bb_len b) r = Some (p1, bb_len b + length (data r), final r, r1)"
      "take (bb_len b + length (data r)) p1 = take (bb_len b) ?p @ data r" "bb_len b + length (data r) \<le> length p1"
      "length p1 \<le> max (length ?p) (2 * (bb_len b + length (data r)))"
    using ReadFrom_loop_reads[OF assms(1) p(1,2), of r] by blast
  have "length p1 \<le> max (max 64 (bb_cap b)) (2 * (bb_len b + length (data r)))" using h(4) p(4) by linarith
  with h(2,3) show ?thesis
    unfolding ReadFrom_def Let_def h(1) by (simp add: bb_ok_def buffer_Bytes_def p(3)[unfolded buffer_Bytes_def] bb_cap_def[of "\<lparr>bb_array = _, bb_len = _\<rparr>"])
qed

definition list_reader :: "(byte list, unit) reader" where
  "list_reader xs k = (if xs = [] then (([], Some REOF), []) else ((take k xs, None), drop k xs))"

lemma list_reader_ok: "reader_ok list_reader id length (\<lambda>_. REOF)"
  by (auto simp: reader_ok_def list_reader_def split: if_splits)

theorem ReadFrom_reads_all_witness:
  "\<exists>b1 r1. ReadFrom list_reader \<lparr>bb_array = [5, 6, 0], bb_len = 2\<rparr> [1, 2, 3] = Some ((3, None), b1, r1) \<and> buffer_Bytes b1 = [5, 6, 1, 2, 3]"
  using ReadFrom_reads_all[OF list_reader_ok, of "\<lparr>bb_array = [5, 6, 0], bb_len = 2\<rparr>" "[1, 2, 3]"]
  by (auto simp: bb_ok_def buffer_Bytes_def)

section \<open>The life of the pool\<close>

text \<open>The documented result of \<open>sort.Sort\<close>: the same elements, none less than one before it.\<close>

definition sort_ok :: "(callSize list \<Rightarrow> callSize list) \<Rightarrow> bool" where
  "sort_ok srt \<longleftrightarrow> (\<forall>a. mset (srt a) = mset a \<and> (\<forall>i j. i < j \<longrightarrow> j < length (srt a) \<longrightarrow> \<not> callSizes_Less (srt a) j i))"

lemma sort_ok_iff: "sort_ok srt \<longleftrightarrow> (\<forall>a. mset (srt a) = mset a \<and> sorted_wrt (\<lambda>c d. cs_calls c \<ge> cs_calls d) (srt a))"
  by (simp add: sort_ok_def sorted_wrt_iff_nth_less callSizes_Less_def not_less)

datatype pool_op = PGet bool | PPut ByteBuffer

fun pool_step :: "(callSize list \<Rightarrow> callSize list) \<Rightarrow> pool_op \<Rightarrow> Pool \<Rightarrow> ByteBuffer option \<times> Pool" where
  "pool_step srt (PGet reuse) p = (case Pool_Get reuse p of (b, p1) \<Rightarrow> (Some b, p1))"
| "pool_step srt (PPut b) p = (None, Pool_Put srt b p)"

lemma index_loop_last: "index_loop n 19 = 19"
proof (induction "nat n" arbitrary: n rule: less_induct)
  case less
  then show ?case by (subst index_loop.simps) (simp add: steps_def)
qed

text \<open>The size classes in between are never counted.\<close>

lemma index_two_classes: "0 \<le> n \<Longrightarrow> index n = (if n \<le> 64 then 0 else 19)"
  unfolding index_def by (subst index_loop.simps) (auto simp: index_loop_last minBitSize_def steps_def)

lemma index_in_range: "index (int n) < steps"
  by (simp add: index_two_classes steps_def)

definition a_size :: "64 word \<Rightarrow> bool" where
  "a_size x \<longleftrightarrow> (\<exists>i < steps. x = push_bit i minSize)"

lemma a_size_unat: "a_size x \<Longrightarrow> 64 \<le> unat x \<and> unat x \<le> 2 ^ 25"
proof -
  have "list_all (\<lambda>i. 64 \<le> unat (push_bit i minSize) \<and> unat (push_bit i minSize) \<le> 2 ^ 25) [0..<steps]"
    by (simp add: steps_def minSize_def upt_rec push_bit_eq_mult unat_word_ariths)
  then show "a_size x \<Longrightarrow> 64 \<le> unat x \<and> unat x \<le> 2 ^ 25" by (auto simp: a_size_def list_all_iff)
qed

lemma a_size_pos: "a_size x \<Longrightarrow> x \<noteq> 0"
  using a_size_unat[of x] by auto

lemma maxSize_loop_ok:
  assumes "\<forall>c \<in> set a. a_size (cs_size c)" "a_size most"
  shows "a_size (maxSize_loop a s m most) \<and> most \<le> maxSize_loop a s m most"
  using assms
proof (induction a arbitrary: s most)
  case (Cons c a)
  show ?case using Cons.IH[of "cs_size c" "s + cs_calls c"] Cons.IH[of most "s + cs_calls c"] Cons.prems by auto
qed simp

text \<open>The outcome of the calibration.\<close>

lemma calibrate_result:
  assumes "sort_ok srt" "bp_calibrating p = 0"
  shows "\<exists>i < steps. bp_byteSize (calibrate srt p) = push_bit i minSize \<and> (\<forall>j < steps. bp_calls p ! j \<le> bp_calls p ! i)"
    and "a_size (bp_byteSize (calibrate srt p))" "a_size (bp_maxSize (calibrate srt p))"
    and "bp_byteSize (calibrate srt p) \<le> bp_maxSize (calibrate srt p)"
    and "bp_calibrating (calibrate srt p) = bp_maxSize (calibrate srt p)"
    and "bp_pool (calibrate srt p) = bp_pool p" "bp_calls (calibrate srt p) = replicate steps 0"
proof -
  let ?a = "srt (call_sizes p)"
  have a: "mset ?a = mset (call_sizes p)" "sorted_wrt (\<lambda>c d. cs_calls c \<ge> cs_calls d) ?a" using assms(1) by (auto simp: sort_ok_iff)
  have set: "set ?a = set (call_sizes p)" using a(1) by (rule mset_eq_setD)
  have "length ?a = steps" using mset_eq_length[OF a(1)] by (simp add: call_sizes_def)
  then obtain c cs where c: "?a = c # cs" by (cases ?a) (auto simp: steps_def)
  then have "c \<in> set (call_sizes p)" using set by auto
  then obtain i where i: "i < steps" "cs_calls c = bp_calls p ! i" "cs_size c = push_bit i minSize" by (auto simp: call_sizes_def)
  have top: "bp_calls p ! j \<le> bp_calls p ! i" if "j < steps" for j
  proof -
    have "\<lparr>cs_calls = bp_calls p ! j, cs_size = push_bit j minSize\<rparr> \<in> set ?a" using that unfolding set by (auto simp: call_sizes_def)
    then show ?thesis using a(2) i(2) c by auto
  qed
  have sizes: "\<forall>d \<in> set ?a. a_size (cs_size d)" unfolding set by (auto simp: call_sizes_def a_size_def)
  have byteSize: "bp_byteSize (calibrate srt p) = push_bit i minSize" using assms(2) c i(3) by (simp add: calibrate_def Let_def)
  show "\<exists>i < steps. bp_byteSize (calibrate srt p) = push_bit i minSize \<and> (\<forall>j < steps. bp_calls p ! j \<le> bp_calls p ! i)"
    using byteSize i(1) top by blast
  show size: "a_size (bp_byteSize (calibrate srt p))" unfolding byteSize a_size_def using i(1) by blast
  then have "a_size (cs_size (?a ! 0))" using assms(2) by (simp add: calibrate_def Let_def)
  from maxSize_loop_ok[OF sizes this]
  show "a_size (bp_maxSize (calibrate srt p))" "bp_byteSize (calibrate srt p) \<le> bp_maxSize (calibrate srt p)"
    using assms(2) by (simp_all add: calibrate_def Let_def)
  show "bp_calibrating (calibrate srt p) = bp_maxSize (calibrate srt p)" "bp_pool (calibrate srt p) = bp_pool p"
      "bp_calls (calibrate srt p) = replicate steps 0"
    using assms(2) by (simp_all add: calibrate_def Let_def)
qed

lemma calibrate_again: "bp_calibrating p \<noteq> 0 \<Longrightarrow> calibrate srt p = p"
  by (simp add: calibrate_def)

text \<open>The invariant of the pool: all counters exist, the buffers in it are empty, and the sizes are zero until the first calibration.\<close>

definition pool_ok :: "Pool \<Rightarrow> bool" where
  "pool_ok p \<longleftrightarrow> length (bp_calls p) = steps \<and> (\<forall>b \<in> set (bp_pool p). bb_len b = 0) \<and> bp_calibrating p = bp_maxSize p
     \<and> (bp_maxSize p = 0 \<and> bp_byteSize p = 0 \<or> a_size (bp_byteSize p) \<and> a_size (bp_maxSize p) \<and> bp_byteSize p \<le> bp_maxSize p)"

lemma bytePool_ok: "pool_ok bytePool"
  by (simp add: pool_ok_def bytePool_def)

lemma calibrate_pool_ok: "sort_ok srt \<Longrightarrow> pool_ok p \<Longrightarrow> pool_ok (calibrate srt p)"
  using calibrate_result[of srt p] calibrate_again[of p srt] by (cases "bp_calibrating p = 0") (auto simp: pool_ok_def)

text \<open>The pool before a buffer is returned to it: the call is counted, and the threshold may start the calibration.\<close>

definition counted :: "(callSize list \<Rightarrow> callSize list) \<Rightarrow> ByteBuffer \<Rightarrow> Pool \<Rightarrow> Pool" where
  "counted srt b p =
     (let idx = index (int (bb_len b)); n = bp_calls p ! idx + 1; p1 = p\<lparr>bp_calls := (bp_calls p)[idx := n]\<rparr>
      in if n > calibrateCallsThreshold then calibrate srt p1 else p1)"

lemma Pool_Put_counted:
  "Pool_Put srt b p = (let p2 = counted srt b p
     in if bp_maxSize p2 = 0 \<or> bb_cap b \<le> unat (bp_maxSize p2) then p2\<lparr>bp_pool := buffer_Reset b # bp_pool p2\<rparr> else p2)"
  by (simp only: Pool_Put_def counted_def Let_def)

lemma counted_ok:
  assumes "sort_ok srt" "pool_ok p"
  shows "pool_ok (counted srt b p)"
proof -
  let ?p = "p\<lparr>bp_calls := (bp_calls p)[index (int (bb_len b)) := bp_calls p ! index (int (bb_len b)) + 1]\<rparr>"
  have "pool_ok ?p" using assms(2) by (simp add: pool_ok_def)
  then show ?thesis using calibrate_pool_ok[OF assms(1)] by (simp only: counted_def Let_def if_cancel split: if_split) blast
qed

lemma counted_settled:
  assumes "bp_calibrating p \<noteq> 0"
  shows "bp_maxSize (counted srt b p) = bp_maxSize p" "bp_byteSize (counted srt b p) = bp_byteSize p"
    "bp_calibrating (counted srt b p) = bp_calibrating p" "bp_pool (counted srt b p) = bp_pool p"
  using assms by (simp_all add: counted_def calibrate_def Let_def)

lemma Pool_Put_ok: "sort_ok srt \<Longrightarrow> pool_ok p \<Longrightarrow> pool_ok (Pool_Put srt b p)"
  using counted_ok[of srt p b] unfolding Pool_Put_counted Let_def by (auto simp: pool_ok_def buffer_Reset_def)

lemma Pool_Get_ok: "pool_ok p \<Longrightarrow> Pool_Get reuse p = (b, p1) \<Longrightarrow> pool_ok p1 \<and> bb_len b = 0"
  by (auto simp: Pool_Get_def pool_ok_def split: list.splits if_splits)

lemma pool_step_ok: "sort_ok srt \<Longrightarrow> pool_ok p \<Longrightarrow> pool_step srt op p = (r, p1) \<Longrightarrow> pool_ok p1 \<and> (\<forall>b. r = Some b \<longrightarrow> bb_len b = 0)"
  by (cases op) (auto simp: Pool_Put_ok dest: Pool_Get_ok split: prod.splits)

lemma pool_run_ok:
  "sort_ok srt \<Longrightarrow> pool_ok p \<Longrightarrow> pool_ok (snd (run_ops (pool_step srt) ops p)) \<and> (\<forall>b. Some b \<in> set (fst (run_ops (pool_step srt) ops p)) \<longrightarrow> bb_len b = 0)"
proof (induction ops arbitrary: p)
  case (Cons op ops)
  obtain r p1 where p1: "pool_step srt op p = (r, p1)" by force
  show ?case using pool_step_ok[OF Cons.prems p1] Cons.IH[of p1] Cons.prems(1) p1 by (auto simp: case_prod_unfold)
qed simp

text \<open>C27: Every buffer that \<open>Get\<close> hands out is empty, in every sequence of \<open>Get\<close> and \<open>Put\<close> on the pool, whatever buffers are put back; and the sizes the
  pool works with are zero before the first calibration and afterwards two of the twenty class sizes, from 64 bytes to 32 megabytes, with the
  size of a new buffer at most the largest size that is kept.\<close>

theorem pool_hands_out_empty_buffers:
  assumes "sort_ok srt"
  shows "case run_ops (pool_step srt) ops bytePool of (rs, p) \<Rightarrow>
     (\<forall>b. Some b \<in> set rs \<longrightarrow> buffer_Bytes b = [])
     \<and> (bp_maxSize p = 0 \<and> bp_byteSize p = 0
        \<or> 64 \<le> unat (bp_byteSize p) \<and> unat (bp_byteSize p) \<le> unat (bp_maxSize p) \<and> unat (bp_maxSize p) \<le> 2 ^ 25)"
proof -
  obtain rs p where r: "run_ops (pool_step srt) ops bytePool = (rs, p)" by force
  have "pool_ok p" "\<forall>b. Some b \<in> set rs \<longrightarrow> bb_len b = 0" using pool_run_ok[OF assms bytePool_ok, of ops] r by auto
  then show ?thesis using a_size_unat[of "bp_byteSize p"] a_size_unat[of "bp_maxSize p"] unfolding r
    by (auto simp: pool_ok_def buffer_Bytes_def word_le_nat_alt)
qed

lemma insort_sort_ok: "sort_ok (sort_key (\<lambda>c. - uint (cs_calls c)))"
proof -
  have "sorted_wrt (\<lambda>c d. cs_calls d \<le> cs_calls c) (sort_key (\<lambda>c. - uint (cs_calls c)) a)" for a
    using sorted_sort_key[of "\<lambda>c. - uint (cs_calls c)" a] unfolding sorted_map
    by (rule sorted_wrt_mono_rel[rotated]) (simp add: word_le_def)
  then show ?thesis unfolding sort_ok_iff by (metis mset_sort)
qed

theorem pool_hands_out_empty_buffers_witness:
  "buffer_Bytes (the (fst (run_ops (pool_step (sort_key (\<lambda>c. - uint (cs_calls c)))) [PPut \<lparr>bb_array = [7, 8], bb_len = 2\<rparr>, PGet True] bytePool) ! 1)) = []"
proof -
  let ?srt = "sort_key (\<lambda>c. - uint (cs_calls c))" and ?ops = "[PPut \<lparr>bb_array = [7, 8], bb_len = 2\<rparr>, PGet True]"
  obtain b where b: "fst (run_ops (pool_step ?srt) ?ops bytePool) ! 1 = Some b" "length (fst (run_ops (pool_step ?srt) ?ops bytePool)) = 2"
    by (simp add: case_prod_unfold)
  then have "Some b \<in> set (fst (run_ops (pool_step ?srt) ?ops bytePool))" by (metis nth_mem one_less_numeral_iff semiring_norm(76))
  then show ?thesis using pool_hands_out_empty_buffers[OF insort_sort_ok, of ?ops] b(1) by (simp add: case_prod_unfold)
qed

text \<open>The pool is calibrated at most once: after the first calibration \<open>calibrating\<close> holds the maximal size and is never zero again, so the sizes stay
  what they are, whatever is put back later; and no buffer above the maximal size is added any more.\<close>

theorem calibrated_once:
  assumes "bp_calibrating p \<noteq> 0" "bp_calibrating p = bp_maxSize p"
  shows "case run_ops (pool_step srt) ops p of (rs, p1) \<Rightarrow>
     bp_byteSize p1 = bp_byteSize p \<and> bp_maxSize p1 = bp_maxSize p \<and> bp_calibrating p1 = bp_calibrating p
     \<and> (\<forall>b \<in> set (bp_pool p1). b \<in> set (bp_pool p) \<or> bb_cap b \<le> unat (bp_maxSize p))"
  using assms
proof (induction ops arbitrary: p)
  case (Cons op ops)
  obtain r p1 where p1: "pool_step srt op p = (r, p1)" by force
  have one: "bp_byteSize p1 = bp_byteSize p \<and> bp_maxSize p1 = bp_maxSize p \<and> bp_calibrating p1 = bp_calibrating p
     \<and> (\<forall>b \<in> set (bp_pool p1). b \<in> set (bp_pool p) \<or> bb_cap b \<le> unat (bp_maxSize p))"
  proof (cases op)
    case (PGet reuse)
    then show ?thesis using p1 by (auto simp: Pool_Get_def split: list.splits if_splits prod.splits)
  next
    case (PPut b)
    then have "p1 = Pool_Put srt b p" using p1 by simp
    moreover have "bp_maxSize p \<noteq> 0" using Cons.prems by simp
    ultimately show ?thesis using counted_settled[OF Cons.prems(1), of srt b]
      by (auto simp: Pool_Put_counted Let_def bb_cap_def buffer_Reset_def)
  qed
  show ?case using Cons.IH[of p1] one Cons.prems p1 by (auto simp: case_prod_unfold)
qed simp

theorem calibrated_once_witness:
  "bp_maxSize (snd (run_ops (pool_step id) [PPut \<lparr>bb_array = [7, 8], bb_len = 2\<rparr>] (bytePool\<lparr>bp_calibrating := 64, bp_maxSize := 64\<rparr>))) = 64"
  using calibrated_once[of "bytePool\<lparr>bp_calibrating := 64, bp_maxSize := 64\<rparr>" id "[PPut \<lparr>bb_array = [7, 8], bb_len = 2\<rparr>]"]
  by (simp add: case_prod_unfold)

text \<open>The first loop of \<open>calibrate\<close> overwrites the limit of the calls by a size, so that the outcome depends on the order of classes
  without calls.\<close>

definition mixed_calls :: Pool where
  "mixed_calls = bytePool\<lparr>bp_calls := [42001, 0, 0, 0, 0, 0, 0, 0, 0, 0, 0, 0, 0, 0, 0, 0, 0, 0, 0, 30000]\<rparr>"

lemma mixed_percentile: "max_percentile 72001 = 68400"
  by (simp add: max_percentile_def f64_round_def Let_def)

lemma mixed_sizes:
  "call_sizes mixed_calls = \<lparr>cs_calls = 42001, cs_size = 64\<rparr> # map (\<lambda>i. \<lparr>cs_calls = 0, cs_size = push_bit i 64\<rparr>) [1..<19] @ [\<lparr>cs_calls = 30000, cs_size = push_bit 19 64\<rparr>]"
  by (simp add: call_sizes_def mixed_calls_def steps_def minSize_def upt_rec)

lemma mixed_fields: "bp_calibrating mixed_calls = 0" "sum_list (bp_calls mixed_calls) = 72001"
  by (simp_all add: mixed_calls_def bytePool_def sum_list_replicate)

lemma mixed_sorted:
  "sort_key (\<lambda>c. - uint (cs_calls c)) (call_sizes mixed_calls)
     = \<lparr>cs_calls = 42001, cs_size = 64\<rparr> # \<lparr>cs_calls = 30000, cs_size = push_bit 19 64\<rparr> # map (\<lambda>i. \<lparr>cs_calls = 0, cs_size = push_bit i 64\<rparr>) [1..<19]"
  "sort_key (\<lambda>c. - uint (cs_calls c)) (rev (call_sizes mixed_calls))
     = \<lparr>cs_calls = 42001, cs_size = 64\<rparr> # \<lparr>cs_calls = 30000, cs_size = push_bit 19 64\<rparr> # rev (map (\<lambda>i. \<lparr>cs_calls = 0, cs_size = push_bit i 64\<rparr>) [1..<19])"
  by (simp_all add: mixed_sizes upt_rec)

theorem calibrate_depends_on_order:
  "bp_maxSize (calibrate (sort_key (\<lambda>c. - uint (cs_calls c))) mixed_calls) = 64
   \<and> bp_maxSize (calibrate (\<lambda>a. sort_key (\<lambda>c. - uint (cs_calls c)) (rev a)) mixed_calls) = 2 ^ 25"
  by (simp add: calibrate_def mixed_fields mixed_sorted mixed_percentile Let_def upt_rec)

end
