(* ===== verification/Pub_Loop.thy ===== *)
theory Pub_Loop
  imports Prelude
begin

text \<open>
  Publishing to a topic, \<^verbatim>\<open>consume/nsq.go\<close>: \<open>internalPubAsync\<close> offers a message to the channel of the topic and waits for its answer, and any
  number of goroutines run \<open>internalPubLoop\<close>.  A published message is an object, named by its number, whose channel \<open>Done\<close> is closed as the answer.  The parts
  of the source that are commented out, among them every use of \<open>mpubWaitingChan\<close> in the loop, are not modelled; neither is the deferred function
  of the loop, which is never reached.
\<close>

datatype pub_error = Pub_timeout

record PubInfo =
  pi_MsgBody :: string
  pi_StartPub :: int
  pi_Err :: "pub_error option"
  pi_Done :: bool

record Message =
  msg_ID :: "64 word"
  msg_TraceID :: "64 word"
  msg_Body :: string
  msg_Timestamp :: int

definition NewMessage :: "64 word \<Rightarrow> string \<Rightarrow> int \<Rightarrow> Message" where
  "NewMessage i body now = \<lparr>msg_ID = i, msg_TraceID = 0, msg_Body = body, msg_Timestamp = now\<rparr>"

text \<open>What a loop holds, and whether it waits in the inner \<open>select\<close>, which has no default case.\<close>

record pub_loop =
  l_messages :: "Message list"
  l_infos :: "nat list"
  l_parked :: bool

text \<open>The topic with its channel, of capacity \<open>t_cap\<close>; the failures counted for the topic and for the server; the objects; the loops.
  \<open>t_missed\<close> are the messages whose send took the default case, and \<open>t_imported\<close> those whose import was reported.\<close>

record Topic =
  t_chan :: "nat list"
  t_cap :: nat
  t_pubFailedCnt :: int
  t_serverPubFailedCnt :: int
  t_info :: "nat \<Rightarrow> PubInfo"
  t_next :: nat
  t_loops :: "nat \<Rightarrow> pub_loop"
  t_missed :: "nat list"
  t_imported :: "nat list"

definition maxBatchNum :: nat where "maxBatchNum = 0"
definition pubWaitTimeout :: int where "pubWaitTimeout = 3 * 1000000000"

definition PubFailed :: "Topic \<Rightarrow> int" where
  "PubFailed t = t_pubFailedCnt t"

definition IncrPubFailed :: "Topic \<Rightarrow> Topic" where
  "IncrPubFailed t = t\<lparr>t_pubFailedCnt := to_int64 (t_pubFailedCnt t + 1)\<rparr>"

definition incrServerPubFailed :: "Topic \<Rightarrow> Topic" where
  "incrServerPubFailed t = t\<lparr>t_serverPubFailedCnt := to_int64 (t_serverPubFailedCnt t + 1)\<rparr>"

definition close_Done :: "pub_error option \<Rightarrow> nat \<Rightarrow> Topic \<Rightarrow> Topic may_panic" where
  "close_Done err i t =
     (if pi_Done (t_info t i) then Inl (Panic ''close of closed channel'')
      else Inr (t\<lparr>t_info := (t_info t)(i := (t_info t i)\<lparr>pi_Err := err, pi_Done := True\<rparr>)\<rparr>))"

text \<open>A loop takes a message from the channel: it answers one that has waited too long, and keeps the others.  \<open>test\<close> is
  \<open>testPopQueueTimeout\<close>.\<close>

definition pop_info :: "int \<Rightarrow> int \<Rightarrow> nat \<Rightarrow> nat \<Rightarrow> Topic \<Rightarrow> Topic may_panic" where
  "pop_info now test k i t =
     (let info = t_info t i
      in if now - pi_StartPub info \<ge> pubWaitTimeout \<or> test = 1
         then close_Done (Some Pub_timeout) i (incrServerPubFailed (IncrPubFailed t))
         else let l = t_loops t k
              in Inr (t\<lparr>t_loops := (t_loops t)(k := l\<lparr>l_messages := l_messages l @ [NewMessage 0 (pi_MsgBody info) now], l_infos := l_infos l @ [i]\<rparr>)\<rparr>))"

text \<open>The default case of the outer \<open>select\<close> with messages: all of them are answered.\<close>

fun close_all :: "nat list \<Rightarrow> Topic \<Rightarrow> Topic may_panic" where
  "close_all [] t = Inr t"
| "close_all (i # is) t = bindp (close_Done None i t) (close_all is)"

definition commit :: "nat \<Rightarrow> Topic \<Rightarrow> Topic may_panic" where
  "commit k t =
     bindp (close_all (l_infos (t_loops t k)) t) (\<lambda>t1.
       Inr (t1\<lparr>t_imported := t_imported t1 @ l_infos (t_loops t k),
               t_loops := (t_loops t1)(k := (t_loops t1 k)\<lparr>l_messages := [], l_infos := []\<rparr>)\<rparr>))"

definition set_parked :: "nat \<Rightarrow> bool \<Rightarrow> Topic \<Rightarrow> Topic" where
  "set_parked k b t = t\<lparr>t_loops := (t_loops t)(k := (t_loops t k)\<lparr>l_parked := b\<rparr>)\<rparr>"

definition new_info :: "string \<Rightarrow> int \<Rightarrow> Topic \<Rightarrow> Topic" where
  "new_info body now t =
     t\<lparr>t_info := (t_info t)(t_next t := \<lparr>pi_MsgBody = body, pi_StartPub = now, pi_Err = None, pi_Done = False\<rparr>), t_next := t_next t + 1\<rparr>"

text \<open>The send of \<open>internalPubAsync\<close>, in a \<open>select\<close> with a default case, meets a loop that is parked, or finds room in the channel, or is given up;
  in each case the publisher goes on to wait for \<open>Done\<close>.  The publisher that meets a loop continues with what the loop does.\<close>

definition internalPubAsync :: "nat option \<Rightarrow> int \<Rightarrow> int \<Rightarrow> string \<Rightarrow> int \<Rightarrow> Topic \<Rightarrow> Topic may_panic" where
  "internalPubAsync met now test body start t =
     (let i = t_next t; t1 = new_info body start t
      in case met of
           Some k \<Rightarrow> pop_info now test k i (set_parked k False t1)
         | None \<Rightarrow> if length (t_chan t) < t_cap t then Inr (t1\<lparr>t_chan := t_chan t @ [i]\<rparr>) else Inr (t1\<lparr>t_missed := i # t_missed t\<rparr>))"

text \<open>One turn of the loop: it takes what the channel holds, unless it has more than \<open>maxBatchNum\<close> messages; otherwise it answers its messages, or parks
  when it has none.\<close>

definition internalPubLoop :: "int \<Rightarrow> int \<Rightarrow> nat \<Rightarrow> Topic \<Rightarrow> Topic may_panic" where
  "internalPubLoop now test k t =
     (let messages = l_messages (t_loops t k); infoChan = (if length messages > maxBatchNum then [] else t_chan t)
      in case infoChan of
           i # is \<Rightarrow> pop_info now test k i (t\<lparr>t_chan := is\<rparr>)
         | [] \<Rightarrow> if messages = [] then Inr (set_parked k True t) else commit k t)"

inductive pub_step :: "Topic \<Rightarrow> Topic may_panic \<Rightarrow> bool" where
  publish: "(case met of Some k \<Rightarrow> l_parked (t_loops t k) | None \<Rightarrow> \<forall>k. \<not> l_parked (t_loops t k)) \<Longrightarrow>
    pub_step t (internalPubAsync met now test body start t)"
| turn: "\<not> l_parked (t_loops t k) \<Longrightarrow> pub_step t (internalPubLoop now test k t)"

definition new_Topic :: "nat \<Rightarrow> Topic" where
  "new_Topic cap = \<lparr>t_chan = [], t_cap = cap, t_pubFailedCnt = 0, t_serverPubFailedCnt = 0,
     t_info = (\<lambda>_. \<lparr>pi_MsgBody = [], pi_StartPub = 0, pi_Err = None, pi_Done = False\<rparr>), t_next = 0,
     t_loops = (\<lambda>_. \<lparr>l_messages = [], l_infos = [], l_parked = False\<rparr>), t_missed = [], t_imported = []\<rparr>"

section \<open>The invariant\<close>

text \<open>Where a message is: in the channel, held by a loop, missed, or answered.\<close>

datatype place = InChan | Held nat | Missed | Answered

definition at :: "Topic \<Rightarrow> place \<Rightarrow> nat \<Rightarrow> bool" where
  "at t p i \<longleftrightarrow> (case p of
      InChan \<Rightarrow> i \<in> set (t_chan t) | Held k \<Rightarrow> i \<in> set (l_infos (t_loops t k)) | Missed \<Rightarrow> i \<in> set (t_missed t) | Answered \<Rightarrow> pi_Done (t_info t i))"

definition placed :: "Topic \<Rightarrow> bool" where
  "placed t \<longleftrightarrow> (\<forall>i p. at t p i \<longrightarrow> i < t_next t) \<and> (\<forall>i < t_next t. \<exists>!p. at t p i)"

definition loops_ok :: "Topic \<Rightarrow> bool" where
  "loops_ok t \<longleftrightarrow> distinct (t_chan t) \<and> (\<forall>k. let l = t_loops t k
     in length (l_messages l) = length (l_infos l) \<and> length (l_infos l) \<le> 1 \<and> (l_parked l \<longrightarrow> l_infos l = []))"

definition imported_ok :: "Topic \<Rightarrow> bool" where
  "imported_ok t \<longleftrightarrow> distinct (t_imported t) \<and> (\<forall>i. i \<in> set (t_imported t) \<longleftrightarrow> pi_Done (t_info t i) \<and> pi_Err (t_info t i) = None)"

definition pub_inv :: "Topic \<Rightarrow> bool" where
  "pub_inv t \<longleftrightarrow> placed t \<and> loops_ok t \<and> imported_ok t"

lemma at_simps:
  "at t InChan i \<longleftrightarrow> i \<in> set (t_chan t)" "at t (Held k) i \<longleftrightarrow> i \<in> set (l_infos (t_loops t k))" "at t Missed i \<longleftrightarrow> i \<in> set (t_missed t)"
  "at t Answered i \<longleftrightarrow> pi_Done (t_info t i)"
  by (simp_all add: at_def)

lemma at_all: "(\<forall>q j. at t' q j = P q j) \<longleftrightarrow> (\<forall>j. (j \<in> set (t_chan t')) = P InChan j \<and> (\<forall>k. (j \<in> set (l_infos (t_loops t' k))) = P (Held k) j)
    \<and> (j \<in> set (t_missed t')) = P Missed j \<and> pi_Done (t_info t' j) = P Answered j)"
proof
  assume "\<forall>j. (j \<in> set (t_chan t')) = P InChan j \<and> (\<forall>k. (j \<in> set (l_infos (t_loops t' k))) = P (Held k) j)
    \<and> (j \<in> set (t_missed t')) = P Missed j \<and> pi_Done (t_info t' j) = P Answered j"
  then have "at t' q j = P q j" for q j by (cases q) (simp_all add: at_simps)
  then show "\<forall>q j. at t' q j = P q j" by blast
qed (simp add: at_simps[symmetric])

text \<open>A step moves one message to another place.\<close>

lemma placed_move:
  assumes "placed t" "\<forall>j. j < t_next t' \<longleftrightarrow> j < t_next t \<or> j = i"
    and "\<forall>q j. at t' q j = (if j = i then q = p else at t q j)"
  shows "placed t'"
  using assms unfolding placed_def by (simp split: if_splits) (metis (full_types))

lemma placed_only: "placed t \<Longrightarrow> at t p i \<Longrightarrow> at t q i \<longleftrightarrow> q = p"
  unfolding placed_def by (metis (full_types))

lemma placed_new: "placed t \<Longrightarrow> \<not> at t p (t_next t)"
  unfolding placed_def by blast

lemma pop_info_cases:
  assumes "\<not> pi_Done (t_info t i)" "pop_info now test k i t = r"
  obtains "r = Inr (t\<lparr>t_info := (t_info t)(i := (t_info t i)\<lparr>pi_Err := Some Pub_timeout, pi_Done := True\<rparr>),
      t_pubFailedCnt := to_int64 (t_pubFailedCnt t + 1), t_serverPubFailedCnt := to_int64 (t_serverPubFailedCnt t + 1)\<rparr>)"
  | m where "r = Inr (t\<lparr>t_loops := (t_loops t)(k := (t_loops t k)\<lparr>l_messages := l_messages (t_loops t k) @ [m], l_infos := l_infos (t_loops t k) @ [i]\<rparr>)\<rparr>)"
  using assms unfolding pop_info_def Let_def close_Done_def IncrPubFailed_def incrServerPubFailed_def
  by (auto split: if_splits)

lemma commit_one:
  assumes "l_infos (t_loops t k) = [i]" "\<not> pi_Done (t_info t i)"
  shows "commit k t = Inr (t\<lparr>t_info := (t_info t)(i := (t_info t i)\<lparr>pi_Err := None, pi_Done := True\<rparr>), t_imported := t_imported t @ [i],
    t_loops := (t_loops t)(k := (t_loops t k)\<lparr>l_messages := [], l_infos := []\<rparr>)\<rparr>)"
  using assms by (simp add: commit_def close_Done_def)

text \<open>Where a message that is in the channel, or held, is not; and a message that does not exist yet is nowhere.\<close>

lemma placed_lt: "placed t \<Longrightarrow> at t p i \<Longrightarrow> i < t_next t"
  unfolding placed_def by blast

lemma loopsD:
  assumes "loops_ok t"
  shows "length (l_messages (t_loops t k)) = length (l_infos (t_loops t k))" "length (l_infos (t_loops t k)) \<le> 1"
    "l_parked (t_loops t k) \<Longrightarrow> l_infos (t_loops t k) = []"
  using assms by (simp_all add: loops_ok_def Let_def)

lemma in_chanD:
  assumes "placed t" "i \<in> set (t_chan t)"
  shows "i \<notin> set (l_infos (t_loops t k))" "i \<notin> set (t_missed t)" "\<not> pi_Done (t_info t i)" "i < t_next t"
  using placed_only[OF assms(1), of InChan i "Held k"] placed_only[OF assms(1), of InChan i Missed] placed_only[OF assms(1), of InChan i Answered]
    placed_lt[OF assms(1), of InChan i] assms(2)
  by (simp_all add: at_simps)

lemma heldD:
  assumes "placed t" "i \<in> set (l_infos (t_loops t k))"
  shows "i \<notin> set (t_chan t)" "i \<notin> set (t_missed t)" "\<not> pi_Done (t_info t i)" "i < t_next t" "k' \<noteq> k \<Longrightarrow> i \<notin> set (l_infos (t_loops t k'))"
  using placed_only[OF assms(1), of "Held k" i InChan] placed_only[OF assms(1), of "Held k" i Missed] placed_only[OF assms(1), of "Held k" i Answered]
    placed_only[OF assms(1), of "Held k" i "Held k'"] placed_lt[OF assms(1), of "Held k" i] assms(2)
  by (simp_all add: at_simps)

lemma newD:
  assumes "placed t"
  shows "t_next t \<notin> set (t_chan t)" "t_next t \<notin> set (t_missed t)" "\<not> pi_Done (t_info t (t_next t))" "t_next t \<notin> set (l_infos (t_loops t k))"
  using placed_new[OF assms, of InChan] placed_new[OF assms, of Missed] placed_new[OF assms, of Answered] placed_new[OF assms, of "Held k"]
  by (simp_all add: at_simps)

lemma send_met_ok:
  assumes "pub_inv t" "l_parked (t_loops t k)"
  shows "\<exists>t'. pop_info now test k (t_next t) (set_parked k False (new_info body start t)) = Inr t' \<and> pub_inv t'"
proof -
  let ?i = "t_next t" and ?t = "set_parked k False (new_info body start t)"
  have inv: "placed t" "loops_ok t" "imported_ok t" using assms(1) by (simp_all add: pub_inv_def)
  note new = newD[OF inv(1)]
  have empty: "l_infos (t_loops t k) = []" "l_messages (t_loops t k) = []" using loopsD[OF inv(2), of k] assms(2) by simp_all
  have nd: "\<not> pi_Done (t_info ?t ?i)" by (simp add: set_parked_def new_info_def)
  show ?thesis
  proof (rule pop_info_cases[OF nd refl[of "pop_info now test k ?i ?t"]])
    let ?r = "?t\<lparr>t_info := (t_info ?t)(?i := (t_info ?t ?i)\<lparr>pi_Err := Some Pub_timeout, pi_Done := True\<rparr>),
      t_pubFailedCnt := to_int64 (t_pubFailedCnt ?t + 1), t_serverPubFailedCnt := to_int64 (t_serverPubFailedCnt ?t + 1)\<rparr>"
    assume 1: "pop_info now test k ?i ?t = Inr ?r"
    have "placed ?r"
      by (rule placed_move[OF inv(1), of _ ?i Answered], unfold at_all) (use new in \<open>auto simp: set_parked_def new_info_def at_simps\<close>)
    moreover have "loops_ok ?r" using inv(2) by (auto simp: loops_ok_def set_parked_def new_info_def Let_def)
    moreover have "imported_ok ?r" using inv(3) new by (auto simp: imported_ok_def set_parked_def new_info_def)
    ultimately show ?thesis using 1 unfolding pub_inv_def by blast
  next
    fix m
    let ?r = "?t\<lparr>t_loops := (t_loops ?t)(k := (t_loops ?t k)\<lparr>l_messages := l_messages (t_loops ?t k) @ [m], l_infos := l_infos (t_loops ?t k) @ [?i]\<rparr>)\<rparr>"
    assume 2: "pop_info now test k ?i ?t = Inr ?r"
    have "placed ?r"
      by (rule placed_move[OF inv(1), of _ ?i "Held k"], unfold at_all) (use new empty in \<open>auto simp: set_parked_def new_info_def at_simps\<close>)
    moreover have "loops_ok ?r" using inv(2) empty by (auto simp: loops_ok_def set_parked_def new_info_def Let_def)
    moreover have "imported_ok ?r" using inv(3) new by (auto simp: imported_ok_def set_parked_def new_info_def)
    ultimately show ?thesis using 2 unfolding pub_inv_def by blast
  qed
qed

lemma loop_take_ok:
  assumes "pub_inv t" "\<not> l_parked (t_loops t k)" "length (l_messages (t_loops t k)) \<le> maxBatchNum" "t_chan t = i # is"
  shows "\<exists>t'. pop_info now test k i (t\<lparr>t_chan := is\<rparr>) = Inr t' \<and> pub_inv t'"
proof -
  let ?t = "t\<lparr>t_chan := is\<rparr>"
  have inv: "placed t" "loops_ok t" "imported_ok t" using assms(1) by (simp_all add: pub_inv_def)
  have mem: "i \<in> set (t_chan t)" using assms(4) by simp
  note i = in_chanD[OF inv(1) mem]
  have empty: "l_infos (t_loops t k) = []" "l_messages (t_loops t k) = []" using loopsD[OF inv(2), of k] assms(3) by (simp_all add: maxBatchNum_def)
  have rest: "i \<notin> set is" "distinct is" using inv(2) assms(4) by (auto simp: loops_ok_def)
  have nd: "\<not> pi_Done (t_info ?t i)" using i by simp
  show ?thesis
  proof (rule pop_info_cases[OF nd refl[of "pop_info now test k i ?t"]])
    let ?r = "?t\<lparr>t_info := (t_info ?t)(i := (t_info ?t i)\<lparr>pi_Err := Some Pub_timeout, pi_Done := True\<rparr>),
      t_pubFailedCnt := to_int64 (t_pubFailedCnt ?t + 1), t_serverPubFailedCnt := to_int64 (t_serverPubFailedCnt ?t + 1)\<rparr>"
    assume 1: "pop_info now test k i ?t = Inr ?r"
    have "placed ?r"
      by (rule placed_move[OF inv(1), of _ i Answered], unfold at_all) (use i rest assms(4) in \<open>auto simp: at_simps\<close>)
    moreover have "loops_ok ?r" using inv(2) rest by (auto simp: loops_ok_def Let_def)
    moreover have "imported_ok ?r" using inv(3) i by (auto simp: imported_ok_def)
    ultimately show ?thesis using 1 unfolding pub_inv_def by blast
  next
    fix m
    let ?r = "?t\<lparr>t_loops := (t_loops ?t)(k := (t_loops ?t k)\<lparr>l_messages := l_messages (t_loops ?t k) @ [m], l_infos := l_infos (t_loops ?t k) @ [i]\<rparr>)\<rparr>"
    assume 2: "pop_info now test k i ?t = Inr ?r"
    have "placed ?r"
      by (rule placed_move[OF inv(1), of _ i "Held k"], unfold at_all) (use i rest empty assms(4) in \<open>auto simp: at_simps\<close>)
    moreover have "loops_ok ?r" using inv(2) rest empty assms(2) by (auto simp: loops_ok_def Let_def)
    moreover have "imported_ok ?r" using inv(3) by (auto simp: imported_ok_def)
    ultimately show ?thesis using 2 unfolding pub_inv_def by blast
  qed
qed

lemma commit_ok:
  assumes "pub_inv t" "l_messages (t_loops t k) \<noteq> []"
  shows "\<exists>t'. commit k t = Inr t' \<and> pub_inv t'"
proof -
  have inv: "placed t" "loops_ok t" "imported_ok t" using assms(1) by (simp_all add: pub_inv_def)
  have "length (l_infos (t_loops t k)) = 1" using loopsD(1,2)[OF inv(2), of k] assms(2) by (cases "l_messages (t_loops t k)") auto
  then obtain i where i: "l_infos (t_loops t k) = [i]" by (auto simp: length_Suc_conv)
  then have mem: "i \<in> set (l_infos (t_loops t k))" by simp
  note h = heldD[OF inv(1) mem]
  let ?r = "t\<lparr>t_info := (t_info t)(i := (t_info t i)\<lparr>pi_Err := None, pi_Done := True\<rparr>), t_imported := t_imported t @ [i],
    t_loops := (t_loops t)(k := (t_loops t k)\<lparr>l_messages := [], l_infos := []\<rparr>)\<rparr>"
  have "placed ?r"
    by (rule placed_move[OF inv(1), of _ i Answered], unfold at_all) (use h i in \<open>auto simp: at_simps\<close>)
  moreover have "loops_ok ?r" using inv(2) by (auto simp: loops_ok_def Let_def)
  moreover have "imported_ok ?r" using inv(3) h(3) by (auto simp: imported_ok_def)
  ultimately show ?thesis using commit_one[OF i h(3)] by (simp add: pub_inv_def)
qed

lemma send_buffered_ok:
  assumes "pub_inv t"
  shows "pub_inv ((new_info body start t)\<lparr>t_chan := t_chan t @ [t_next t]\<rparr>)" (is "pub_inv ?r")
proof -
  have inv: "placed t" "loops_ok t" "imported_ok t" using assms by (simp_all add: pub_inv_def)
  have "placed ?r"
    by (rule placed_move[OF inv(1), of _ "t_next t" InChan], unfold at_all) (use newD[OF inv(1)] in \<open>auto simp: at_simps new_info_def\<close>)
  moreover have "loops_ok ?r" using inv(2) newD[OF inv(1)] by (auto simp: loops_ok_def Let_def new_info_def)
  moreover have "imported_ok ?r" using inv(3) newD[OF inv(1)] by (auto simp: imported_ok_def new_info_def)
  ultimately show ?thesis by (simp add: pub_inv_def)
qed

lemma send_default_ok:
  assumes "pub_inv t"
  shows "pub_inv ((new_info body start t)\<lparr>t_missed := t_next t # t_missed t\<rparr>)" (is "pub_inv ?r")
proof -
  have inv: "placed t" "loops_ok t" "imported_ok t" using assms by (simp_all add: pub_inv_def)
  have "placed ?r"
    by (rule placed_move[OF inv(1), of _ "t_next t" Missed], unfold at_all) (use newD[OF inv(1)] in \<open>auto simp: at_simps new_info_def\<close>)
  moreover have "loops_ok ?r" using inv(2) by (auto simp: loops_ok_def Let_def new_info_def)
  moreover have "imported_ok ?r" using inv(3) newD[OF inv(1)] by (auto simp: imported_ok_def new_info_def)
  ultimately show ?thesis by (simp add: pub_inv_def)
qed

lemma park_ok:
  assumes "pub_inv t" "l_messages (t_loops t k) = []"
  shows "pub_inv (set_parked k True t)"
proof -
  have inv: "placed t" "loops_ok t" "imported_ok t" using assms(1) by (simp_all add: pub_inv_def)
  have "at (set_parked k True t) p i = at t p i" for p i by (cases p) (auto simp: at_simps set_parked_def)
  then have "placed (set_parked k True t)" using inv(1) by (simp add: placed_def set_parked_def)
  moreover have "loops_ok (set_parked k True t)"
    using inv(2) assms(2) loopsD[OF inv(2), of k] by (simp add: loops_ok_def Let_def set_parked_def)
  moreover have "imported_ok (set_parked k True t)" using inv(3) by (simp add: imported_ok_def set_parked_def)
  ultimately show ?thesis by (simp add: pub_inv_def)
qed

lemma pub_step_ok:
  assumes "pub_step t r" "pub_inv t"
  shows "\<exists>t'. r = Inr t' \<and> pub_inv t'"
  using assms(1)
proof cases
  case (publish met now test body start)
  then show ?thesis
    using send_met_ok[OF assms(2)] send_buffered_ok[OF assms(2)] send_default_ok[OF assms(2)]
    by (cases met) (simp_all add: internalPubAsync_def Let_def)
next
  case (turn k now test)
  show ?thesis
  proof (cases "length (l_messages (t_loops t k)) > maxBatchNum \<or> t_chan t = []")
    case True
    then have "r = (if l_messages (t_loops t k) = [] then Inr (set_parked k True t) else commit k t)"
      using turn(1) by (auto simp: internalPubLoop_def Let_def)
    then show ?thesis using park_ok[OF assms(2)] commit_ok[OF assms(2)] by simp
  next
    case False
    then obtain i "is" where "t_chan t = i # is" by (cases "t_chan t") auto
    then show ?thesis using loop_take_ok[OF assms(2) turn(2)] False turn(1) by (simp add: internalPubLoop_def Let_def)
  qed
qed

interpretation pub: panics_only pub_step pub_inv "\<lambda>_ _. False"
  by unfold_locales (use pub_step_ok in fastforce)

lemma new_Topic_inv: "pub_inv (new_Topic cap)"
  by (auto simp: pub_inv_def placed_def loops_ok_def imported_ok_def new_Topic_def at_def split: place.splits)

section \<open>Properties\<close>

text \<open>C29: Every message is answered at most once: with any number of loops and any interleaving, no \<open>Done\<close> channel is closed twice, so no loop panics; a message
  is at any time in exactly one place, in the channel, held by one loop, missed, or answered; it is answered without an error exactly when its
  import was reported, once; and a loop never holds more than one message.\<close>

theorem published_once:
  assumes "reach pub_step (new_Topic cap) t"
  shows "(\<forall>e. \<not> pub_step t (Inl e)) \<and> (\<forall>i < t_next t. \<exists>!p. at t p i) \<and> distinct (t_imported t)
     \<and> (\<forall>i. i \<in> set (t_imported t) \<longleftrightarrow> pi_Done (t_info t i) \<and> pi_Err (t_info t i) = None)
     \<and> (\<forall>k. length (l_messages (t_loops t k)) \<le> 1)"
proof -
  have inv: "pub_inv t" by (rule pub.steps_keep[OF assms new_Topic_inv])
  have "\<not> pub_step t (Inl e)" for e using pub.reached_panic[OF assms new_Topic_inv] by blast
  moreover have "length (l_messages (t_loops t k)) \<le> 1" for k using inv loopsD[of t k] by (simp add: pub_inv_def)
  ultimately show ?thesis using inv by (simp add: pub_inv_def placed_def imported_ok_def)
qed

lemma close_all_missed: "close_all is t = Inr t' \<Longrightarrow> t_missed t' = t_missed t"
  by (induction "is" arbitrary: t) (auto simp: close_Done_def split: if_splits)

lemma commit_missed: "Inr t' = commit k t \<Longrightarrow> t_missed t' = t_missed t"
  by (auto simp: commit_def dest!: close_all_missed sym[of "Inr t'"])

lemma pop_missed: "Inr t' = pop_info now test k i t \<Longrightarrow> t_missed t' = t_missed t"
  by (auto simp: pop_info_def close_Done_def IncrPubFailed_def incrServerPubFailed_def Let_def split: if_splits)

lemma missed_grows: "pub_step t (Inr t') \<Longrightarrow> set (t_missed t) \<subseteq> set (t_missed t')"
  by (cases rule: pub_step.cases)
    (auto simp: internalPubAsync_def internalPubLoop_def set_parked_def new_info_def Let_def dest!: pop_missed commit_missed
      split: option.splits list.splits if_splits)

lemma missed_stays: "reach pub_step t t' \<Longrightarrow> set (t_missed t) \<subseteq> set (t_missed t')"
  by (induction rule: rtranclp_induct) (use missed_grows in blast)+


text \<open>A publisher whose send finds the channel full and no loop parked is never answered: its message is nowhere, and in no later state is its \<open>Done\<close>
  closed, so \<open>internalPubAsync\<close> waits for ever.\<close>

theorem missed_publisher_waits_forever:
  assumes "reach pub_step (new_Topic cap) t" "\<forall>k. \<not> l_parked (t_loops t k)" "cap \<le> length (t_chan t)" "t_cap t = cap"
  shows "\<exists>t1. pub_step t (Inr t1) \<and> (\<forall>t2. reach pub_step t1 t2 \<longrightarrow> \<not> pi_Done (t_info t2 (t_next t)))"
proof -
  let ?t = "(new_info [] 0 t)\<lparr>t_missed := t_next t # t_missed t\<rparr>"
  have step: "pub_step t (Inr ?t)" using publish[where met = None and t = t and body = "[]" and start = 0 and now = 0 and test = 0] assms by (simp add: internalPubAsync_def Let_def)
  have "\<not> pi_Done (t_info t2 (t_next t))" if "reach pub_step ?t t2" for t2
  proof -
    have "reach pub_step (new_Topic cap) t2" by (rule rtranclp_trans[OF reach_step[OF assms(1) step] that])
    then have "placed t2" using pub.steps_keep[OF _ new_Topic_inv] by (simp add: pub_inv_def)
    moreover have "at t2 Missed (t_next t)" using missed_stays[OF that] by (auto simp: at_simps)
    ultimately show ?thesis using placed_only[of t2 Missed "t_next t" Answered] by (simp add: at_simps)
  qed
  with step show ?thesis by blast
qed

theorem missed_publisher_waits_forever_witness:
  "\<exists>t1. pub_step (new_Topic 0) (Inr t1) \<and> (\<forall>t2. reach pub_step t1 t2 \<longrightarrow> \<not> pi_Done (t_info t2 0))"
  using missed_publisher_waits_forever[OF rtranclp.rtrancl_refl, of 0] by (simp add: new_Topic_def)

text \<open>A run in which a loop parks, a publisher meets it, and the message is imported.\<close>

lemma example_run:
  "\<exists>t. reach pub_step (new_Topic 0) t \<and> t_imported t = [0] \<and> t_next t = 1"
proof -
  let ?t1 = "set_parked 0 True (new_Topic 0)"
  let ?i = "\<lparr>pi_MsgBody = ''hello'', pi_StartPub = 7, pi_Err = None, pi_Done = False\<rparr>"
  let ?t2 = "(new_Topic 0)\<lparr>t_info := (t_info (new_Topic 0))(0 := ?i), t_next := 1,
      t_loops := (t_loops (new_Topic 0))(0 := \<lparr>l_messages = [NewMessage 0 ''hello'' 8], l_infos = [0], l_parked = False\<rparr>)\<rparr>"
  let ?t3 = "?t2\<lparr>t_info := (t_info ?t2)(0 := (t_info ?t2 0)\<lparr>pi_Err := None, pi_Done := True\<rparr>), t_imported := t_imported ?t2 @ [0],
      t_loops := (t_loops ?t2)(0 := (t_loops ?t2 0)\<lparr>l_messages := [], l_infos := []\<rparr>)\<rparr>"
  have "pub_step (new_Topic 0) (Inr ?t1)" using turn[of "new_Topic 0" 0 0 0] by (simp add: internalPubLoop_def new_Topic_def)
  moreover have "pop_info 8 0 0 (t_next ?t1) (set_parked 0 False (new_info ''hello'' 7 ?t1)) = Inr ?t2"
    by (simp add: pop_info_def set_parked_def new_info_def new_Topic_def pubWaitTimeout_def Let_def)
  then have "pub_step ?t1 (Inr ?t2)" using publish[where met = "Some 0" and t = ?t1 and now = 8 and test = 0 and body = "''hello''" and start = 7] by (simp add: internalPubAsync_def set_parked_def)
  moreover have "commit 0 ?t2 = Inr ?t3" by (rule commit_one) simp_all
  then have "pub_step ?t2 (Inr ?t3)" using turn[of ?t2 0 0 0] by (simp add: internalPubLoop_def maxBatchNum_def new_Topic_def)
  ultimately have "reach pub_step (new_Topic 0) ?t3" by (rule reach_three)
  then show ?thesis by (intro exI[of _ ?t3]) (simp add: new_Topic_def)
qed

theorem published_once_witness:
  "\<exists>t. t_imported t = [0] \<and> (\<exists>!p. at t p 0) \<and> pi_Done (t_info t 0)"
proof -
  obtain t where "reach pub_step (new_Topic 0) t" "t_imported t = [0]" "t_next t = 1" using example_run by blast
  then show ?thesis using published_once[of 0 t] by (intro exI[of _ t]) auto
qed

end
