(* ===== verification/Rate_Limiter.thy ===== *)
theory Rate_Limiter
  imports Prelude
begin

text \<open>
  The rate limiter of \<^verbatim>\<open>service/koala.go\<close>.  The Redis client is not part of the repository: the calls the limiter makes are the fields of a record, which is an
  argument of every operation.  Times are seconds (nanoseconds for the sorted set), and the server is taken to have the clock of the client.  What is proved
  of a sequence of calls rests on the documented behaviour of the list commands, stated as \<open>redis_lists\<close>.
\<close>

section \<open>The operations\<close>

datatype redis_error = Redis_Nil | Redis_Error string

record rule =
  ru_ttl :: int
  ru_count :: int

text \<open>Each command gets the time at which the server runs it and its state; a command that writes yields the next state.\<close>

record 'r redis =
  rd_Get :: "int \<Rightarrow> string \<Rightarrow> 'r \<Rightarrow> redis_error + int"
  rd_PTTL :: "int \<Rightarrow> string \<Rightarrow> 'r \<Rightarrow> redis_error + int"
  rd_Set :: "int \<Rightarrow> string \<Rightarrow> int \<Rightarrow> int \<Rightarrow> 'r \<Rightarrow> redis_error option \<times> 'r"
  rd_Incr :: "int \<Rightarrow> string \<Rightarrow> 'r \<Rightarrow> redis_error option \<times> 'r"
  rd_LLen :: "int \<Rightarrow> string \<Rightarrow> 'r \<Rightarrow> redis_error + int"
  rd_LIndex :: "int \<Rightarrow> string \<Rightarrow> int \<Rightarrow> 'r \<Rightarrow> redis_error + int"
  rd_LPush :: "int \<Rightarrow> string \<Rightarrow> int \<Rightarrow> 'r \<Rightarrow> redis_error option \<times> 'r"
  rd_RPop :: "int \<Rightarrow> string \<Rightarrow> 'r \<Rightarrow> 'r"
  rd_Expire :: "int \<Rightarrow> string \<Rightarrow> int \<Rightarrow> 'r \<Rightarrow> redis_error option \<times> 'r"
  rd_ZCount :: "int \<Rightarrow> string \<Rightarrow> int \<Rightarrow> int \<Rightarrow> 'r \<Rightarrow> redis_error + int"
  rd_ZAdd :: "int \<Rightarrow> string \<Rightarrow> int \<Rightarrow> int \<Rightarrow> 'r \<Rightarrow> redis_error option \<times> 'r"
  rd_ZRemRangeByScore :: "int \<Rightarrow> string \<Rightarrow> int \<Rightarrow> int \<Rightarrow> 'r \<Rightarrow> 'r"

text \<open>\<open>CountBrowse\<close>: another error than \<open>redis.Nil\<close> leaves the number zero.\<close>

definition CountBrowse :: "'r redis \<Rightarrow> rule \<Rightarrow> int \<Rightarrow> string \<Rightarrow> 'r \<Rightarrow> bool" where
  "CountBrowse R this now key r =
     (case rd_Get R now key r of
        Inl Redis_Nil \<Rightarrow> False
      | Inl _ \<Rightarrow> \<not> (ru_count this = 0 \<or> 0 < ru_count this)
      | Inr cnt \<Rightarrow> \<not> (ru_count this = 0 \<or> cnt < ru_count this))"

definition CountUpdate :: "'r redis \<Rightarrow> rule \<Rightarrow> int \<Rightarrow> string \<Rightarrow> 'r \<Rightarrow> redis_error option \<times> 'r" where
  "CountUpdate R this now key r =
     (case rd_PTTL R now key r of
        Inl e \<Rightarrow> (Some e, r)
      | Inr ttl \<Rightarrow> if ttl \<le> 0 then rd_Set R now key 1 (ru_ttl this) r else rd_Incr R now key r)"

text \<open>\<open>LeakListBrowse\<close>: whether the call is over the limit, or the error; and how often the goroutine it leaves behind calls \<open>RPop\<close>.\<close>

definition LeakListBrowse :: "'r redis \<Rightarrow> rule \<Rightarrow> int \<Rightarrow> string \<Rightarrow> 'r \<Rightarrow> (redis_error + bool) \<times> nat" where
  "LeakListBrowse R this now key r =
     (case rd_LLen R now key r of
        Inl e \<Rightarrow> (Inl e, 0)
      | Inr lstlen \<Rightarrow>
          if lstlen = 0 \<or> lstlen < ru_count this then (Inr False, 0)
          else let pops = nat (lstlen - (ru_count this + 1))
               in case rd_LIndex R now key (ru_count this - 1) r of
                    Inl e \<Rightarrow> (Inl e, pops)
                  | Inr cts \<Rightarrow> (Inr (now - cts < ru_ttl this), pops))"

text \<open>The loop of that goroutine.\<close>

fun list_trim :: "'r redis \<Rightarrow> int \<Rightarrow> string \<Rightarrow> nat \<Rightarrow> 'r \<Rightarrow> 'r" where
  "list_trim R now key 0 r = r"
| "list_trim R now key (Suc n) r = list_trim R now key n (rd_RPop R now key r)"

definition LeakListUpdate :: "'r redis \<Rightarrow> rule \<Rightarrow> int \<Rightarrow> string \<Rightarrow> 'r \<Rightarrow> redis_error option \<times> 'r" where
  "LeakListUpdate R this now key r =
     (case rd_LPush R now key now r of
        (Some e, r1) \<Rightarrow> (Some e, r1)
      | (None, r1) \<Rightarrow> rd_Expire R now key (2 * ru_ttl this) r1)"

text \<open>The sorted set, with times in nanoseconds; the state includes the deferred removal of old elements.\<close>

definition LeakZsetBrowse :: "'r redis \<Rightarrow> rule \<Rightarrow> int \<Rightarrow> string \<Rightarrow> 'r \<Rightarrow> (redis_error + bool) \<times> 'r" where
  "LeakZsetBrowse R this now key r =
     (let from = now - ru_ttl this * 1000000000 + 1000000000;
          r1 = rd_ZRemRangeByScore R now key 0 from r
      in case rd_ZCount R now key from now r of
           Inl e \<Rightarrow> (Inl e, r1)
         | Inr zsetlen \<Rightarrow> (Inr (zsetlen \<ge> ru_count this), r1))"

definition LeakZsetUpdate :: "'r redis \<Rightarrow> rule \<Rightarrow> int \<Rightarrow> string \<Rightarrow> 'r \<Rightarrow> redis_error option \<times> 'r" where
  "LeakZsetUpdate R this now key r =
     (case rd_ZAdd R now key now now r of
        (Some e, r1) \<Rightarrow> (Some e, r1)
      | (None, r1) \<Rightarrow> rd_Expire R now key (2 * ru_ttl this) r1)"

section \<open>The list commands\<close>

text \<open>A list with its deadline; it is empty from the deadline on.\<close>

definition visible :: "int \<Rightarrow> int list \<times> int option \<Rightarrow> int list" where
  "visible now x = (case snd x of None \<Rightarrow> fst x | Some d \<Rightarrow> if now < d then fst x else [])"

text \<open>What the documentation of Redis says of the commands, for a server whose lists are \<open>items\<close>: a command may fail, and then has no effect; \<open>LPUSH\<close> prepends
  and keeps the deadline of a list that exists; \<open>RPOP\<close> removes the last element; \<open>EXPIRE\<close> sets the deadline of a list that exists; other keys are not
  touched.\<close>

definition redis_lists :: "'r redis \<Rightarrow> ('r \<Rightarrow> string \<Rightarrow> int list \<times> int option) \<Rightarrow> bool" where
  "redis_lists R items \<longleftrightarrow>
     (\<forall>now key r n. rd_LLen R now key r = Inr n \<longrightarrow> n = int (length (visible now (items r key))))
   \<and> (\<forall>now key i r x. rd_LIndex R now key i r = Inr x \<longrightarrow> 0 \<le> i \<longrightarrow> i < int (length (visible now (items r key))) \<longrightarrow> x = visible now (items r key) ! nat i)
   \<and> (\<forall>now key v r e r1. rd_LPush R now key v r = (Some e, r1) \<longrightarrow> r1 = r)
   \<and> (\<forall>now key v r r1. rd_LPush R now key v r = (None, r1) \<longrightarrow>
        items r1 = (items r)(key := (v # visible now (items r key), if visible now (items r key) = [] then None else snd (items r key))))
   \<and> (\<forall>now key r. items (rd_RPop R now key r) = (items r)(key := (butlast (visible now (items r key)), snd (items r key))))
   \<and> (\<forall>now key d r e r1. rd_Expire R now key d r = (Some e, r1) \<longrightarrow> r1 = r)
   \<and> (\<forall>now key d r r1. rd_Expire R now key d r = (None, r1) \<longrightarrow>
        items r1 = (items r)(key := (visible now (items r key), if visible now (items r key) = [] then snd (items r key) else Some (now + d))))"

section \<open>A client of the limiter\<close>

text \<open>A request at a time: it is looked up, the list is trimmed, and when it is not over the limit it is recorded; it is admitted when that succeeds.  The
  client keeps the times of the admitted requests.\<close>

definition request :: "'r redis \<Rightarrow> rule \<Rightarrow> string \<Rightarrow> int \<Rightarrow> int list \<times> 'r \<Rightarrow> int list \<times> 'r" where
  "request R this key now s =
     (case s of (admitted, r) \<Rightarrow>
        case LeakListBrowse R this now key r of
          (Inl e, pops) \<Rightarrow> (admitted, list_trim R now key pops r)
        | (Inr True, pops) \<Rightarrow> (admitted, list_trim R now key pops r)
        | (Inr False, pops) \<Rightarrow>
            case LeakListUpdate R this now key (list_trim R now key pops r) of
              (None, r1) \<Rightarrow> (now # admitted, r1)
            | (Some e, r1) \<Rightarrow> (admitted, r1))"

fun requests :: "'r redis \<Rightarrow> rule \<Rightarrow> string \<Rightarrow> int list \<Rightarrow> int list \<times> 'r \<Rightarrow> int list \<times> 'r" where
  "requests R this key [] s = s"
| "requests R this key (now # ts) s = requests R this key ts (request R this key now s)"

definition recent :: "rule \<Rightarrow> int \<Rightarrow> int list \<Rightarrow> nat" where
  "recent this t xs = length (filter (\<lambda>a. t - a < ru_ttl this) xs)"

text \<open>The invariant of one key: the list is ordered, latest first; counted from any later time, the list shows as many recent requests as were
  admitted, or at least the limit; and no window has more admitted requests than the limit.\<close>

definition covers :: "rule \<Rightarrow> int \<Rightarrow> int list \<Rightarrow> int list \<times> int option \<Rightarrow> bool" where
  "covers this now A x \<longleftrightarrow>
     (\<forall>t \<ge> now. recent this t A \<le> recent this t (visible t x) \<or> nat (ru_count this) \<le> recent this t (visible t x))"

definition within_limit :: "rule \<Rightarrow> int list \<Rightarrow> bool" where
  "within_limit this A \<longleftrightarrow> (\<forall>t. length (filter (\<lambda>a. t - ru_ttl this < a \<and> a \<le> t) A) \<le> nat (ru_count this))"

definition lim_inv :: "rule \<Rightarrow> int \<Rightarrow> int list \<Rightarrow> int list \<times> int option \<Rightarrow> bool" where
  "lim_inv this now A x \<longleftrightarrow> sorted_wrt (\<ge>) (fst x) \<and> (\<forall>y \<in> set (fst x). y \<le> now) \<and> (\<forall>a \<in> set A. a \<le> now)
     \<and> covers this now A x \<and> within_limit this A"

lemma recent_Cons: "recent this t (a # xs) = (if t - a < ru_ttl this then Suc (recent this t xs) else recent this t xs)"
  by (simp add: recent_def)

lemma recent_Nil [simp]: "recent this t [] = 0"
  by (simp add: recent_def)

lemma recent_none: "(\<forall>a \<in> set xs. ru_ttl this \<le> t - a) \<Longrightarrow> recent this t xs = 0"
  by (auto simp: recent_def filter_empty_conv)

lemma recent_le_length: "recent this t xs \<le> length xs"
  by (simp add: recent_def)

lemma recent_append: "recent this t (xs @ ys) = recent this t xs + recent this t ys"
  by (simp add: recent_def)

lemma recent_take: "sorted_wrt (\<ge>) xs \<Longrightarrow> recent this t (take m xs) = min m (recent this t xs)"
proof (induction xs arbitrary: m)
  case (Cons a xs)
  show ?case
  proof (cases "t - a < ru_ttl this")
    case True
    then show ?thesis using Cons by (cases m) (simp_all add: recent_Cons)
  next
    case False
    then have "recent this t (a # xs) = 0" "recent this t (take m (a # xs)) = 0"
      using Cons.prems by (intro recent_none; fastforce dest: in_set_takeD)+
    then show ?thesis by simp
  qed
qed simp

lemma recent_before:
  assumes "sorted_wrt (\<ge>) xs" "i < length xs" "\<not> t - xs ! i < ru_ttl this"
  shows "recent this t xs \<le> i"
proof -
  have "sorted_wrt (\<ge>) (xs ! i # drop (Suc i) xs)" unfolding Cons_nth_drop_Suc[OF assms(2)] by (rule sorted_wrt_drop[OF assms(1)])
  then have "\<forall>a \<in> set (drop i xs). a \<le> xs ! i" unfolding Cons_nth_drop_Suc[OF assms(2), symmetric] by auto
  then have "recent this t (drop i xs) = 0" using assms(3) by (intro recent_none) auto
  then show ?thesis using recent_append[of this t "take i xs" "drop i xs"] recent_le_length[of this t "take i xs"] assms(2) by simp
qed

lemma visible_later: "now \<le> t \<Longrightarrow> visible t x = visible now x \<or> visible t x = []"
  by (auto simp: visible_def split: option.splits)

lemma visible_again: "now \<le> t \<Longrightarrow> visible t (visible now x, snd x) = visible t x"
  by (auto simp: visible_def split: option.splits)

lemma visible_sorted:
  assumes "lim_inv this now A x"
  shows "sorted_wrt (\<ge>) (visible t x)" "\<forall>y \<in> set (visible t x). y \<le> now"
  using assms by (auto simp: lim_inv_def visible_def split: option.splits)

lemma lim_inv_later: "lim_inv this now A x \<Longrightarrow> now \<le> now' \<Longrightarrow> lim_inv this now' A x"
  by (force simp: lim_inv_def covers_def)

lemma redisD:
  assumes "redis_lists R items"
  shows redis_LLen: "rd_LLen R now key r = Inr n \<Longrightarrow> n = int (length (visible now (items r key)))"
    and redis_LIndex: "rd_LIndex R now key i r = Inr x \<Longrightarrow> 0 \<le> i \<Longrightarrow> i < int (length (visible now (items r key))) \<Longrightarrow> x = visible now (items r key) ! nat i"
    and redis_LPush_fail: "rd_LPush R now key v r = (Some e, r1) \<Longrightarrow> r1 = r"
    and redis_LPush: "rd_LPush R now key v r = (None, r1) \<Longrightarrow>
        items r1 = (items r)(key := (v # visible now (items r key), if visible now (items r key) = [] then None else snd (items r key)))"
    and redis_RPop: "items (rd_RPop R now key r) = (items r)(key := (butlast (visible now (items r key)), snd (items r key)))"
    and redis_Expire_fail: "rd_Expire R now key d r = (Some e, r1) \<Longrightarrow> r1 = r"
    and redis_Expire: "rd_Expire R now key d r = (None, r1) \<Longrightarrow>
        items r1 = (items r)(key := (visible now (items r key), if visible now (items r key) = [] then snd (items r key) else Some (now + d)))"
  using assms unfolding redis_lists_def by simp_all

lemma list_trim_items:
  assumes "redis_lists R items" "n \<le> length (visible now (items r key))"
  shows "items (list_trim R now key n r) = (if n = 0 then items r
     else (items r)(key := (take (length (visible now (items r key)) - n) (visible now (items r key)), snd (items r key))))"
  using assms(2)
proof (induction n arbitrary: r)
  case (Suc n)
  let ?r = "rd_RPop R now key r" and ?x = "visible now (items r key)"
  note pop = redis_RPop[OF assms(1), of now key r]
  have "?x \<noteq> []" using Suc.prems by auto
  then have v: "visible now (items ?r key) = butlast ?x" by (auto simp: pop visible_def split: option.splits if_splits)
  then have "n \<le> length (visible now (items ?r key))" using Suc.prems by simp
  from Suc.IH[OF this] show ?case
    using v pop by (cases n) (simp_all add: fun_eq_iff butlast_conv_take min_def)
qed simp

text \<open>Trimming to more than the limit, recording a time, and setting the deadline keep the invariant.\<close>

lemma trim_inv:
  assumes "lim_inv this now A x" "0 < ru_count this" "nat (ru_count this) \<le> m"
  shows "lim_inv this now A (take m (visible now x), snd x)"
proof -
  let ?x = "(take m (visible now x), snd x)"
  note v = visible_sorted[OF assms(1), of now]
  have "recent this t A \<le> recent this t (visible t ?x) \<or> nat (ru_count this) \<le> recent this t (visible t ?x)" if "now \<le> t" for t
  proof -
    have "visible t ?x = take m (visible t x)" using visible_later[OF that, of x] that by (auto simp: visible_def split: option.splits)
    moreover have "recent this t (take m (visible t x)) = min m (recent this t (visible t x))"
      by (rule recent_take[OF visible_sorted(1)[OF assms(1)]])
    moreover have "recent this t A \<le> recent this t (visible t x) \<or> nat (ru_count this) \<le> recent this t (visible t x)"
      using assms(1) that by (simp add: lim_inv_def covers_def)
    ultimately show ?thesis using assms(3) by (auto simp: min_def)
  qed
  then have "covers this now A ?x" by (simp add: covers_def)
  moreover have "sorted_wrt (\<ge>) (take m (visible now x))" by (rule sorted_wrt_take[OF v(1)])
  ultimately show ?thesis using assms(1) v(2) by (auto simp: lim_inv_def dest: in_set_takeD)
qed

lemma list_push_inv:
  assumes "lim_inv this now A x"
  shows "lim_inv this now A (now # visible now x, if visible now x = [] then None else snd x)" (is "lim_inv this now A ?x")
proof -
  note v = visible_sorted[OF assms, of now]
  have "recent this t A \<le> recent this t (visible t ?x) \<or> nat (ru_count this) \<le> recent this t (visible t ?x)" if "now \<le> t" for t
  proof -
    have "recent this t (visible t x) \<le> recent this t (visible t ?x)"
      using visible_later[OF that, of x] by (auto simp: visible_def recent_Cons split: option.splits if_splits)
    then show ?thesis using assms that unfolding lim_inv_def covers_def by (meson le_trans)
  qed
  then show ?thesis using assms v by (simp add: lim_inv_def covers_def)
qed

lemma within_limit_Cons:
  assumes "within_limit this A" "\<forall>a \<in> set A. a \<le> now" "recent this now A < nat (ru_count this)"
  shows "within_limit this (now # A)"
  unfolding within_limit_def
proof
  fix t
  show "length (filter (\<lambda>a. t - ru_ttl this < a \<and> a \<le> t) (now # A)) \<le> nat (ru_count this)"
  proof (cases "now \<le> t")
    case True
    have "length (filter (\<lambda>a. t - ru_ttl this < a \<and> a \<le> t) A) \<le> recent this now A"
      unfolding recent_def length_filter_conv_card by (rule card_mono) (use True in auto)
    then show ?thesis using assms(3) by simp
  next
    case False
    then show ?thesis using assms(1) by (simp add: within_limit_def)
  qed
qed

lemma admit_inv:
  assumes "lim_inv this now A (now # xs, d)" "recent this now A < nat (ru_count this)" "covers this now A (xs, d')" "0 < ru_ttl this"
  shows "lim_inv this now (now # A) (now # xs, Some (now + 2 * ru_ttl this))" (is "lim_inv this now ?A ?x")
proof -
  have le: "\<forall>a \<in> set ?A. a \<le> now" using assms(1) by (simp add: lim_inv_def)
  have "recent this t ?A \<le> recent this t (visible t ?x) \<or> nat (ru_count this) \<le> recent this t (visible t ?x)" if "now \<le> t" for t
  proof (cases "t < now + 2 * ru_ttl this")
    case True
    have "recent this t (visible t (xs, d')) \<le> recent this t xs" by (auto simp: visible_def split: option.splits)
    then have "recent this t A \<le> recent this t xs \<or> nat (ru_count this) \<le> recent this t xs"
      using assms(3) that unfolding covers_def by (meson le_trans)
    then show ?thesis using True by (auto simp: visible_def recent_Cons)
  next
    case False
    then have "recent this t ?A = 0" using le assms(4) by (intro recent_none) fastforce
    then show ?thesis by simp
  qed
  moreover have "within_limit this ?A" using assms(1,2) by (intro within_limit_Cons) (simp_all add: lim_inv_def)
  ultimately show ?thesis using assms(1) le by (simp add: lim_inv_def covers_def)
qed

lemma browse_facts:
  assumes "redis_lists R items" "LeakListBrowse R this now key r = (b, pops)" "0 < ru_count this"
  shows "items (list_trim R now key pops r) = (if pops = 0 then items r
       else (items r)(key := (take (nat (ru_count this) + 1) (visible now (items r key)), snd (items r key))))"
    and "sorted_wrt (\<ge>) (visible now (items r key)) \<Longrightarrow> b = Inr False \<Longrightarrow> recent this now (visible now (items r key)) < nat (ru_count this)"
proof -
  let ?x = "visible now (items r key)" and ?c = "ru_count this"
  have len: "n = int (length ?x)" if "rd_LLen R now key r = Inr n" for n using redis_LLen[OF assms(1) that] .
  have idx: "y = ?x ! nat i" if "rd_LIndex R now key i r = Inr y" "0 \<le> i" "i < int (length ?x)" for y i
    using redis_LIndex[OF assms(1) that] .
  have pops: "pops = 0 \<or> pops = length ?x - (nat ?c + 1) \<and> nat ?c + 1 \<le> length ?x"
    using assms(2,3) by (auto simp: LeakListBrowse_def Let_def dest!: len split: sum.splits if_splits)
  show "items (list_trim R now key pops r) = (if pops = 0 then items r
       else (items r)(key := (take (nat ?c + 1) ?x, snd (items r key))))"
    using pops list_trim_items[OF assms(1), of pops now r key] by auto
  assume sorted: "sorted_wrt (\<ge>) ?x" and "b = Inr False"
  then consider "int (length ?x) < ?c" | "?c \<le> int (length ?x)" "\<not> now - ?x ! nat (?c - 1) < ru_ttl this"
    using assms(2,3) by (auto simp: LeakListBrowse_def Let_def dest!: len dest: idx split: sum.splits if_splits)
  then show "recent this now ?x < nat ?c"
  proof cases
    case 1
    then show ?thesis using recent_le_length[of this now ?x] by linarith
  next
    case 2
    then have "recent this now ?x \<le> nat (?c - 1)" using assms(3) by (intro recent_before[OF sorted]) auto
    then show ?thesis using assms(3) by linarith
  qed
qed

lemma request_inv:
  assumes "redis_lists R items" "0 < ru_count this" "0 < ru_ttl this" "lim_inv this now A (items r key)" "request R this key now (A, r) = (A', r')"
  shows "lim_inv this now A' (items r' key)"
proof -
  obtain b pops where br: "LeakListBrowse R this now key r = (b, pops)" by force
  let ?r = "list_trim R now key pops r" and ?x = "items r key"
  let ?y = "items ?r key"
  note f = browse_facts[OF assms(1) br assms(2)]
  have trim: "lim_inv this now A ?y"
    using trim_inv[OF assms(4,2), of "nat (ru_count this) + 1"] assms(4) unfolding f(1) by simp
  show ?thesis
  proof (cases "b = Inr False")
    case False
    then have "A' = A" "r' = ?r" using assms(5) br by (auto simp: request_def split: sum.splits bool.splits)
    then show ?thesis using trim by simp
  next
    case True
    then have "recent this now (visible now ?x) < nat (ru_count this)" using f(2) visible_sorted(1)[OF assms(4)] by blast
    then have low: "recent this now A < nat (ru_count this)"
      using assms(4) unfolding lim_inv_def covers_def by (meson leD le_less_trans order_refl)
    obtain e1 r1 where push: "rd_LPush R now key now ?r = (e1, r1)" by force
    obtain e2 r2 where ex: "rd_Expire R now key (2 * ru_ttl this) r1 = (e2, r2)" by force
    have "LeakListUpdate R this now key ?r = (case e1 of Some e \<Rightarrow> (Some e, r1) | None \<Rightarrow> (e2, r2))"
      by (simp add: LeakListUpdate_def push ex split: option.splits)
    then have req: "(A', r') = (case e1 of Some _ \<Rightarrow> (A, r1) | None \<Rightarrow> (case e2 of None \<Rightarrow> (now # A, r2) | Some _ \<Rightarrow> (A, r2)))"
      using assms(5) br True by (simp add: request_def split: option.splits)
    show ?thesis
    proof (cases e1)
      case (Some e)
      then have "r1 = ?r" using redis_LPush_fail[OF assms(1)] push by simp
      then show ?thesis using req Some trim by simp
    next
      case None
      let ?d = "if visible now ?y = [] then None else snd ?y"
      have r1: "items r1 key = (now # visible now ?y, ?d)" using redis_LPush[OF assms(1)] push None by simp
      have inv1: "lim_inv this now A (items r1 key)" unfolding r1 by (rule list_push_inv[OF trim])
      show ?thesis
      proof (cases e2)
        case (Some e)
        then have "r2 = r1" using redis_Expire_fail[OF assms(1)] ex by simp
        then show ?thesis using req None Some inv1 by simp
      next
        case None2: None
        have "visible now (items r1 key) = now # visible now ?y" unfolding r1 by (auto simp: visible_def split: option.splits if_splits)
        then have "items r2 key = (now # visible now ?y, Some (now + 2 * ru_ttl this))"
          using redis_Expire[OF assms(1)] ex None2 by simp
        moreover have "covers this now A (visible now ?y, snd ?y)"
          using trim visible_again[of now _ ?y] by (simp add: lim_inv_def covers_def)
        ultimately show ?thesis using admit_inv[OF inv1[unfolded r1] low _ assms(3)] req None None2 by simp
      qed
    qed
  qed
qed

lemma requests_inv:
  assumes "redis_lists R items" "0 < ru_count this" "0 < ru_ttl this"
  shows "sorted (now # ts) \<Longrightarrow> lim_inv this now A (items r key) \<Longrightarrow> within_limit this (fst (requests R this key ts (A, r)))"
proof (induction ts arbitrary: now A r)
  case Nil
  then show ?case by (simp add: lim_inv_def)
next
  case (Cons t ts)
  obtain A' r' where req: "request R this key t (A, r) = (A', r')" by force
  have "lim_inv this t A (items r key)" by (rule lim_inv_later[OF Cons.prems(2)]) (use Cons.prems(1) in simp)
  from request_inv[OF assms this req] show ?case using Cons.IH[of t A' r'] Cons.prems(1) req by simp
qed


text \<open>A server that runs the list commands without failures.\<close>

definition list_server :: "(string \<Rightarrow> int list \<times> int option) redis" where
  "list_server =
     \<lparr>rd_Get = (\<lambda>_ _ _. Inl Redis_Nil), rd_PTTL = (\<lambda>_ _ _. Inr 0), rd_Set = (\<lambda>_ _ _ _ r. (None, r)), rd_Incr = (\<lambda>_ _ r. (None, r)),
      rd_LLen = (\<lambda>now key r. Inr (int (length (visible now (r key))))),
      rd_LIndex = (\<lambda>now key i r. if 0 \<le> i \<and> i < int (length (visible now (r key))) then Inr (visible now (r key) ! nat i) else Inl Redis_Nil),
      rd_LPush = (\<lambda>now key v r. (None, r(key := (v # visible now (r key), if visible now (r key) = [] then None else snd (r key))))),
      rd_RPop = (\<lambda>now key r. r(key := (butlast (visible now (r key)), snd (r key)))),
      rd_Expire = (\<lambda>now key d r. (None, r(key := (visible now (r key), if visible now (r key) = [] then snd (r key) else Some (now + d))))),
      rd_ZCount = (\<lambda>_ _ _ _ _. Inr 0), rd_ZAdd = (\<lambda>_ _ _ _ r. (None, r)), rd_ZRemRangeByScore = (\<lambda>_ _ _ _ r. r)\<rparr>"

lemma list_server_ok: "redis_lists list_server id"
  by (auto simp: redis_lists_def list_server_def)


text \<open>The trimming runs in a goroutine and uses the length that was read before: lookups that overlap trim too much.  Here three
  lookups see three elements, and after their goroutines have run the list is empty, so that a request is admitted six seconds after another, against a
  limit of one in ten.\<close>

theorem overlapping_lookups_trim_too_much:
  "let this = \<lparr>ru_ttl = 10, ru_count = 1\<rparr>; r = (\<lambda>_. ([120, 110, 100], Some 140));
       look = LeakListBrowse list_server this 125 ''k'' r;
       r1 = list_trim list_server 125 ''k'' (snd look + snd look + snd look) r
   in look = (Inr True, 1) \<and> LeakListBrowse list_server this 126 ''k'' r1 = (Inr False, 0)"
  by (simp add: LeakListBrowse_def list_server_def visible_def numeral_3_eq_3 eval_nat_numeral)

section \<open>The counter\<close>

text \<open>A counter with its deadline, and the documented behaviour of the commands: \<open>GET\<close> answers with \<open>redis.Nil\<close> or the number, \<open>PTTL\<close> is positive exactly for a counter
  that exists, \<open>SET\<close> with a time to live sets the deadline and \<open>INCR\<close> keeps it; both may fail without an effect.\<close>

definition counter_at :: "int \<Rightarrow> (int \<times> int) option \<Rightarrow> int option" where
  "counter_at now x = (case x of None \<Rightarrow> None | Some (v, d) \<Rightarrow> if now < d then Some v else None)"

definition redis_counters :: "'r redis \<Rightarrow> ('r \<Rightarrow> string \<Rightarrow> (int \<times> int) option) \<Rightarrow> bool" where
  "redis_counters R vals \<longleftrightarrow>
     (\<forall>now key r. rd_Get R now key r = (case counter_at now (vals r key) of None \<Rightarrow> Inl Redis_Nil | Some v \<Rightarrow> Inr v))
   \<and> (\<forall>now key r x. rd_PTTL R now key r = Inr x \<longrightarrow> (x \<le> 0 \<longleftrightarrow> counter_at now (vals r key) = None))
   \<and> (\<forall>now key v d r e r1. rd_Set R now key v d r = (Some e, r1) \<longrightarrow> r1 = r)
   \<and> (\<forall>now key v d r r1. rd_Set R now key v d r = (None, r1) \<longrightarrow> vals r1 = (vals r)(key := Some (v, now + d)))
   \<and> (\<forall>now key r e r1. rd_Incr R now key r = (Some e, r1) \<longrightarrow> r1 = r)
   \<and> (\<forall>now key r r1 v. rd_Incr R now key r = (None, r1) \<longrightarrow> counter_at now (vals r key) = Some v \<longrightarrow>
        vals r1 = (vals r)(key := Some (v + 1, snd (the (vals r key)))))"

lemma redis_counterD:
  assumes "redis_counters R vals"
  shows redis_Get: "rd_Get R now key r = (case counter_at now (vals r key) of None \<Rightarrow> Inl Redis_Nil | Some v \<Rightarrow> Inr v)"
    and redis_PTTL: "rd_PTTL R now key r = Inr x \<Longrightarrow> x \<le> 0 \<longleftrightarrow> counter_at now (vals r key) = None"
    and redis_Set_fail: "rd_Set R now key v d r = (Some e, r1) \<Longrightarrow> r1 = r"
    and redis_Set: "rd_Set R now key v d r = (None, r1) \<Longrightarrow> vals r1 = (vals r)(key := Some (v, now + d))"
    and redis_Incr_fail: "rd_Incr R now key r = (Some e, r1) \<Longrightarrow> r1 = r"
    and redis_Incr: "rd_Incr R now key r = (None, r1) \<Longrightarrow> counter_at now (vals r key) = Some v \<Longrightarrow>
        vals r1 = (vals r)(key := Some (v + 1, snd (the (vals r key))))"
  using assms unfolding redis_counters_def by simp_all

definition count_request :: "'r redis \<Rightarrow> rule \<Rightarrow> string \<Rightarrow> int \<Rightarrow> int list \<times> 'r \<Rightarrow> int list \<times> 'r" where
  "count_request R this key now s =
     (case s of (admitted, r) \<Rightarrow>
        if CountBrowse R this now key r then (admitted, r)
        else case CountUpdate R this now key r of
               (None, r1) \<Rightarrow> (now # admitted, r1)
             | (Some e, r1) \<Rightarrow> (admitted, r1))"

fun count_requests :: "'r redis \<Rightarrow> rule \<Rightarrow> string \<Rightarrow> int list \<Rightarrow> int list \<times> 'r \<Rightarrow> int list \<times> 'r" where
  "count_requests R this key [] s = s"
| "count_requests R this key (now # ts) s = count_requests R this key ts (count_request R this key now s)"

definition among :: "(int \<Rightarrow> bool) \<Rightarrow> int list \<Rightarrow> int" where
  "among P A = int (length (filter P A))"

lemma among_Cons [simp]: "among P (a # A) = (if P a then among P A + 1 else among P A)"
  by (simp add: among_def)

lemma among_mono: "(\<And>a. a \<in> set A \<Longrightarrow> P a \<Longrightarrow> Q a) \<Longrightarrow> among P A \<le> among Q A"
  unfolding among_def length_filter_conv_card by (auto intro!: card_mono)

lemma among_split: "(\<And>a. a \<in> set A \<Longrightarrow> P a \<Longrightarrow> Q a \<or> S a) \<Longrightarrow> among P A \<le> among Q A + among S A"
  by (induction A) (fastforce simp: among_def)+

text \<open>The invariant: the counter bounds the requests admitted in its window, the limit bounds the counter and the requests of the window before.\<close>

definition count_inv :: "rule \<Rightarrow> int \<Rightarrow> int list \<Rightarrow> (int \<times> int) option \<Rightarrow> bool" where
  "count_inv this now A x \<longleftrightarrow>
     (\<forall>a \<in> set A. a \<le> now) \<and> (\<forall>t. among (\<lambda>a. t - ru_ttl this < a \<and> a \<le> t) A \<le> 2 * ru_count this)
     \<and> (case x of None \<Rightarrow> A = []
        | Some (v, d) \<Rightarrow> v \<le> ru_count this \<and> d \<le> now + ru_ttl this \<and> (\<forall>a \<in> set A. a < d) \<and> among (\<lambda>a. d - ru_ttl this \<le> a) A \<le> v
            \<and> among (\<lambda>a. d - 2 * ru_ttl this < a \<and> a < d - ru_ttl this) A \<le> ru_count this)"

lemma window_Cons:
  assumes "\<forall>t. among (\<lambda>a. t - w < a \<and> a \<le> t) A \<le> k" "\<forall>a \<in> set A. a \<le> now" "among (\<lambda>a. now - w < a) A + 1 \<le> k"
  shows "among (\<lambda>a. t - w < a \<and> a \<le> t) (now # A) \<le> k"
proof (cases "now \<le> t")
  case True
  have "among (\<lambda>a. t - w < a \<and> a \<le> t) A \<le> among (\<lambda>a. now - w < a) A" by (rule among_mono) (use True in auto)
  then show ?thesis using assms(3) by simp
next
  case False
  then show ?thesis using assms(1) by simp
qed

lemma count_request_inv:
  assumes "redis_counters R vals" "0 < ru_count this" "0 < ru_ttl this" "count_inv this now A (vals r key)"
    and "count_request R this key now (A, r) = (A', r')"
  shows "count_inv this now A' (vals r' key)"
proof (cases "CountBrowse R this now key r")
  case True
  then show ?thesis using assms(4,5) by (simp add: count_request_def)
next
  case False
  obtain e r1 where up: "CountUpdate R this now key r = (e, r1)" by force
  have res: "A' = (if e = None then now # A else A)" "r' = r1" using assms(5) False up by (auto simp: count_request_def split: option.splits)
  let ?w = "ru_ttl this" and ?k = "ru_count this"
  have inv: "\<forall>a \<in> set A. a \<le> now" "\<forall>t. among (\<lambda>a. t - ?w < a \<and> a \<le> t) A \<le> 2 * ?k" using assms(4) by (simp_all add: count_inv_def)
  show ?thesis
  proof (cases "e = None")
    case fail: False
    then have "r1 = r"
      using up redis_Set_fail[OF assms(1)] redis_Incr_fail[OF assms(1)] by (auto simp: CountUpdate_def split: sum.splits if_splits)
    then show ?thesis using res fail assms(4) by simp
  next
    case ok: True
    then obtain x where x: "rd_PTTL R now key r = Inr x" using up by (auto simp: CountUpdate_def split: sum.splits)
    show ?thesis
    proof (cases "counter_at now (vals r key)")
      case None
      then have "rd_Set R now key 1 ?w r = (None, r1)" using up ok x redis_PTTL[OF assms(1) x] by (simp add: CountUpdate_def)
      then have r1: "vals r1 key = Some (1, now + ?w)" using redis_Set[OF assms(1)] by simp
      have old: "among (\<lambda>a. now - ?w < a) A \<le> ?k \<and> (\<forall>a \<in> set A. a < now)"
      proof (cases "vals r key")
        case (Some y)
        obtain v d where y: "y = (v, d)" by force
        then have "d \<le> now" using None Some by (simp add: counter_at_def split: if_splits)
        then have "among (\<lambda>a. now - ?w < a) A \<le> among (\<lambda>a. d - ?w \<le> a) A" by (intro among_mono) auto
        then show ?thesis using assms(4) Some y \<open>d \<le> now\<close> by (auto simp: count_inv_def)
      qed (use assms(2,4) in \<open>simp add: count_inv_def among_def\<close>)
      then have "among (\<lambda>a. now \<le> a) A = 0" by (auto simp: among_def filter_empty_conv)
      moreover have "among (\<lambda>a. now - ?w < a \<and> a < now) A \<le> among (\<lambda>a. now - ?w < a) A" by (rule among_mono) auto
      ultimately show ?thesis
        using old window_Cons[OF inv(2,1)] inv(1) assms(2,3) by (auto simp: count_inv_def res ok r1)
    next
      case (Some v)
      then obtain d where d: "vals r key = Some (v, d)" "now < d" by (auto simp: counter_at_def split: option.splits if_splits prod.splits)
      have "v < ?k" using False assms(2) Some by (simp add: CountBrowse_def redis_Get[OF assms(1)])
      have "rd_Incr R now key r = (None, r1)" using up ok x redis_PTTL[OF assms(1) x] Some by (simp add: CountUpdate_def)
      then have r1: "vals r1 key = Some (v + 1, d)" using redis_Incr[OF assms(1) _ Some] d by simp
      have cur: "d \<le> now + ?w" "among (\<lambda>a. d - ?w \<le> a) A \<le> v" "among (\<lambda>a. d - 2 * ?w < a \<and> a < d - ?w) A \<le> ?k" "\<forall>a \<in> set A. a < d"
        using assms(4) d by (simp_all add: count_inv_def)
      have "among (\<lambda>a. now - ?w < a) A \<le> among (\<lambda>a. d - ?w \<le> a) A + among (\<lambda>a. d - 2 * ?w < a \<and> a < d - ?w) A"
        by (rule among_split) (use d(2) cur(1) in auto)
      then have "among (\<lambda>a. now - ?w < a) A + 1 \<le> 2 * ?k" using cur \<open>v < ?k\<close> by linarith
      from window_Cons[OF inv(2,1) this] show ?thesis
        using cur inv(1) d(2) \<open>v < ?k\<close> assms(3) by (auto simp: count_inv_def res ok r1)
    qed
  qed
qed

text \<open>The counter admits at most twice the limit in any window of \<open>ttl\<close> seconds, the bound that the comment of the source states for this method: each
  counter admits at most \<open>count\<close> requests in its lifetime, and a window meets at most two lifetimes.\<close>

theorem count_limiter_window:
  assumes "redis_counters R vals" "0 < ru_count this" "0 < ru_ttl this" "sorted ts" "vals r key = None"
  shows "among (\<lambda>a. t - ru_ttl this < a \<and> a \<le> t) (fst (count_requests R this key ts ([], r))) \<le> 2 * ru_count this"
proof -
  have inv: "count_inv this now A (vals r key) \<Longrightarrow> sorted (now # ts) \<Longrightarrow>
      among (\<lambda>a. t - ru_ttl this < a \<and> a \<le> t) (fst (count_requests R this key ts (A, r))) \<le> 2 * ru_count this" for now A r ts
  proof (induction ts arbitrary: now A r)
    case Nil
    then show ?case by (simp add: count_inv_def)
  next
    case (Cons u ts)
    obtain A' r' where req: "count_request R this key u (A, r) = (A', r')" by force
    have "count_inv this u A (vals r key)" using Cons.prems by (force simp: count_inv_def split: option.splits)
    from count_request_inv[OF assms(1-3) this req] show ?case using Cons.IH[of u A' r'] Cons.prems(2) req by simp
  qed
  show ?thesis
  proof (cases ts)
    case (Cons now ts')
    have "count_inv this now [] (vals r key)" using assms(2) by (simp add: count_inv_def assms(5) among_def)
    from inv[OF this, of ts] show ?thesis using assms(4) Cons by simp
  qed (use assms(2) in \<open>simp add: among_def\<close>)
qed

text \<open>A server that runs the counter commands without failures.\<close>

definition counter_server :: "(string \<Rightarrow> (int \<times> int) option) redis" where
  "counter_server =
     \<lparr>rd_Get = (\<lambda>now key r. case counter_at now (r key) of None \<Rightarrow> Inl Redis_Nil | Some v \<Rightarrow> Inr v),
      rd_PTTL = (\<lambda>now key r. Inr (if counter_at now (r key) = None then - 2 else snd (the (r key)) - now)),
      rd_Set = (\<lambda>now key v d r. (None, r(key := Some (v, now + d)))),
      rd_Incr = (\<lambda>now key r. (None, r(key := (case counter_at now (r key) of None \<Rightarrow> None | Some v \<Rightarrow> Some (v + 1, snd (the (r key))))))),
      rd_LLen = (\<lambda>_ _ _. Inr 0), rd_LIndex = (\<lambda>_ _ _ _. Inl Redis_Nil), rd_LPush = (\<lambda>_ _ _ r. (None, r)), rd_RPop = (\<lambda>_ _ r. r),
      rd_Expire = (\<lambda>_ _ _ r. (None, r)), rd_ZCount = (\<lambda>_ _ _ _ _. Inr 0), rd_ZAdd = (\<lambda>_ _ _ _ r. (None, r)), rd_ZRemRangeByScore = (\<lambda>_ _ _ _ r. r)\<rparr>"

lemma counter_server_ok: "redis_counters counter_server id"
  by (auto simp: redis_counters_def counter_server_def counter_at_def split: option.splits if_splits)

theorem count_limiter_window_witness:
  "among (\<lambda>a. 105 - 5 < a \<and> a \<le> 105) (fst (count_requests counter_server \<lparr>ru_ttl = 5, ru_count = 3\<rparr> ''k'' [100, 104, 104, 105, 105, 105] ([], \<lambda>_. None))) \<le> 6"
  using count_limiter_window[OF counter_server_ok, of "\<lparr>ru_ttl = 5, ru_count = 3\<rparr>" "[100, 104, 104, 105, 105, 105]" "\<lambda>_. None" "''k''" 105] by simp

end
