(* ===== verification/Job_Task.thy ===== *)
theory Job_Task
  imports Prelude
begin

text \<open>
  A job of the service, \<^verbatim>\<open>service/task.go\<close> and \<^verbatim>\<open>service/conf.go\<close>: the calls of \<open>Run\<close> and of \<open>dispatchStopSign\<close>, which are goroutines without a lock, as
  a step relation.  A call of \<open>Run\<close> or of \<open>dispatchStopSign\<close> is named by its number.  The channel \<open>StopChan\<close> is the number of signals in it.  What the
  threads of a job do (\<open>RunTask\<close>) is not part of the repository: they may take signals and return at any time.
\<close>

definition JobtaskStatusRunning :: string where "JobtaskStatusRunning = ''running''"
definition JobtaskStatusFinish :: string where "JobtaskStatusFinish = ''finish''"

record JobTask =
  jt_JobName :: string
  jt_TaskFunc :: bool
  jt_Spec :: string
  jt_Desc :: string
  jt_ThreadNum :: int
  jt_RunStatus :: string
  jt_StopChan :: int
  jt_StopCap :: int
  jt_stopSignRecved :: bool

definition genJF :: "string \<Rightarrow> string \<Rightarrow> string \<Rightarrow> bool \<Rightarrow> int \<Rightarrow> JobTask" where
  "genJF jobName desc spec taskFunc threadNum =
     (let threadNum = (if threadNum \<le> 0 then 1 else threadNum)
      in \<lparr>jt_JobName = jobName, jt_TaskFunc = taskFunc, jt_Spec = spec, jt_Desc = desc, jt_ThreadNum = threadNum, jt_RunStatus = '''',
          jt_StopChan = 0, jt_StopCap = threadNum, jt_stopSignRecved = False\<rparr>)"

definition recordStart :: "JobTask \<Rightarrow> JobTask" where
  "recordStart jf = jf\<lparr>jt_RunStatus := JobtaskStatusRunning\<rparr>"

definition recordFinish :: "JobTask \<Rightarrow> JobTask" where
  "recordFinish jf = jf\<lparr>jt_RunStatus := JobtaskStatusFinish\<rparr>"

definition job_status :: "JobTask \<Rightarrow> string" where
  "job_status jf = jt_RunStatus jf"

text \<open>Where a call is: before its test, past the test, with its threads running (their number), sending (the signals left), or returned.\<close>

datatype run_state = RNone | RChecked | RThreads int | RReturned

datatype dispatch_state = DNone | DChecked | DSending int | DReturned

record job_sys =
  j_task :: JobTask
  j_run :: "nat \<Rightarrow> run_state"
  j_dispatch :: "nat \<Rightarrow> dispatch_state"
  j_sent :: int

text \<open>The steps of \<open>Run\<close>.  With \<open>spaced\<close>, no two calls are between the test and the assignment of the status at once.\<close>

inductive Run_step :: "bool \<Rightarrow> job_sys \<Rightarrow> job_sys \<Rightarrow> bool" for spaced where
  run_skip: "j_run s r = RNone \<Longrightarrow> job_status (j_task s) = JobtaskStatusRunning \<Longrightarrow> Run_step spaced s (s\<lparr>j_run := (j_run s)(r := RReturned)\<rparr>)"
| run_check: "j_run s r = RNone \<Longrightarrow> job_status (j_task s) \<noteq> JobtaskStatusRunning \<Longrightarrow> (spaced \<longrightarrow> (\<forall>q. j_run s q \<noteq> RChecked)) \<Longrightarrow>
    Run_step spaced s (s\<lparr>j_run := (j_run s)(r := RChecked)\<rparr>)"
| run_start: "j_run s r = RChecked \<Longrightarrow> jt_TaskFunc (j_task s) \<Longrightarrow>
    Run_step spaced s (s\<lparr>j_task := recordStart (j_task s), j_run := (j_run s)(r := RThreads (jt_ThreadNum (j_task s)))\<rparr>)"
| run_no_func: "j_run s r = RChecked \<Longrightarrow> \<not> jt_TaskFunc (j_task s) \<Longrightarrow>
    Run_step spaced s (s\<lparr>j_task := recordFinish (recordStart (j_task s)), j_run := (j_run s)(r := RReturned)\<rparr>)"
| thread_signal: "j_run s r = RThreads n \<Longrightarrow> 0 < n \<Longrightarrow> 0 < jt_StopChan (j_task s) \<Longrightarrow>
    Run_step spaced s (s\<lparr>j_task := (j_task s)\<lparr>jt_StopChan := jt_StopChan (j_task s) - 1\<rparr>\<rparr>)"
| thread_done: "j_run s r = RThreads n \<Longrightarrow> 0 < n \<Longrightarrow> Run_step spaced s (s\<lparr>j_run := (j_run s)(r := RThreads (n - 1))\<rparr>)"
| run_finish: "j_run s r = RThreads 0 \<Longrightarrow> Run_step spaced s (s\<lparr>j_task := recordFinish (j_task s), j_run := (j_run s)(r := RReturned)\<rparr>)"

text \<open>The steps of \<open>dispatchStopSign\<close>; a send waits for room in the channel.\<close>

inductive dispatchStopSign_step :: "bool \<Rightarrow> job_sys \<Rightarrow> job_sys \<Rightarrow> bool" for spaced where
  disp_skip: "j_dispatch s d = DNone \<Longrightarrow> jt_stopSignRecved (j_task s) \<Longrightarrow> dispatchStopSign_step spaced s (s\<lparr>j_dispatch := (j_dispatch s)(d := DReturned)\<rparr>)"
| disp_check: "j_dispatch s d = DNone \<Longrightarrow> \<not> jt_stopSignRecved (j_task s) \<Longrightarrow> (spaced \<longrightarrow> (\<forall>q. j_dispatch s q \<noteq> DChecked)) \<Longrightarrow>
    dispatchStopSign_step spaced s (s\<lparr>j_dispatch := (j_dispatch s)(d := DChecked)\<rparr>)"
| disp_set: "j_dispatch s d = DChecked \<Longrightarrow>
    dispatchStopSign_step spaced s (s\<lparr>j_task := (j_task s)\<lparr>jt_stopSignRecved := True\<rparr>,
      j_dispatch := (j_dispatch s)(d := if jt_RunStatus (j_task s) \<noteq> JobtaskStatusRunning then DReturned else DSending (jt_ThreadNum (j_task s)))\<rparr>)"
| disp_send: "j_dispatch s d = DSending n \<Longrightarrow> 0 < n \<Longrightarrow> jt_StopChan (j_task s) < jt_StopCap (j_task s) \<Longrightarrow>
    dispatchStopSign_step spaced s (s\<lparr>j_task := (j_task s)\<lparr>jt_StopChan := jt_StopChan (j_task s) + 1\<rparr>, j_dispatch := (j_dispatch s)(d := DSending (n - 1)),
      j_sent := j_sent s + 1\<rparr>)"
| disp_end: "j_dispatch s d = DSending 0 \<Longrightarrow> dispatchStopSign_step spaced s (s\<lparr>j_dispatch := (j_dispatch s)(d := DReturned)\<rparr>)"

inductive job_task_step :: "bool \<Rightarrow> job_sys \<Rightarrow> job_sys \<Rightarrow> bool" for spaced where
  by_run: "Run_step spaced s s' \<Longrightarrow> job_task_step spaced s s'"
| by_dispatch: "dispatchStopSign_step spaced s s' \<Longrightarrow> job_task_step spaced s s'"

definition new_job :: "JobTask \<Rightarrow> job_sys" where
  "new_job jf = \<lparr>j_task = jf, j_run = (\<lambda>_. RNone), j_dispatch = (\<lambda>_. DNone), j_sent = 0\<rparr>"

section \<open>Invariants\<close>

definition running :: "run_state \<Rightarrow> bool" where
  "running x = (case x of RThreads n \<Rightarrow> True | _ \<Rightarrow> False)"

text \<open>At most one call is past its test and has not returned; the status says running exactly while its threads run.\<close>

definition run_inv :: "job_sys \<Rightarrow> bool" where
  "run_inv s \<longleftrightarrow> (\<forall>r q. (running (j_run s r) \<or> j_run s r = RChecked) \<longrightarrow> (running (j_run s q) \<or> j_run s q = RChecked) \<longrightarrow> r = q)
     \<and> (jt_RunStatus (j_task s) = JobtaskStatusRunning \<longleftrightarrow> (\<exists>r. running (j_run s r)))"

text \<open>At most one call sends; with the signals it has still to send, no more than one for each thread is ever sent.\<close>

definition dispatch_inv :: "job_sys \<Rightarrow> bool" where
  "dispatch_inv s \<longleftrightarrow>
     (\<forall>d. j_dispatch s d = DChecked \<longrightarrow> \<not> jt_stopSignRecved (j_task s) \<and> (\<forall>q. j_dispatch s q = DChecked \<longrightarrow> q = d))
     \<and> (\<forall>d n. j_dispatch s d = DSending n \<longrightarrow> jt_stopSignRecved (j_task s) \<and> 0 \<le> n \<and> j_sent s + n = jt_ThreadNum (j_task s)
          \<and> (\<forall>q m. j_dispatch s q = DSending m \<longrightarrow> q = d))
     \<and> (\<not> jt_stopSignRecved (j_task s) \<longrightarrow> j_sent s = 0)
     \<and> 0 \<le> jt_StopChan (j_task s) \<and> jt_StopChan (j_task s) \<le> j_sent s \<and> j_sent s \<le> jt_ThreadNum (j_task s)
     \<and> jt_StopCap (j_task s) = jt_ThreadNum (j_task s) \<and> 0 < jt_ThreadNum (j_task s)"

lemmas task_defs = recordStart_def recordFinish_def job_status_def JobtaskStatusRunning_def JobtaskStatusFinish_def

lemma run_inv_same:
  assumes "run_inv s" "\<And>q. running (j_run s' q) = running (j_run s q)" "\<And>q. (j_run s' q = RChecked) = (j_run s q = RChecked)"
    and "jt_RunStatus (j_task s') = jt_RunStatus (j_task s)"
  shows "run_inv s'"
  using assms by (simp add: run_inv_def)

lemma Run_keeps_run_inv:
  assumes "Run_step True s s'" "run_inv s"
  shows "run_inv s'"
  using assms(1)
proof cases
  case (run_check r)
  then have "\<forall>q. \<not> running (j_run s q)" using assms(2) by (auto simp: run_inv_def task_defs)
  then show ?thesis using assms(2) run_check by (auto simp: run_inv_def task_defs running_def)
next
  case (run_start r)
  then show ?thesis using assms(2) by (auto simp: run_inv_def task_defs running_def) 
next
  case (run_no_func r)
  then show ?thesis using assms(2) by (auto simp: run_inv_def task_defs running_def) 
next
  case (thread_done r n)
  show ?thesis by (rule run_inv_same[OF assms(2)]) (simp_all add: thread_done running_def)
next
  case (run_skip r)
  show ?thesis by (rule run_inv_same[OF assms(2)]) (simp_all add: run_skip running_def)
next
  case (run_finish r)
  then show ?thesis using assms(2) by (auto simp: run_inv_def task_defs running_def) 
next
  case (thread_signal r n)
  show ?thesis by (rule run_inv_same[OF assms(2)]) (simp_all add: thread_signal)
qed

lemma dispatch_keeps_run_inv: "dispatchStopSign_step spaced s s' \<Longrightarrow> run_inv s \<Longrightarrow> run_inv s'"
  by (cases rule: dispatchStopSign_step.cases) (auto simp: run_inv_def)

lemma Run_frame:
  assumes "Run_step spaced s s'"
  shows "j_dispatch s' = j_dispatch s" "j_sent s' = j_sent s" "jt_stopSignRecved (j_task s') = jt_stopSignRecved (j_task s)"
    "jt_ThreadNum (j_task s') = jt_ThreadNum (j_task s)" "jt_StopCap (j_task s') = jt_StopCap (j_task s)"
    "jt_StopChan (j_task s') \<le> jt_StopChan (j_task s)" "0 \<le> jt_StopChan (j_task s) \<Longrightarrow> 0 \<le> jt_StopChan (j_task s')"
  using assms by (cases; simp add: recordStart_def recordFinish_def)+

lemma Run_keeps_dispatch_inv: "Run_step spaced s s' \<Longrightarrow> dispatch_inv s \<Longrightarrow> dispatch_inv s'"
  using Run_frame[of spaced s s'] unfolding dispatch_inv_def by simp

lemma sendingD:
  assumes "dispatch_inv s" "j_dispatch s d = DSending n"
  shows "jt_ThreadNum (j_task s) = j_sent s + n" "jt_stopSignRecved (j_task s)" "j_dispatch s q = DSending m \<Longrightarrow> q = d"
proof -
  have "\<forall>d n. j_dispatch s d = DSending n \<longrightarrow> jt_stopSignRecved (j_task s) \<and> 0 \<le> n \<and> j_sent s + n = jt_ThreadNum (j_task s)
          \<and> (\<forall>q m. j_dispatch s q = DSending m \<longrightarrow> q = d)"
    using assms(1) unfolding dispatch_inv_def by (elim conjE)
  from this[rule_format, OF assms(2)]
  show "jt_ThreadNum (j_task s) = j_sent s + n" "jt_stopSignRecved (j_task s)" "j_dispatch s q = DSending m \<Longrightarrow> q = d" by simp_all
qed

lemma dispatch_keeps_dispatch_inv:
  assumes "dispatchStopSign_step True s s'" "dispatch_inv s"
  shows "dispatch_inv s'"
  using assms(1)
proof cases
  case (disp_check d)
  then show ?thesis using assms(2) by (auto simp: dispatch_inv_def)
next
  case (disp_set d)
  then have "\<not> jt_stopSignRecved (j_task s)" using assms(2) by (auto simp: dispatch_inv_def)
  then have "\<forall>q n. j_dispatch s q \<noteq> DSending n" "j_sent s = 0" using assms(2) by (auto simp: dispatch_inv_def)
  then show ?thesis using assms(2) disp_set by (auto simp: dispatch_inv_def)
next
  case (disp_send d n)
  note eq = sendingD(1,2)[OF assms(2) disp_send(2)] and only = sendingD(3)[OF assms(2) disp_send(2)]
  then have "\<And>q. j_dispatch s q \<noteq> DChecked" using assms(2) by (auto simp: dispatch_inv_def)
  moreover have "0 \<le> jt_StopChan (j_task s)" "jt_StopChan (j_task s) \<le> j_sent s" "jt_StopCap (j_task s) = jt_ThreadNum (j_task s)"
      "0 < jt_ThreadNum (j_task s)"
    using assms(2) by (simp_all add: dispatch_inv_def)
  ultimately show ?thesis using eq disp_send(3) by (auto simp: dispatch_inv_def disp_send(1) dest: only)
qed (use assms(2) in \<open>auto simp: dispatch_inv_def\<close>)

interpretation job_task: keeps_invariant "job_task_step True" "\<lambda>s. run_inv s \<and> dispatch_inv s"
proof
  fix s s'
  assume inv: "run_inv s \<and> dispatch_inv s" and st: "job_task_step True s s'"
  from st show "run_inv s' \<and> dispatch_inv s'"
    by cases (use inv Run_keeps_run_inv dispatch_keeps_run_inv Run_keeps_dispatch_inv dispatch_keeps_dispatch_inv in blast)+
qed

lemma new_job_inv: "run_inv (new_job (genJF name desc spec f n))" "dispatch_inv (new_job (genJF name desc spec f n))"
  by (simp_all add: run_inv_def dispatch_inv_def new_job_def genJF_def running_def JobtaskStatusRunning_def)

section \<open>Properties\<close>


lemma start_once:
  "(job_task_step spaced)\<^sup>*\<^sup>* (new_job (genJF ''a'' ''b'' ''c'' True 2))
     ((new_job (genJF ''a'' ''b'' ''c'' True 2))\<lparr>j_task := recordStart (genJF ''a'' ''b'' ''c'' True 2), j_run := (\<lambda>_. RNone)(0 := RThreads 2)\<rparr>)"
proof -
  let ?j = "genJF ''a'' ''b'' ''c'' True 2"
  let ?s = "(new_job ?j)\<lparr>j_run := (\<lambda>_. RNone)(0 := RChecked)\<rparr>"
  have "job_task_step spaced (new_job ?j) ?s"
    using run_check[of "new_job ?j" 0 spaced] by (intro by_run) (simp add: new_job_def genJF_def task_defs)
  moreover have "job_task_step spaced ?s ((new_job ?j)\<lparr>j_task := recordStart ?j, j_run := (\<lambda>_. RNone)(0 := RThreads 2)\<rparr>)"
    using run_start[of ?s 0 spaced] by (intro by_run) (simp add: new_job_def genJF_def)
  ultimately show ?thesis by (rule converse_rtranclp_into_rtranclp[OF _ r_into_rtranclp])
qed


text \<open>A stop signal for a job that is not running is lost: the request is recorded, nothing is sent, and from then on nothing is ever sent, so that
  a later run of the job cannot be stopped by this way any more.\<close>

theorem stop_while_idle_is_lost:
  assumes "jt_RunStatus (j_task s) \<noteq> JobtaskStatusRunning" "j_dispatch s d = DChecked" "\<forall>q. q \<noteq> d \<longrightarrow> j_dispatch s q \<in> {DNone, DReturned}"
    and "s1 = s\<lparr>j_task := (j_task s)\<lparr>jt_stopSignRecved := True\<rparr>, j_dispatch := (j_dispatch s)(d := DReturned)\<rparr>" "(job_task_step spaced)\<^sup>*\<^sup>* s1 s2"
  shows "dispatchStopSign_step spaced s s1 \<and> j_sent s2 = j_sent s"
proof
  show "dispatchStopSign_step spaced s s1" using disp_set[OF assms(2), of spaced] assms(1) by (simp add: assms(4))
  have "jt_stopSignRecved (j_task s2) \<and> (\<forall>q. j_dispatch s2 q \<noteq> DChecked) \<and> (\<forall>q n. j_dispatch s2 q \<noteq> DSending n) \<and> j_sent s2 = j_sent s"
    using assms(5)
  proof (induction rule: rtranclp_induct)
    case base
    then show ?case using assms(3) by (force simp: assms(4))
  next
    case (step s2 s3)
    from step.hyps(2) show ?case
    proof cases
      case by_run
      then show ?thesis using step.IH by (cases rule: Run_step.cases) (auto simp: task_defs)
    next
      case by_dispatch
      then show ?thesis using step.IH by (cases rule: dispatchStopSign_step.cases) auto
    qed
  qed
  then show "j_sent s2 = j_sent s" by simp
qed

theorem stop_while_idle_is_lost_witness:
  "let j = new_job (genJF ''a'' ''b'' ''c'' True 2); s1 = j\<lparr>j_task := (j_task j)\<lparr>jt_stopSignRecved := True\<rparr>, j_dispatch := (\<lambda>_. DNone)(0 := DReturned)\<rparr>
   in dispatchStopSign_step True (j\<lparr>j_dispatch := (\<lambda>_. DNone)(0 := DChecked)\<rparr>) s1 \<and> j_sent s1 = 0"
  using stop_while_idle_is_lost[of "(new_job (genJF ''a'' ''b'' ''c'' True 2))\<lparr>j_dispatch := (\<lambda>_. DNone)(0 := DChecked)\<rparr>" 0, OF _ _ _ refl rtranclp.rtrancl_refl, of True]
  by (simp add: new_job_def genJF_def JobtaskStatusRunning_def Let_def)

text \<open>Calls that overlap in their tests run the job twice.\<close>

theorem overlapping_runs:
  "\<exists>s. (job_task_step False)\<^sup>*\<^sup>* (new_job (genJF ''a'' ''b'' ''c'' True 1)) s \<and> j_run s 0 = RThreads 1 \<and> j_run s 1 = RThreads 1"
proof -
  let ?j = "genJF ''a'' ''b'' ''c'' True 1"
  let ?s1 = "(new_job ?j)\<lparr>j_run := (\<lambda>_. RNone)(0 := RChecked)\<rparr>"
  let ?s2 = "?s1\<lparr>j_run := (j_run ?s1)(1 := RChecked)\<rparr>"
  let ?s3 = "?s2\<lparr>j_task := recordStart (j_task ?s2), j_run := (j_run ?s2)(0 := RThreads (jt_ThreadNum (j_task ?s2)))\<rparr>"
  let ?s4 = "?s3\<lparr>j_task := recordStart (j_task ?s3), j_run := (j_run ?s3)(1 := RThreads (jt_ThreadNum (j_task ?s3)))\<rparr>"
  have "job_task_step False (new_job ?j) ?s1"
    using run_check[of "new_job ?j" 0 False] by (intro by_run) (simp add: new_job_def genJF_def task_defs)
  moreover have "job_task_step False ?s1 ?s2" by (intro by_run run_check) (simp_all add: new_job_def genJF_def task_defs)
  moreover have "job_task_step False ?s2 ?s3" by (intro by_run run_start) (simp_all add: new_job_def genJF_def)
  moreover have "job_task_step False ?s3 ?s4" by (intro by_run run_start) (simp_all add: new_job_def genJF_def recordStart_def)
  ultimately have "(job_task_step False)\<^sup>*\<^sup>* (new_job ?j) ?s4" by (meson rtranclp.rtrancl_into_rtrancl r_into_rtranclp)
  then show ?thesis by (intro exI[of _ ?s4]) (simp add: new_job_def genJF_def recordStart_def)
qed

end
