(* ===== verification/Job_Service.thy ===== *)
theory Job_Service
  imports Cron_Runner Job_Task
begin

text \<open>
  The service that runs the jobs, \<^verbatim>\<open>service/svr.go\<close> and \<^verbatim>\<open>service/grpc.go\<close>: which jobs it starts, how it hands the scheduled ones to the scheduler of
  \<^verbatim>\<open>core/cron\<close>, and how stop requests reach the jobs.  The data access layer, which keeps the stop flags and the states in Redis, is the theory Job_Dao; what it
  returns is an argument here.
\<close>

record Job =
  jb_jobComsumerEnable :: bool
  jb_jobCrontabEnable :: bool
  jb_Comsumers :: "JobTask list"
  jb_Crontabs :: "JobTask list"

record JobStatus =
  js_PodName :: string
  js_JobName :: string
  js_JobDesc :: string
  js_Status :: string

text \<open>The loop of \<open>Start\<close> over the scheduled jobs: a job without a name, a specification or a function is skipped, and so is one whose specification is
  not accepted.\<close>

fun add_crontabs :: "JobTask list \<Rightarrow> JobTask Cron \<Rightarrow> JobTask Cron" where
  "add_crontabs [] c = c"
| "add_crontabs (task # tasks) c =
     (if jt_JobName task = [] \<or> jt_Spec task = [] \<or> \<not> jt_TaskFunc task then add_crontabs tasks c
      else case AddJob (jt_Spec task) task of
             Inl err \<Rightarrow> add_crontabs tasks c
           | Inr entry \<Rightarrow> add_crontabs tasks (c\<lparr>c_entries := c_entries c @ [entry]\<rparr>))"

text \<open>\<open>Start\<close>: the jobs that are run at once, and the scheduler with its entries, which is then started.\<close>

definition Job_Start :: "Location \<Rightarrow> Job \<Rightarrow> JobTask list \<times> JobTask Cron option" where
  "Job_Start loc job =
     ((if jb_jobComsumerEnable job then filter (\<lambda>task. \<not> (jt_JobName task = [] \<or> \<not> jt_TaskFunc task)) (jb_Comsumers job) else []),
      (if jb_jobCrontabEnable job then Some (add_crontabs (jb_Crontabs job) (NewWithLocation loc)) else None))"

text \<open>One round of \<open>syncStopFlags\<close>: the jobs that are sent the stop sign, in the order of the flags.\<close>

definition syncStopFlags_round :: "(string \<times> string) list \<Rightarrow> Job \<Rightarrow> JobTask list" where
  "syncStopFlags_round tmp job =
     concat (map (\<lambda>(jobName, v).
       if v \<noteq> ''stop'' then []
       else filter (\<lambda>jf. jt_JobName jf = jobName) (jb_Comsumers job) @ filter (\<lambda>jf. jt_JobName jf = jobName) (jb_Crontabs job)) tmp)"

definition syncJobTaskStatus_round :: "string \<Rightarrow> Job \<Rightarrow> JobStatus list" where
  "syncJobTaskStatus_round podName job =
     (let jobTaskList = (if jb_jobCrontabEnable job then jb_Crontabs job else []) @ (if jb_jobComsumerEnable job then jb_Comsumers job else [])
      in map (\<lambda>v. \<lparr>js_PodName = podName, js_JobName = jt_JobName v, js_JobDesc = [], js_Status = jt_RunStatus v\<rparr>) jobTaskList)"

definition dispatchAllStopSign :: "Job \<Rightarrow> JobTask list" where
  "dispatchAllStopSign job = jb_Comsumers job @ jb_Crontabs job"

text \<open>\<open>StopJob\<close>: the names whose flags are set; none means all.\<close>

definition StopJob :: "string list \<Rightarrow> Job \<Rightarrow> string list" where
  "StopJob names job = (if names = [] then map jt_JobName (jb_Comsumers job) @ map jt_JobName (jb_Crontabs job) else names)"

text \<open>\<open>JobStatus\<close>: the states of all pods, with the descriptions; a name without one gets the empty string.\<close>

definition job_descs :: "Job \<Rightarrow> string \<Rightarrow> string" where
  "job_descs job name =
     (case map_of (rev (map (\<lambda>v. (jt_JobName v, jt_Desc v)) (jb_Crontabs job @ jb_Comsumers job))) name of None \<Rightarrow> [] | Some d \<Rightarrow> d)"

definition JobStatus_list :: "(string \<times> JobStatus list) list \<Rightarrow> Job \<Rightarrow> JobStatus list" where
  "JobStatus_list data job =
     concat (map (\<lambda>(podName, v). map (\<lambda>vv. vv\<lparr>js_PodName := podName, js_JobDesc := job_descs job (js_JobName vv)\<rparr>) v) data)"

section \<open>Properties\<close>

definition accepted_entry :: "JobTask \<Rightarrow> JobTask Entry list" where
  "accepted_entry task =
     (if jt_JobName task = [] \<or> jt_Spec task = [] \<or> \<not> jt_TaskFunc task then []
      else case Parse (jt_Spec task) of Inl e \<Rightarrow> [] | Inr schedule \<Rightarrow> [new_entry schedule task])"

lemma add_crontabs_entries:
  "add_crontabs tasks c = c\<lparr>c_entries := c_entries c @ concat (map accepted_entry tasks)\<rparr>"
  by (induction tasks c rule: add_crontabs.induct) (auto simp: accepted_entry_def AddJob_def split: sum.splits)

text \<open>C31: \<open>Start\<close> hands the scheduled jobs to the scheduler completely: the entries of the new scheduler are, in order, those of the jobs that have a name, a
  function and a specification the parser accepts, each with the schedule the specification means; one job with an unacceptable specification does not
  keep the others from being scheduled, and a disabled kind of job is not started at all.\<close>

theorem Start_schedules_jobs:
  "case Job_Start loc job of (consumers, cron) \<Rightarrow>
     (\<forall>task. task \<in> set consumers \<longleftrightarrow> jb_jobComsumerEnable job \<and> task \<in> set (jb_Comsumers job) \<and> jt_JobName task \<noteq> [] \<and> jt_TaskFunc task)
     \<and> (cron = None \<longleftrightarrow> \<not> jb_jobCrontabEnable job)
     \<and> (\<forall>c. cron = Some c \<longrightarrow> c_entries c = concat (map accepted_entry (jb_Crontabs job))
          \<and> (\<forall>task schedule. task \<in> set (jb_Crontabs job) \<longrightarrow> jt_JobName task \<noteq> [] \<longrightarrow> jt_TaskFunc task \<longrightarrow> Parse (jt_Spec task) = Inr schedule \<longrightarrow>
               jt_Spec task \<noteq> [] \<longrightarrow> new_entry schedule task \<in> set (c_entries c)))"
  by (force simp: Job_Start_def add_crontabs_entries NewWithLocation_def accepted_entry_def)

lemma example_specs: "\<not> isl (Parse ''@hourly'')" "isl (Parse ''nonsense'')"
  by code_simp+

theorem Start_schedules_jobs_witness:
  "length (c_entries (the (snd (Job_Start 0 \<lparr>jb_jobComsumerEnable = False, jb_jobCrontabEnable = True, jb_Comsumers = [],
     jb_Crontabs = [genJF ''a'' ''x'' ''nonsense'' True 1, genJF ''b'' ''y'' ''@hourly'' True 2]\<rparr>)))) = 1"
  (is "length (c_entries (the (snd (Job_Start 0 ?job)))) = 1")
proof -
  obtain s e where "Parse ''@hourly'' = Inr s" "Parse ''nonsense'' = Inl e" using example_specs by (cases "Parse ''@hourly''"; cases "Parse ''nonsense''") auto
  then have "concat (map accepted_entry (jb_Crontabs ?job)) = [new_entry s (genJF ''b'' ''y'' ''@hourly'' True 2)]"
    by (simp add: accepted_entry_def genJF_def)
  moreover obtain c where "snd (Job_Start 0 ?job) = Some c" by (simp add: Job_Start_def)
  ultimately show ?thesis using Start_schedules_jobs[where loc = 0 and job = ?job] by (simp add: case_prod_unfold)
qed

text \<open>A stop request reaches exactly the jobs it names: in the next round after the flags are read, every job, consumer or scheduled, whose name has the flag is
  sent the stop sign, and no other; a request without names reaches every job.\<close>

theorem StopJob_reaches_named_jobs:
  "(\<forall>jf. jf \<in> set (syncStopFlags_round flags job) \<longleftrightarrow> jf \<in> set (jb_Comsumers job @ jb_Crontabs job) \<and> (jt_JobName jf, ''stop'') \<in> set flags)
   \<and> set (syncStopFlags_round (map (\<lambda>n. (n, ''stop'')) (StopJob [] job)) job) = set (dispatchAllStopSign job)"
  by (auto simp: syncStopFlags_round_def StopJob_def dispatchAllStopSign_def split: if_splits)

end
