(* ===== verification/Job_Dao.thy ===== *)
theory Job_Dao
  imports Job_Service
begin

text \<open>
  The data access of the job service, \<^verbatim>\<open>dao/status.go\<close>, and the requests of \<^verbatim>\<open>service/svr.go\<close> and \<^verbatim>\<open>service/grpc.go\<close> through it.  The Redis client
  and the JSON codec are not part of the repository: the calls are the fields of a record, and the proofs use their documented behaviour, \<open>hash_laws\<close> and
  \<open>status_codec\<close>.  The keys expire after one hour or four; everything here happens before.
\<close>

section \<open>The operations\<close>

record 'r hredis =
  hr_HMSet :: "string \<Rightarrow> (string \<rightharpoonup> string) \<Rightarrow> 'r \<Rightarrow> string \<times> 'r"
  hr_HSet :: "string \<Rightarrow> string \<Rightarrow> string \<Rightarrow> 'r \<Rightarrow> 'r"
  hr_HGetAll :: "string \<Rightarrow> 'r \<Rightarrow> string \<rightharpoonup> string"
  hr_HDel :: "string \<Rightarrow> string \<Rightarrow> 'r \<Rightarrow> 'r"
  hr_Del :: "string \<Rightarrow> 'r \<Rightarrow> 'r"
  hr_Expire :: "string \<Rightarrow> int \<Rightarrow> 'r \<Rightarrow> 'r"

definition stop_map :: string where "stop_map = ''redp:job:stop:map''"
definition status_keys :: string where "status_keys = ''redp:job:run:status:keys''"
definition status_key :: "string \<Rightarrow> string" where "status_key podName = ''redp:job:run:status:'' @ podName"

definition ToUpper :: "string \<Rightarrow> string" where
  "ToUpper s = map (\<lambda>c. if 97 \<le> (of_char c :: nat) \<and> (of_char c :: nat) \<le> 122 then char_of (of_char c - 32 :: nat) else c) s"

definition ClearStopFlags :: "'r hredis \<Rightarrow> 'r \<Rightarrow> 'r" where
  "ClearStopFlags R r = hr_Del R stop_map r"

definition StopJobs :: "'r hredis \<Rightarrow> string list \<Rightarrow> 'r \<Rightarrow> bool \<times> 'r" where
  "StopJobs R jobNames r =
     (if length jobNames = 0 then (False, r)
      else let sc = hr_HMSet R stop_map (\<lambda>n. if n \<in> set jobNames then Some ''stop'' else None) r
           in (ToUpper (fst sc) = ''OK'', hr_Expire R stop_map (4 * 3600) (snd sc)))"

definition GetStopFlags :: "'r hredis \<Rightarrow> 'r \<Rightarrow> string \<rightharpoonup> string" where
  "GetStopFlags R r = hr_HGetAll R stop_map r"

text \<open>The codec: a status to a string, and a string to a status or an error.\<close>

record status_json =
  sj_marshal :: "JobStatus \<Rightarrow> string"
  sj_unmarshal :: "string \<Rightarrow> string + JobStatus"

definition GetJobTasksStatus :: "'r hredis \<Rightarrow> status_json \<Rightarrow> 'r \<Rightarrow> string \<rightharpoonup> (string \<rightharpoonup> JobStatus)" where
  "GetJobTasksStatus R J r podName =
     (case hr_HGetAll R status_keys r podName of
        None \<Rightarrow> None
      | Some _ \<Rightarrow> Some (\<lambda>jobName.
          case hr_HGetAll R (status_key podName) r jobName of
            None \<Rightarrow> None
          | Some jsonStr \<Rightarrow> (case sj_unmarshal J jsonStr of Inl _ \<Rightarrow> None | Inr jobStatus \<Rightarrow> Some jobStatus)))"

text \<open>The loop that fills \<open>fields\<close>: a later status of the same job overwrites an earlier one.\<close>

fun status_fields :: "status_json \<Rightarrow> JobStatus list \<Rightarrow> (string \<rightharpoonup> string) \<Rightarrow> string \<rightharpoonup> string" where
  "status_fields J [] m = m"
| "status_fields J (v # vs) m = status_fields J vs (m(js_JobName v \<mapsto> sj_marshal J v))"

definition UpdateJobTaskStatus :: "'r hredis \<Rightarrow> status_json \<Rightarrow> string \<Rightarrow> int \<Rightarrow> JobStatus list \<Rightarrow> 'r \<Rightarrow> 'r" where
  "UpdateJobTaskStatus R J podName now list r =
     (if length list = 0 then r
      else let r1 = snd (hr_HMSet R (status_key podName) (status_fields J list Map.empty) r);
               r2 = hr_Expire R (status_key podName) 3600 r1;
               r3 = hr_HSet R status_keys podName (Itoa now) r2
           in hr_Expire R status_keys 3600 r3)"

definition ClearAllJobTaskStatus :: "'r hredis \<Rightarrow> string \<Rightarrow> 'r \<Rightarrow> 'r" where
  "ClearAllJobTaskStatus R podName r = hr_HDel R status_keys podName (hr_Del R (status_key podName) r)"

section \<open>The requests\<close>

definition StopJob_request :: "'r hredis \<Rightarrow> string list \<Rightarrow> Job \<Rightarrow> 'r \<Rightarrow> bool \<times> 'r" where
  "StopJob_request R names job r = StopJobs R (StopJob names job) r"

definition syncJobTaskStatus_tick :: "'r hredis \<Rightarrow> status_json \<Rightarrow> string \<Rightarrow> int \<Rightarrow> Job \<Rightarrow> 'r \<Rightarrow> 'r" where
  "syncJobTaskStatus_tick R J podName now job r = UpdateJobTaskStatus R J podName now (syncJobTaskStatus_round podName job) r"

text \<open>\<open>Close\<close>: every job is sent the stop sign, the states of the pod are removed, and the scheduler, when there is one, is stopped.\<close>

definition Job_Close :: "'r hredis \<Rightarrow> string \<Rightarrow> Job \<Rightarrow> JobTask Cron option \<Rightarrow> 'r \<Rightarrow> JobTask list \<times> JobTask Cron option \<times> 'r" where
  "Job_Close R podName job cronObj r = (dispatchAllStopSign job, cronObj, ClearAllJobTaskStatus R podName r)"

section \<open>The commands\<close>

definition hash_laws :: "'r hredis \<Rightarrow> ('r \<Rightarrow> string \<Rightarrow> string \<rightharpoonup> string) \<Rightarrow> bool" where
  "hash_laws R hs \<longleftrightarrow>
     (\<forall>key r. hr_HGetAll R key r = hs r key)
   \<and> (\<forall>key m r. fst (hr_HMSet R key m r) = ''OK'' \<and> hs (snd (hr_HMSet R key m r)) = (hs r)(key := hs r key ++ m))
   \<and> (\<forall>key f v r. hs (hr_HSet R key f v r) = (hs r)(key := (hs r key)(f \<mapsto> v)))
   \<and> (\<forall>key f r. hs (hr_HDel R key f r) = (hs r)(key := (hs r key)(f := None)))
   \<and> (\<forall>key r. hs (hr_Del R key r) = (hs r)(key := Map.empty))
   \<and> (\<forall>key d r. hs (hr_Expire R key d r) = hs r)"

definition status_codec :: "status_json \<Rightarrow> bool" where
  "status_codec J \<longleftrightarrow> (\<forall>v. sj_unmarshal J (sj_marshal J v) = Inr v)"

lemma hash_lawsD:
  assumes "hash_laws R hs"
  shows "hr_HGetAll R key r = hs r key" "fst (hr_HMSet R key m r) = ''OK''" "hs (snd (hr_HMSet R key m r)) = (hs r)(key := hs r key ++ m)"
    "hs (hr_HSet R key f v r) = (hs r)(key := (hs r key)(f \<mapsto> v))" "hs (hr_HDel R key f r) = (hs r)(key := (hs r key)(f := None))"
    "hs (hr_Del R key r) = (hs r)(key := Map.empty)" "hs (hr_Expire R key d r) = hs r"
  using assms unfolding hash_laws_def by simp_all

lemma status_key_inj [simp]: "status_key p = status_key q \<longleftrightarrow> p = q"
  by (simp add: status_key_def)

lemma status_key_keys: "status_key p = status_keys \<longleftrightarrow> p = ''keys''"
  by (simp add: status_key_def status_keys_def)

lemma status_fields_keep: "n \<notin> js_JobName ` set vs \<Longrightarrow> status_fields J vs m n = m n"
  by (induction vs arbitrary: m) auto

lemma status_fields_lookup:
  "distinct (map js_JobName vs) \<Longrightarrow> v \<in> set vs \<Longrightarrow> status_fields J vs m (js_JobName v) = Some (sj_marshal J v)"
  by (induction vs arbitrary: m) (auto simp: status_fields_keep)

lemma Update_hashes:
  assumes "hash_laws R hs" "vs \<noteq> []" "podName \<noteq> ''keys''"
  shows "hs (UpdateJobTaskStatus R J podName now vs r) =
     (hs r)(status_key podName := hs r (status_key podName) ++ status_fields J vs Map.empty, status_keys := (hs r status_keys)(podName \<mapsto> Itoa now))"
  using assms(2,3) status_key_keys[of podName] by (auto simp: UpdateJobTaskStatus_def Let_def hash_lawsD[OF assms(1)])

text \<open>Reading the states of a pod depends on two hashes.\<close>

lemma Get_cong:
  assumes "hash_laws R hs" "hs a status_keys q = hs b status_keys q" "hs a (status_key q) = hs b (status_key q)"
  shows "GetJobTasksStatus R J a q = GetJobTasksStatus R J b q"
  unfolding GetJobTasksStatus_def hash_lawsD(1)[OF assms(1)] assms(2,3) ..

section \<open>Properties\<close>


text \<open>A stop request reaches exactly the jobs it names, through Redis: when the request has been stored, which it reports, the next round of any pod that reads the
  flags, in whatever order, sends the stop sign to the jobs of this pod that the request names, all of them for a request without names, besides those
  flagged before; and after the flags have been cleared it sends none.\<close>

theorem stop_request_reaches_jobs:
  assumes "hash_laws R hs" and "StopJob names job \<noteq> []"
    and "set flags = Map.graph (GetStopFlags R (snd (StopJob_request R names job r)))"
  shows "fst (StopJob_request R names job r) \<and>
     (\<forall>jf. jf \<in> set (syncStopFlags_round flags job) \<longleftrightarrow> jf \<in> set (jb_Comsumers job @ jb_Crontabs job) \<and>
        (names = [] \<or> jt_JobName jf \<in> set names \<or> GetStopFlags R r (jt_JobName jf) = Some ''stop'')) \<and>
     GetStopFlags R (ClearStopFlags R r) = Map.empty"
proof -
  note H = hash_lawsD[OF assms(1)]
  have flag: "(n, ''stop'') \<in> set flags \<longleftrightarrow> n \<in> set (StopJob names job) \<or> GetStopFlags R r n = Some ''stop''" for n
    unfolding assms(3) using assms(2) by (auto simp: Map.graph_def GetStopFlags_def StopJob_request_def StopJobs_def Let_def H map_add_def)
  have up: "ToUpper ''OK'' = ''OK''" by code_simp
  have "jf \<in> set (syncStopFlags_round flags job) \<longleftrightarrow> jf \<in> set (jb_Comsumers job @ jb_Crontabs job) \<and> (jt_JobName jf, ''stop'') \<in> set flags" for jf
    by (auto simp: syncStopFlags_round_def split: if_splits)
  then show ?thesis
    using assms(2) up by (auto simp: flag StopJob_request_def StopJobs_def Let_def H StopJob_def GetStopFlags_def ClearStopFlags_def)
qed

section \<open>A server and a codec\<close>

definition hash_server :: "(string \<Rightarrow> string \<rightharpoonup> string) hredis" where
  "hash_server = \<lparr>hr_HMSet = (\<lambda>key m r. (''OK'', r(key := r key ++ m))), hr_HSet = (\<lambda>key f v r. r(key := (r key)(f \<mapsto> v))), hr_HGetAll = (\<lambda>key r. r key),
     hr_HDel = (\<lambda>key f r. r(key := (r key)(f := None))), hr_Del = (\<lambda>key r. r(key := Map.empty)), hr_Expire = (\<lambda>_ _ r. r)\<rparr>"

lemma hash_server_laws: "hash_laws hash_server (\<lambda>r. r)"
  by (simp add: hash_laws_def hash_server_def)

text \<open>Every string of a status is preceded by its length in unary.\<close>

definition put_str :: "string \<Rightarrow> string" where
  "put_str s = replicate (length s) (CHR ''1'') @ CHR ''0'' # s"

definition get_str :: "string \<Rightarrow> string \<times> string" where
  "get_str t = (let n = length (takeWhile (\<lambda>c. c = CHR ''1'') t); u = drop (n + 1) t in (take n u, drop n u))"

lemma get_put_str: "get_str (put_str s @ rest) = (s, rest)"
proof -
  have "takeWhile (\<lambda>c. c = CHR ''1'') (put_str s @ rest) = replicate (length s) (CHR ''1'')"
    by (simp add: put_str_def takeWhile_append)
  then show ?thesis by (simp add: get_str_def put_str_def)
qed

definition unary_json :: status_json where
  "unary_json = \<lparr>sj_marshal = (\<lambda>v. put_str (js_PodName v) @ put_str (js_JobName v) @ put_str (js_JobDesc v) @ put_str (js_Status v)),
     sj_unmarshal = (\<lambda>t. case get_str t of (p, t1) \<Rightarrow> case get_str t1 of (j, t2) \<Rightarrow> case get_str t2 of (d, t3) \<Rightarrow>
       Inr \<lparr>js_PodName = p, js_JobName = j, js_JobDesc = d, js_Status = fst (get_str t3)\<rparr>)\<rparr>"

lemma unary_json_codec: "status_codec unary_json"
  using get_put_str[of _ "[]"] by (simp add: status_codec_def unary_json_def get_put_str)


theorem stop_request_reaches_jobs_witness:
  "genJF ''b'' ''y'' [] True 2 \<in> set (syncStopFlags_round [(''b'', ''stop'')]
     \<lparr>jb_jobComsumerEnable = True, jb_jobCrontabEnable = False, jb_Comsumers = [genJF ''a'' ''x'' [] True 1, genJF ''b'' ''y'' [] True 2], jb_Crontabs = []\<rparr>)"
  (is "_ \<in> set (syncStopFlags_round ?flags ?job)")
proof -
  have "set ?flags = Map.graph (GetStopFlags hash_server (snd (StopJob_request hash_server [''b''] ?job (\<lambda>_. Map.empty))))"
    by (auto simp: Map.graph_def GetStopFlags_def StopJob_request_def StopJobs_def StopJob_def hash_server_def Let_def split: if_splits)
  from stop_request_reaches_jobs[OF hash_server_laws _ this] show ?thesis by (simp add: StopJob_def genJF_def)
qed

end
