(* ===== verification/Job_Lifecycle.thy ===== *)
theory Job_Lifecycle
  imports Job_Dao
begin

text \<open>
  The job service from its start to its end, and several pods that run it over one Redis server: \<^verbatim>\<open>main.go\<close>, \<open>NewJobSvr\<close>, \<open>Start\<close> and \<open>Close\<close> of
  \<^verbatim>\<open>service/svr.go\<close>, \<^verbatim>\<open>service/service.go\<close>, \<^verbatim>\<open>dao/dao.go\<close> and the signal handler of \<^verbatim>\<open>core/middleware/interceptor\<close>.  The tickers of a pod
  run until its process ends, also after \<open>Close\<close>.
\<close>

section \<open>Start and end of the process\<close>

text \<open>The configuration and the client of Redis are types of their own; making a client does not connect it and does not fail.\<close>

record ('conf, 'client) Dao =
  dao_Config :: 'conf
  dao_JobRedis :: 'client

record ('conf, 'client) Service =
  srv_Config :: 'conf
  srv_Dao :: "('conf, 'client) Dao"

definition dao_New :: "('conf \<Rightarrow> 'client) \<Rightarrow> 'conf \<Rightarrow> string + ('conf, 'client) Dao" where
  "dao_New newClient c = Inr \<lparr>dao_Config = c, dao_JobRedis = newClient c\<rparr>"

definition NewService :: "('conf \<Rightarrow> 'client) \<Rightarrow> 'conf \<Rightarrow> string + ('conf, 'client) Service" where
  "NewService newClient c = (case dao_New newClient c of Inl err \<Rightarrow> Inl err | Inr d \<Rightarrow> Inr \<lparr>srv_Config = c, srv_Dao = d\<rparr>)"

text \<open>A pod: its jobs, the scheduler it has made, the jobs it has started at once, the stop signs it has sent, in their order, and whether \<open>Close\<close> has been called.\<close>

record pod =
  pd_job :: Job
  pd_cron :: "JobTask Cron option"
  pd_started :: "JobTask list"
  pd_signs :: "JobTask list"
  pd_closed :: bool

definition resetAllStatus :: "'r hredis \<Rightarrow> 'r \<Rightarrow> 'r" where
  "resetAllStatus R r = ClearStopFlags R r"

definition pod_Start :: "'r hredis \<Rightarrow> Location \<Rightarrow> Job \<Rightarrow> 'r \<Rightarrow> pod \<times> 'r" where
  "pod_Start R loc job r =
     (let r1 = resetAllStatus R r; (consumers, cron) = Job_Start loc job
      in (\<lparr>pd_job = job, pd_cron = cron, pd_started = consumers, pd_signs = [], pd_closed = False\<rparr>, r1))"

text \<open>\<open>NewJobSvr\<close> takes the lists of jobs from the package, and panics when the service cannot be made.\<close>

definition NewJobSvr :: "('conf \<Rightarrow> 'client) \<Rightarrow> ('client \<Rightarrow> 'r hredis) \<Rightarrow> Location \<Rightarrow> JobTask list \<Rightarrow> JobTask list \<Rightarrow> 'conf \<Rightarrow> bool \<Rightarrow> bool \<Rightarrow> 'r \<Rightarrow> string + (pod \<times> 'r)" where
  "NewJobSvr newClient commands loc CronList ComsumerList conf jobComsumerEnable jobCrontabEnable r =
     (case NewService newClient conf of
        Inl err \<Rightarrow> Inl err
      | Inr srv \<Rightarrow> Inr (pod_Start (commands (dao_JobRedis (srv_Dao srv))) loc
          \<lparr>jb_jobComsumerEnable = jobComsumerEnable, jb_jobCrontabEnable = jobCrontabEnable, jb_Comsumers = ComsumerList, jb_Crontabs = CronList\<rparr> r))"

definition pod_Close :: "'r hredis \<Rightarrow> string \<Rightarrow> pod \<Rightarrow> 'r \<Rightarrow> pod \<times> 'r" where
  "pod_Close R podName pd r =
     (case Job_Close R podName (pd_job pd) (pd_cron pd) r of
        (signs, _, r1) \<Rightarrow> (pd\<lparr>pd_signs := pd_signs pd @ signs, pd_closed := True\<rparr>, r1))"

text \<open>\<open>Reload\<close> waits for a signal and then calls \<open>cls\<close> or not; \<open>None\<close> while no signal has come.\<close>

definition Reload :: "('s \<Rightarrow> 's) \<Rightarrow> os_signal list \<Rightarrow> 's \<Rightarrow> 's option" where
  "Reload cls signals s =
     (case signals of
        [] \<Rightarrow> None
      | sg # _ \<Rightarrow> Some (if sg \<in> {SIGQUIT, SIGTERM, SIGSTOP, SIGINT, SIGHUP} then cls s else s))"

text \<open>\<open>main\<close>: the two kinds of jobs are enabled by variables set at build time.\<close>

definition job_main :: "('conf \<Rightarrow> 'client) \<Rightarrow> ('client \<Rightarrow> 'r hredis) \<Rightarrow> Location \<Rightarrow> JobTask list \<Rightarrow> JobTask list \<Rightarrow> 'conf \<Rightarrow> string \<Rightarrow> string \<Rightarrow> string
    \<Rightarrow> os_signal list \<Rightarrow> 'r \<Rightarrow> string + (pod \<times> 'r) option" where
  "job_main newClient commands loc CronList ComsumerList conf podName JobComsumer JobCrontab signals r =
     (case NewJobSvr newClient commands loc CronList ComsumerList conf (JobComsumer = ''open'') (JobCrontab = ''open'') r of
        Inl err \<Rightarrow> Inl err
      | Inr s \<Rightarrow> Inr (Reload (\<lambda>(pd, r). pod_Close (commands (newClient conf)) podName pd r) signals s))"

section \<open>Pods over one server\<close>

text \<open>What happens in a cluster, with the pod it happens in: a pod starts, gets a stop request, reads the flags, in some order, stores its states, closes, or its
  process ends; or a job changes its state.\<close>

datatype event = Pod_starts string Job | Stop_request string "string list" | Flags_tick string "(string \<times> string) list" | Status_tick string int
  | Pod_closes string | Pod_ends string | Job_changes string Job

record 'r cluster =
  cl_redis :: 'r
  cl_pods :: "string \<Rightarrow> pod option"

definition set_pod :: "string \<Rightarrow> pod \<Rightarrow> 'r \<Rightarrow> 'r cluster \<Rightarrow> 'r cluster" where
  "set_pod p pd r s = s\<lparr>cl_redis := r, cl_pods := (cl_pods s)(p \<mapsto> pd)\<rparr>"

inductive cluster_step :: "'r hredis \<Rightarrow> status_json \<Rightarrow> Location \<Rightarrow> 'r cluster \<Rightarrow> event \<Rightarrow> 'r cluster \<Rightarrow> bool"
  for R :: "'r hredis" and J :: status_json and loc :: Location where
  starts: "cl_pods s p = None \<Longrightarrow> pod_Start R loc job (cl_redis s) = (pd, r) \<Longrightarrow> cluster_step R J loc s (Pod_starts p job) (set_pod p pd r s)"
| requested: "cl_pods s p = Some pd \<Longrightarrow> cluster_step R J loc s (Stop_request p names) (s\<lparr>cl_redis := snd (StopJob_request R names (pd_job pd) (cl_redis s))\<rparr>)"
| flags_tick: "cl_pods s p = Some pd \<Longrightarrow> set flags = Map.graph (GetStopFlags R (cl_redis s)) \<Longrightarrow>
    cluster_step R J loc s (Flags_tick p flags) (set_pod p (pd\<lparr>pd_signs := pd_signs pd @ syncStopFlags_round flags (pd_job pd)\<rparr>) (cl_redis s) s)"
| status_tick: "cl_pods s p = Some pd \<Longrightarrow>
    cluster_step R J loc s (Status_tick p now) (s\<lparr>cl_redis := syncJobTaskStatus_tick R J p now (pd_job pd) (cl_redis s)\<rparr>)"
| closes: "cl_pods s p = Some pd \<Longrightarrow> \<not> pd_closed pd \<Longrightarrow> pod_Close R p pd (cl_redis s) = (pd', r) \<Longrightarrow> cluster_step R J loc s (Pod_closes p) (set_pod p pd' r s)"
| ends: "cl_pods s p = Some pd \<Longrightarrow> cluster_step R J loc s (Pod_ends p) (s\<lparr>cl_pods := (cl_pods s)(p := None)\<rparr>)"
| changes: "cl_pods s p = Some pd \<Longrightarrow> map jt_JobName (jb_Comsumers job) = map jt_JobName (jb_Comsumers (pd_job pd)) \<Longrightarrow>
    map jt_JobName (jb_Crontabs job) = map jt_JobName (jb_Crontabs (pd_job pd)) \<Longrightarrow>
    cluster_step R J loc s (Job_changes p job) (set_pod p (pd\<lparr>pd_job := job\<rparr>) (cl_redis s) s)"

inductive cluster_run :: "'r hredis \<Rightarrow> status_json \<Rightarrow> Location \<Rightarrow> 'r cluster \<Rightarrow> event list \<Rightarrow> 'r cluster \<Rightarrow> bool"
  for R :: "'r hredis" and J :: status_json and loc :: Location where
  run_nil: "cluster_run R J loc s [] s"
| run_step: "cluster_step R J loc s ev s1 \<Longrightarrow> cluster_run R J loc s1 evs s2 \<Longrightarrow> cluster_run R J loc s (ev # evs) s2"

inductive_cases run_ConsE: "cluster_run R J loc s (ev # evs) s'"
inductive_cases flags_tickE: "cluster_step R J loc s (Flags_tick p flags) s'"
inductive_cases closesE: "cluster_step R J loc s (Pod_closes p) s'"
inductive_cases startsE: "cluster_step R J loc s (Pod_starts p job) s'"

section \<open>Properties\<close>

lemma stop_map_keys [simp]: "stop_map \<noteq> status_keys" "stop_map \<noteq> status_key p" "status_keys \<noteq> stop_map" "status_key p \<noteq> stop_map"
  by (simp_all add: stop_map_def status_keys_def status_key_def)

definition is_start :: "event \<Rightarrow> bool" where
  "is_start ev = (case ev of Pod_starts _ _ \<Rightarrow> True | _ \<Rightarrow> False)"

definition is_request :: "event \<Rightarrow> bool" where
  "is_request ev = (case ev of Stop_request _ _ \<Rightarrow> True | _ \<Rightarrow> False)"

definition ticks :: "string \<Rightarrow> event \<Rightarrow> bool" where
  "ticks p ev = (case ev of Status_tick q _ \<Rightarrow> q = p | _ \<Rightarrow> False)"

text \<open>The flags change by the start of a pod and by requests only.\<close>

lemma tick_flags:
  assumes "hash_laws R hs"
  shows "GetStopFlags R (syncJobTaskStatus_tick R J p now job r) = GetStopFlags R r" "GetStopFlags R (ClearAllJobTaskStatus R p r) = GetStopFlags R r"
  using hash_lawsD[OF assms]
  by (simp_all add: GetStopFlags_def syncJobTaskStatus_tick_def UpdateJobTaskStatus_def ClearAllJobTaskStatus_def Let_def)

lemma request_flags:
  assumes "hash_laws R hs"
  shows "GetStopFlags R (snd (StopJob_request R names job r)) n = (if n \<in> set (StopJob names job) then Some ''stop'' else GetStopFlags R r n)"
  using hash_lawsD[OF assms] by (auto simp: GetStopFlags_def StopJob_request_def StopJobs_def Let_def map_add_def)

lemma start_flags:
  assumes "hash_laws R hs" "pod_Start R loc job r = (pd, r')"
  shows "GetStopFlags R r' = Map.empty"
  using hash_lawsD[OF assms(1)] assms(2) by (auto simp: pod_Start_def resetAllStatus_def ClearStopFlags_def GetStopFlags_def Let_def split: prod.splits)

lemma step_keeps_flag:
  assumes "hash_laws R hs" "cluster_step R J loc s ev s'" "\<not> is_start ev" "GetStopFlags R (cl_redis s) n = Some ''stop''"
  shows "GetStopFlags R (cl_redis s') n = Some ''stop''"
  using assms(2)
  by (cases rule: cluster_step.cases)
     (use assms(3,4) in \<open>auto simp: is_start_def set_pod_def pod_Close_def Job_Close_def tick_flags[OF assms(1)] request_flags[OF assms(1)]\<close>)

lemma step_adds_no_flag:
  assumes "hash_laws R hs" "cluster_step R J loc s ev s'" "\<not> is_request ev" "GetStopFlags R (cl_redis s) = Map.empty"
  shows "GetStopFlags R (cl_redis s') = Map.empty"
  using assms(2)
  by (cases rule: cluster_step.cases)
     (use assms(3,4) in \<open>auto simp: is_request_def set_pod_def pod_Close_def Job_Close_def tick_flags[OF assms(1)] dest: start_flags[OF assms(1)]\<close>)

text \<open>What a step keeps, a run keeps.\<close>

lemma run_keeps:
  assumes "cluster_run R J loc s evs s'" "list_all ok evs" "P s" "\<And>u ev u'. cluster_step R J loc u ev u' \<Longrightarrow> ok ev \<Longrightarrow> P u \<Longrightarrow> P u'"
  shows "P s'"
  using assms(1-3) by (induction rule: cluster_run.induct) (auto dest: assms(4))

lemma tick_signs:
  assumes "cluster_step R J loc s (Flags_tick q flags) s'" "cl_pods s q = Some pd"
  shows "cl_pods s' q = Some (pd\<lparr>pd_signs := pd_signs pd @ syncStopFlags_round flags (pd_job pd)\<rparr>) \<and> set flags = Map.graph (GetStopFlags R (cl_redis s))"
  using assms by (auto simp: set_pod_def elim!: flags_tickE)

lemma in_round:
  "jf \<in> set (syncStopFlags_round flags job) \<longleftrightarrow> jf \<in> set (jb_Comsumers job @ jb_Crontabs job) \<and> (jt_JobName jf, ''stop'') \<in> set flags"
  by (auto simp: syncStopFlags_round_def split: if_splits)


text \<open>And no longer: after a pod has started, as long as there is no new request, no round of any pod sends a stop sign, whatever was requested before.\<close>

theorem start_erases_requests:
  assumes "hash_laws R hs" and "cluster_step R J loc s (Pod_starts p job) s1"
    and "cluster_run R J loc s1 evs s2" and "list_all (\<lambda>ev. \<not> is_request ev) evs" and "cluster_step R J loc s2 (Flags_tick q flags) s3"
  shows "cl_pods s3 q = cl_pods s2 q"
proof -
  have "GetStopFlags R (cl_redis s1) = Map.empty" using assms(2) start_flags[OF assms(1)] by (auto simp: set_pod_def elim!: startsE)
  then have "GetStopFlags R (cl_redis s2) = Map.empty"
    using run_keeps[OF assms(3,4), of "\<lambda>u. GetStopFlags R (cl_redis u) = Map.empty"] step_adds_no_flag[OF assms(1)] by blast
  moreover obtain pd where "cl_pods s2 q = Some pd" using assms(5) by (auto elim: flags_tickE)
  ultimately show ?thesis using tick_signs[OF assms(5)] by (auto simp: Map.graph_def syncStopFlags_round_def)
qed

subsection \<open>Closing\<close>

text \<open>A pod is listed while the hash of the pods has its name, and only a round of its own states enters it.\<close>

lemma listed_iff: "hash_laws R hs \<Longrightarrow> GetJobTasksStatus R J r p = None \<longleftrightarrow> hs r status_keys p = None"
  by (simp add: GetJobTasksStatus_def hash_lawsD(1) split: option.splits)

definition keys_pod :: "event \<Rightarrow> bool" where
  "keys_pod ev = (case ev of Status_tick q _ \<Rightarrow> q = ''keys'' | Pod_closes q \<Rightarrow> q = ''keys'' | _ \<Rightarrow> False)"

lemma tick_listed:
  assumes "hash_laws R hs" "q \<noteq> ''keys''"
  shows "hs (syncJobTaskStatus_tick R J q now job r) status_keys =
     (if syncJobTaskStatus_round q job = [] then hs r status_keys else (hs r status_keys)(q \<mapsto> Itoa now))"
  using Update_hashes[OF assms(1) _ assms(2)] by (auto simp: syncJobTaskStatus_tick_def UpdateJobTaskStatus_def)

lemma step_unlisted:
  assumes "hash_laws R hs" "cluster_step R J loc s ev s'" "\<not> ticks p ev \<and> \<not> keys_pod ev" "hs (cl_redis s) status_keys p = None"
  shows "hs (cl_redis s') status_keys p = None"
  using assms(2)
proof (cases rule: cluster_step.cases)
  case (status_tick q pd now)
  then show ?thesis using assms(3,4) by (auto simp: ticks_def keys_pod_def tick_listed[OF assms(1)])
qed (use assms(3,4) hash_lawsD[OF assms(1)] in \<open>auto simp: set_pod_def pod_Start_def resetAllStatus_def ClearStopFlags_def StopJob_request_def StopJobs_def pod_Close_def
      Job_Close_def ClearAllJobTaskStatus_def keys_pod_def status_key_keys Let_def split: prod.splits\<close>)

text \<open>A pod that has closed and stores no states afterwards is not listed any more.\<close>

theorem closed_pod_unlisted:
  assumes "hash_laws R hs" and "cluster_step R J loc s (Pod_closes p) s1" and "cluster_run R J loc s1 evs s2" and "list_all (\<lambda>ev. \<not> ticks p ev \<and> \<not> keys_pod ev) evs"
  shows "GetJobTasksStatus R J (cl_redis s2) p = None"
proof -
  have "hs (cl_redis s1) status_keys p = None"
    using assms(2) hash_lawsD[OF assms(1)] by (auto simp: set_pod_def pod_Close_def Job_Close_def ClearAllJobTaskStatus_def elim!: closesE)
  then have "hs (cl_redis s2) status_keys p = None"
    using run_keeps[OF assms(3,4), of "\<lambda>u. hs (cl_redis u) status_keys p = None"] step_unlisted[OF assms(1)] by blast
  then show ?thesis by (simp add: listed_iff[OF assms(1)])
qed

text \<open>But the ticker goes on until the process ends, three seconds after \<open>Close\<close> at the earliest: its next round enters the pod again.\<close>

theorem closed_pod_listed_again:
  assumes "hash_laws R hs" and "p \<noteq> ''keys''" and "cl_pods s p = Some pd" and "pd_closed pd" and "syncJobTaskStatus_round p (pd_job pd) \<noteq> []"
  shows "\<exists>s2. cluster_run R J loc s [Status_tick p now, Pod_ends p] s2 \<and> cl_pods s2 p = None \<and> GetJobTasksStatus R J (cl_redis s2) p \<noteq> None"
proof -
  let ?s1 = "s\<lparr>cl_redis := syncJobTaskStatus_tick R J p now (pd_job pd) (cl_redis s)\<rparr>"
  let ?s2 = "?s1\<lparr>cl_pods := (cl_pods ?s1)(p := None)\<rparr>"
  have "cluster_step R J loc s (Status_tick p now) ?s1" using assms(3) by (rule status_tick)
  moreover have "cluster_step R J loc ?s1 (Pod_ends p) ?s2" by (rule ends) (simp add: assms(3))
  ultimately have "cluster_run R J loc s [Status_tick p now, Pod_ends p] ?s2" by (blast intro: run_step run_nil)
  moreover have "GetJobTasksStatus R J (cl_redis ?s2) p \<noteq> None"
    using assms(5) by (simp add: listed_iff[OF assms(1)] tick_listed[OF assms(1,2)])
  moreover have "cl_pods ?s2 p = None" by simp
  ultimately show ?thesis by blast
qed

subsection \<open>The process\<close>

text \<open>The service is always made, and clears the flags of all pods; the process then closes it for each of the five signals, and ends without closing it for any other.\<close>

theorem job_main_closes:
  assumes "pod_Start (commands (newClient conf)) loc
     \<lparr>jb_jobComsumerEnable = (JobComsumer = ''open''), jb_jobCrontabEnable = (JobCrontab = ''open''), jb_Comsumers = ComsumerList, jb_Crontabs = CronList\<rparr> r = (pd, r1)"
  shows "job_main newClient commands loc CronList ComsumerList conf podName JobComsumer JobCrontab (sg # signals) r =
     Inr (Some (if sg \<in> {SIGQUIT, SIGTERM, SIGSTOP, SIGINT, SIGHUP} then pod_Close (commands (newClient conf)) podName pd r1 else (pd, r1)))"
  using assms by (simp add: job_main_def NewJobSvr_def NewService_def dao_New_def Reload_def)

text \<open>A request for one of two jobs, while the other pod stores its states.\<close>

definition example_pod :: pod where
  "example_pod = \<lparr>pd_job = \<lparr>jb_jobComsumerEnable = True, jb_jobCrontabEnable = False, jb_Comsumers = [genJF ''a'' ''x'' [] True 1, genJF ''b'' ''y'' [] True 2], jb_Crontabs = []\<rparr>,
     pd_cron = None, pd_started = [], pd_signs = [], pd_closed = False\<rparr>"


end
