(* ===== verification/Ants_Pool.thy ===== *)
theory Ants_Pool
  imports Prelude
begin

text \<open>
  The goroutine pool of \<^verbatim>\<open>ants.go\<close>.  A worker is named by its number; \<open>an_busy\<close> are the workers with the task in their channel or in hand.  A submitted function
  is \<open>Some f\<close>, or \<open>None\<close> for nil; which functions panic is an argument.  The model is of one submitting goroutine: \<open>Submit\<close> runs from its test to its send, and
  the workers finish in between.
\<close>

record 'f AntsPool =
  an_cap :: int
  an_running :: int
  an_workers :: "nat list"
  an_release :: int
  an_lock :: bool
  an_workerCache :: "nat list"
  an_busy :: "(nat \<times> 'f option) list"
  an_next :: nat
  an_called :: "'f list"

definition incRunning :: "'f AntsPool \<Rightarrow> 'f AntsPool" where
  "incRunning p = p\<lparr>an_running := to_int32 (an_running p + 1)\<rparr>"

definition decRunning :: "'f AntsPool \<Rightarrow> 'f AntsPool" where
  "decRunning p = p\<lparr>an_running := to_int32 (an_running p - 1)\<rparr>"

definition Running :: "'f AntsPool \<Rightarrow> int" where
  "Running p = an_running p"

definition Cap :: "'f AntsPool \<Rightarrow> int" where
  "Cap p = an_cap p"

text \<open>The pool that \<open>NewPoolAnts\<close> makes: its lock is a nil pointer to a mutex.\<close>

definition NewPoolAnts :: "int \<Rightarrow> 'f AntsPool" where
  "NewPoolAnts n =
     (let n = (if n < 1 then 1 else n)
      in \<lparr>an_cap = to_int32 n, an_running = 0, an_workers = [], an_release = 0, an_lock = False, an_workerCache = [], an_busy = [], an_next = 0, an_called = []\<rparr>)"

text \<open>The first section of \<open>retrieveWorker\<close>: take the last idle worker, or create one, or wait; and the section after a wait, which is left again when there is no
  idle worker.\<close>

datatype retrieved = Take nat | Create | Wait

definition retrieveWorker :: "'f AntsPool \<Rightarrow> retrieved \<times> 'f AntsPool" where
  "retrieveWorker p =
     (let idleWorkers = an_workers p; n = int (length idleWorkers) - 1
      in if n \<ge> 0 then (Take (idleWorkers ! nat n), p\<lparr>an_workers := take (nat n) idleWorkers\<rparr>)
         else if Running p < Cap p then (Create, p)
         else (Wait, p))"

definition retrieveWorker_woken :: "'f AntsPool \<Rightarrow> nat option \<times> 'f AntsPool" where
  "retrieveWorker_woken p =
     (let l = int (length (an_workers p)) - 1
      in if l < 0 then (None, p) else (Some (an_workers p ! nat l), p\<lparr>an_workers := take (nat l) (an_workers p)\<rparr>))"

text \<open>A worker comes from the cache when it holds one; its goroutine is started by \<open>run\<close>.\<close>

definition create_worker :: "'f AntsPool \<Rightarrow> nat \<times> 'f AntsPool" where
  "create_worker p =
     (case an_workerCache p of
        w # ws \<Rightarrow> (w, incRunning (p\<lparr>an_workerCache := ws\<rparr>))
      | [] \<Rightarrow> (an_next p, incRunning (p\<lparr>an_next := an_next p + 1\<rparr>)))"

datatype submitted = Accepted nat | Closed | Waiting

definition Submit :: "'f option \<Rightarrow> 'f AntsPool \<Rightarrow> (submitted \<times> 'f AntsPool) may_panic" where
  "Submit task p =
     (if an_release p = 1 then Inr (Closed, p)
      else if \<not> an_lock p then Inl NilDereference
      else case retrieveWorker p of
             (Take w, p1) \<Rightarrow> Inr (Accepted w, p1\<lparr>an_busy := (w, task) # an_busy p1\<rparr>)
           | (Create, p1) \<Rightarrow> (case create_worker p1 of (w, p2) \<Rightarrow> Inr (Accepted w, p2\<lparr>an_busy := (w, task) # an_busy p2\<rparr>))
           | (Wait, p1) \<Rightarrow> Inr (Waiting, p1))"

definition revertWorker :: "nat \<Rightarrow> 'f AntsPool \<Rightarrow> 'f AntsPool" where
  "revertWorker w p = p\<lparr>an_workers := an_workers p @ [w]\<rparr>"

text \<open>A busy worker handles its task: a function is called and the worker goes back to the pool; when it panics, the deferred function decreases the count and
  the goroutine ends.  For a nil function the count is decreased and the worker put into the cache, and the call that follows panics, too.\<close>

definition worker_turn :: "('f \<Rightarrow> bool) \<Rightarrow> nat \<Rightarrow> 'f option \<Rightarrow> 'f AntsPool \<Rightarrow> 'f AntsPool" where
  "worker_turn panics w fn p =
     (let p1 = p\<lparr>an_busy := remove1 (w, fn) (an_busy p)\<rparr>
      in case fn of
           None \<Rightarrow> decRunning ((decRunning p1)\<lparr>an_workerCache := w # an_workerCache p1\<rparr>)
         | Some f \<Rightarrow>
             let p2 = p1\<lparr>an_called := f # an_called p1\<rparr>
             in if panics f then decRunning p2 else revertWorker w p2)"

inductive ants_step :: "('f \<Rightarrow> bool) \<Rightarrow> 'f AntsPool \<Rightarrow> 'f AntsPool may_panic \<Rightarrow> bool" for panics where
  submit: "ants_step panics p (case Submit (Some f) p of Inl e \<Rightarrow> Inl e | Inr (_, p1) \<Rightarrow> Inr p1)"
| turn: "(w, fn) \<in> set (an_busy p) \<Longrightarrow> ants_step panics p (Inr (worker_turn panics w fn p))"

section \<open>Properties\<close>

text \<open>A pool made by \<open>NewPoolAnts\<close> cannot be used.\<close>

theorem NewPoolAnts_Submit_panics: "Submit task (NewPoolAnts n) = Inl NilDereference"
  by (simp add: Submit_def NewPoolAnts_def Let_def)

text \<open>A nil function is counted twice.\<close>

theorem nil_task_counted_twice:
  "an_running (worker_turn panics w None p) = to_int32 (to_int32 (an_running p - 1) - 1)"
  by (simp add: worker_turn_def decRunning_def Let_def)

definition ants_inv :: "'f AntsPool \<Rightarrow> bool" where
  "ants_inv p \<longleftrightarrow> distinct (an_workers p @ map fst (an_busy p)) \<and> (\<forall>w \<in> set (an_workers p @ map fst (an_busy p)). w < an_next p)
     \<and> an_running p = int (length (an_workers p) + length (an_busy p)) \<and> an_running p \<le> an_cap p \<and> an_cap p < 2 ^ 31
     \<and> an_workerCache p = [] \<and> (\<forall>x \<in> set (an_busy p). snd x \<noteq> None) \<and> an_lock p \<and> an_release p = 0"

lemma to_int32_small: "0 \<le> x \<Longrightarrow> x < 2 ^ 31 \<Longrightarrow> to_int32 x = x"
  by (rule to_int32_id) simp_all

lemma idle_last: "xs \<noteq> [] \<Longrightarrow> nat (int (length xs) - 1) = length xs - 1"
  by (cases xs) auto

lemma Submit_inv:
  assumes "ants_inv p"
  shows "\<exists>r p1. Submit (Some f) p = Inr (r, p1) \<and> ants_inv p1 \<and> an_called p1 = an_called p \<and> an_cap p1 = an_cap p
     \<and> (r = Waiting \<longleftrightarrow> an_workers p = [] \<and> length (an_busy p) = nat (an_cap p)) \<and> r \<noteq> Closed"
proof (cases "an_workers p" rule: rev_cases)
  case Nil
  show ?thesis
  proof (cases "an_running p < an_cap p")
    case True
    then have "to_int32 (an_running p + 1) = an_running p + 1" using assms by (intro to_int32_small) (auto simp: ants_inv_def)
    moreover have "an_next p \<notin> set (map fst (an_busy p))" using assms by (auto simp: ants_inv_def)
    ultimately show ?thesis
      using assms Nil True
      by (force simp: Submit_def retrieveWorker_def create_worker_def incRunning_def Running_def Cap_def ants_inv_def Let_def)
  next
    case False
    then show ?thesis using assms Nil
      by (auto simp: Submit_def retrieveWorker_def Running_def Cap_def ants_inv_def Let_def)
  qed
next
  case (snoc ws w)
  then show ?thesis using assms by (auto simp: Submit_def retrieveWorker_def ants_inv_def Let_def nth_append)
qed

lemma turn_inv:
  assumes "ants_inv p" "(w, fn) \<in> set (an_busy p)"
  shows "ants_inv (worker_turn panics w fn p)"
proof -
  obtain f where f: "fn = Some f" using assms by (auto simp: ants_inv_def)
  obtain xs ys where b: "an_busy p = xs @ (w, fn) # ys" "(w, fn) \<notin> set xs" using split_list_first[OF assms(2)] by blast
  then have r: "remove1 (w, fn) (an_busy p) = xs @ ys" by (simp add: remove1_append)
  have "to_int32 (an_running p - 1) = an_running p - 1" using assms(1) b by (intro to_int32_small) (auto simp: ants_inv_def)
  then show ?thesis using assms(1) b r f
    by (auto simp: worker_turn_def decRunning_def revertWorker_def ants_inv_def Let_def)
qed

lemma ants_step_result:
  assumes "ants_inv p" "ants_step panics p r"
  shows "case r of Inl e \<Rightarrow> False | Inr p' \<Rightarrow> ants_inv p' \<and> an_cap p' = an_cap p"
  using assms(2)
proof cases
  case (submit f)
  obtain x p1 where "Submit (Some f) p = Inr (x, p1)" "ants_inv p1" "an_cap p1 = an_cap p" using Submit_inv[OF assms(1)] by blast
  then show ?thesis using submit by simp
next
  case (turn w fn)
  then show ?thesis using turn_inv[OF assms(1)] by (simp add: worker_turn_def decRunning_def revertWorker_def Let_def split: option.splits)
qed

lemma ants_step_cap: "ants_inv p \<Longrightarrow> ants_step panics p (Inr p') \<Longrightarrow> an_cap p' = an_cap p"
  using ants_step_result[of p panics "Inr p'"] by simp

interpretation ants: panics_only "ants_step panics" ants_inv "\<lambda>_ _. False" for panics
proof
  fix p r
  assume "ants_inv p" "ants_step panics p r"
  then show "case r of Inl e \<Rightarrow> False | Inr p' \<Rightarrow> ants_inv p'" using ants_step_result[of p panics r] by (cases r) simp_all
qed

definition ants_pool :: "int \<Rightarrow> 'f AntsPool" where
  "ants_pool n = (NewPoolAnts n)\<lparr>an_lock := True\<rparr>"

lemma ants_pool_inv: "n < 2 ^ 31 \<Longrightarrow> ants_inv (ants_pool n)"
  by (simp add: ants_inv_def ants_pool_def NewPoolAnts_def to_int32_small Let_def)


lemma ants_example: "reach (ants_step (\<lambda>_. False)) (ants_pool 1) ((ants_pool 1)\<lparr>an_running := 1, an_next := 1, an_busy := [(0, Some (7::nat))]\<rparr>)"
proof -
  have "Submit (Some 7) (ants_pool 1) = Inr (Accepted 0, (ants_pool 1)\<lparr>an_running := 1, an_next := 1, an_busy := [(0, Some (7::nat))]\<rparr>)"
    by (simp add: Submit_def retrieveWorker_def create_worker_def incRunning_def Running_def Cap_def ants_pool_def NewPoolAnts_def to_int32_def Let_def)
  then have "ants_step (\<lambda>_. False) (ants_pool 1) (Inr ((ants_pool 1)\<lparr>an_running := 1, an_next := 1, an_busy := [(0, Some (7::nat))]\<rparr>))"
    using ants_step.submit[of "\<lambda>_. False" "ants_pool 1" "7::nat"] by simp
  then show ?thesis by (rule reach_step[OF rtranclp.rtrancl_refl])
qed


text \<open>The test against the capacity and the increment of the count are not in one section: two submitters that test one after the other before either has increased the
  count both create a worker, and the capacity is exceeded.\<close>

theorem two_submitters_exceed_capacity:
  assumes "an_workers p = []" "an_running p = an_cap p - 1" "an_workerCache p = []" "0 < an_cap p" "an_cap p < 2 ^ 31 - 1"
  shows "retrieveWorker p = (Create, p) \<and> retrieveWorker (snd (retrieveWorker p)) = (Create, p)
     \<and> Running (snd (create_worker (snd (create_worker p)))) = Cap p + 1"
  using assms by (simp add: retrieveWorker_def create_worker_def incRunning_def Running_def Cap_def to_int32_small)

end
