(* ===== verification/Watcher.thy ===== *)
theory Watcher
  imports Go_Strings
begin

text \<open>
  The process watcher of \<^verbatim>\<open>watch\<close>: the command line information and its check (\<^verbatim>\<open>watch/info.go\<close>), the choice of the monitor
  (\<^verbatim>\<open>watch/monitor/factory\<close>), and the executor (\<^verbatim>\<open>watch/executor\<close>): the loop that takes the signals, the waiting times of \<open>stop\<close>, and \<open>stop\<close>
  itself.  The operating system is an argument: what \<open>os.Stat\<close> says of a path, and whether the child has exited at a time.
\<close>

section \<open>Information\<close>

record Info =
  wi_Cmd :: string
  wi_Args :: "string list"
  wi_Folder :: "string list"
  wi_Files :: "string list"
  wi_Delay :: int
  wi_Signal :: int
  wi_Timeout :: int
  wi_AutoRestart :: bool
  wi_PreCmd :: string
  wi_PreCmdTimeout :: int
  wi_PreCmdIgnoreError :: bool
  wi_Pattern :: string

definition NewInfo :: "bool \<Rightarrow> Info" where
  "NewInfo windows =
     \<lparr>wi_Cmd = [], wi_Args = [], wi_Folder = [], wi_Files = [], wi_Delay = 2, wi_Signal = (if windows then 9 else 15), wi_Timeout = 5,
      wi_AutoRestart = False, wi_PreCmd = [], wi_PreCmdTimeout = 10, wi_PreCmdIgnoreError = False, wi_Pattern = ''poll''\<rparr>"

definition TrimSpace :: "string \<Rightarrow> string" where
  "TrimSpace s = rev (dropWhile is_space (rev (dropWhile is_space s)))"

definition slashes :: "string \<Rightarrow> string" where
  "slashes v = map (\<lambda>c. if c = CHR 0x5C then CHR ''/'' else c) v"

definition EqualFold :: "string \<Rightarrow> string \<Rightarrow> bool" where
  "EqualFold s t \<longleftrightarrow> ToLower s = ToLower t"

text \<open>\<open>os.Stat\<close> of a path: an error, a directory, or something else.  \<open>log.Fatal\<close> ends the process, which is the result \<open>None\<close>.\<close>

datatype stat = SError | SDir | SFile

definition Filter :: "(string \<Rightarrow> stat) \<Rightarrow> Info \<Rightarrow> Info option" where
  "Filter stat i =
     (let cmd = TrimSpace (wi_Cmd i); args = filter (\<lambda>v. length v > 0) (map TrimSpace (wi_Args i));
          folders = map (\<lambda>v. TrimSpace (slashes v)) (wi_Folder i); files = map (\<lambda>v. TrimSpace (slashes v)) (wi_Files i)
      in if cmd = [] then None
         else if \<not> list_all (\<lambda>v. stat v = SDir) folders then None
         else if \<not> list_all (\<lambda>v. stat v = SFile) files then None
         else if length folders = 0 \<and> length files = 0 then None
         else if EqualFold (wi_Pattern i) ''poll'' \<and> \<not> EqualFold (wi_Pattern i) ''notify'' then None
         else Some (i\<lparr>wi_Cmd := cmd, wi_Args := args, wi_Folder := folders, wi_Files := files, wi_PreCmd := TrimSpace (wi_PreCmd i),
                     wi_PreCmdTimeout := (if wi_PreCmdTimeout i \<le> 0 then 1 else wi_PreCmdTimeout i)\<rparr>))"

datatype monitor = Poll | Notify

definition factory_New :: "string \<Rightarrow> monitor option" where
  "factory_New pattern = (if EqualFold pattern ''poll'' then Some Poll else if EqualFold pattern ''notify'' then Some Notify else None)"

section \<open>Waiting times\<close>

text \<open>The loop of \<open>chunk\<close>; \<open>timeout\<close> is what is left after the first second.\<close>

partial_function (option) chunk_loop :: "int \<Rightarrow> int \<Rightarrow> int \<Rightarrow> int \<Rightarrow> int list option" where
  "chunk_loop timeout exist cur tot =
     (let cur = cur * 2; tot = tot + cur
      in if tot > timeout then Some (if timeout - exist > 0 then [1] else [])
         else Option.bind (chunk_loop timeout (exist + cur) cur tot) (\<lambda>res. Some (cur # res)))"

definition chunk :: "int \<Rightarrow> int list option" where
  "chunk timeout =
     (let timeout = (if timeout < 2 then 1 else timeout)
      in case chunk_loop (timeout - 1) 0 1 0 of None \<Rightarrow> None | Some res \<Rightarrow> Some (1 # res))"

section \<open>Stopping the child\<close>

text \<open>Times are milliseconds since the signal was sent.  \<open>exited t\<close> says whether the child has exited at the time.  The loop yields the time after it and whether
  it has set \<open>cmd\<close> to nil.\<close>

fun stop_loop :: "(int \<Rightarrow> bool) \<Rightarrow> int list \<Rightarrow> int \<Rightarrow> int \<times> bool" where
  "stop_loop exited [] t = (t, False)"
| "stop_loop exited (v # vs) t = (if exited t then (t, True) else stop_loop exited vs (t + v * 1000))"

text \<open>\<open>stop\<close> returns at a time, with or without \<open>cmd\<close> nil, or the process ends.\<close>

datatype stopped = Stopped_at int bool | Process_exits

definition stop :: "bool \<Rightarrow> bool \<Rightarrow> (int \<Rightarrow> bool) \<Rightarrow> int \<Rightarrow> stopped option" where
  "stop cmd signal_fails exited timeout =
     (if \<not> cmd \<or> exited 0 then Some (Stopped_at 0 True)
      else if signal_fails then Some Process_exits
      else case chunk timeout of
        None \<Rightarrow> None
      | Some stopTimeout \<Rightarrow>
          (case stop_loop exited stopTimeout 200 of
             (t, True) \<Rightarrow> Some (Stopped_at t True)
           | (t, False) \<Rightarrow>
               if exited t then Some (Stopped_at t False)
               else if exited (t + 5000) then Some (Stopped_at (t + 5000) True)
               else Some Process_exits))"

section \<open>The signal loop\<close>

definition SIGNAL_START :: string where "SIGNAL_START = ''start''"
definition SIGNAL_STOP :: string where "SIGNAL_STOP = ''stop''"
definition SIGNAL_KILL :: string where "SIGNAL_KILL = ''kill''"
definition SIGNAL_CANCEL_OBSTRUCT :: string where "SIGNAL_CANCEL_OBSTRUCT = ''continue''"

text \<open>What a goroutine that calls \<open>Start\<close>, \<open>Stop\<close> or \<open>Kill\<close> has still to send: to the channel \<open>signal\<close>, which has no buffer, or to the buffered channel
  \<open>jump\<close>.\<close>

datatype send = To_signal string | To_jump string

definition exec_Start :: "send list" where "exec_Start = [To_signal SIGNAL_START]"
definition exec_Stop :: "send list" where "exec_Stop = [To_signal SIGNAL_STOP]"
definition exec_Kill :: "send list" where "exec_Kill = [To_jump SIGNAL_KILL, To_signal SIGNAL_CANCEL_OBSTRUCT]"

text \<open>The loop: at its outer \<open>select\<close>, waiting in the inner one, within a call of \<open>Start\<close> or \<open>Stop\<close> that it makes itself (with what it does afterwards), or
  returned.\<close>

datatype exec_loop = Outer | Inner | Calling string exec_loop | Returned

record Executor =
  ex_loop :: exec_loop
  ex_jump :: "string list"
  ex_clients :: "nat \<Rightarrow> send list"
  ex_kill :: bool

definition NewExecutor :: Executor where
  "NewExecutor = \<lparr>ex_loop = Outer, ex_jump = [], ex_clients = (\<lambda>_. []), ex_kill = False\<rparr>"

text \<open>The function \<open>f\<close> of \<open>Init\<close>: the calls of the methods \<open>Start\<close> and \<open>Stop\<close>.\<close>

definition handle :: "bool \<Rightarrow> string \<Rightarrow> exec_loop" where
  "handle jumped s =
     (if s = SIGNAL_START then Calling SIGNAL_START Outer
      else if s = SIGNAL_STOP then Calling SIGNAL_STOP Outer
      else if s = SIGNAL_KILL then Calling SIGNAL_STOP (if jumped then Outer else Returned)
      else Outer)"

text \<open>The only goroutine that receives from \<open>signal\<close> is the loop, in its inner \<open>select\<close>.\<close>

definition receiver_ready :: "Executor \<Rightarrow> bool" where
  "receiver_ready e \<longleftrightarrow> ex_loop e = Inner"

inductive exec_step :: "Executor \<Rightarrow> Executor \<Rightarrow> bool" where
  call: "ex_clients e c = [] \<Longrightarrow> p \<in> {exec_Start, exec_Stop, exec_Kill} \<Longrightarrow> exec_step e (e\<lparr>ex_clients := (ex_clients e)(c := p)\<rparr>)"
| send_jump: "ex_clients e c = To_jump s # p \<Longrightarrow> length (ex_jump e) < 100 \<Longrightarrow>
    exec_step e (e\<lparr>ex_clients := (ex_clients e)(c := p), ex_jump := ex_jump e @ [s]\<rparr>)"
| send_signal: "ex_clients e c = To_signal s # p \<Longrightarrow> receiver_ready e \<Longrightarrow>
    exec_step e (e\<lparr>ex_clients := (ex_clients e)(c := p), ex_loop := (if s = SIGNAL_CANCEL_OBSTRUCT then Outer else handle False s)\<rparr>)"
| loop_jump: "ex_loop e = Outer \<Longrightarrow> ex_jump e = s # js \<Longrightarrow> exec_step e (e\<lparr>ex_jump := js, ex_loop := handle True s\<rparr>)"
| loop_inner: "ex_loop e = Outer \<Longrightarrow> ex_jump e = [] \<Longrightarrow> exec_step e (e\<lparr>ex_loop := Inner\<rparr>)"
| own_send: "ex_loop e = Calling s k \<Longrightarrow> receiver_ready e \<Longrightarrow> exec_step e (e\<lparr>ex_loop := k, ex_kill := (ex_kill e \<or> k = Returned)\<rparr>)"

section \<open>Properties\<close>

lemma ToLower_poll: "ToLower ''poll'' \<noteq> ToLower ''notify''"
  by (simp add: ToLower_def)

text \<open>The check of the pattern is reversed: a configuration that the check lets pass, the default one never being such, can be given a monitor only when its
  pattern is \<open>notify\<close>; and what passes has a command, only existing folders and files, at least one of them, and a positive timeout.\<close>

theorem Filter_excludes_poll:
  assumes "Filter stat i = Some i'"
  shows "\<not> EqualFold (wi_Pattern i') ''poll'' \<and> factory_New (wi_Pattern i') \<noteq> Some Poll
     \<and> (factory_New (wi_Pattern i') = Some Notify \<longleftrightarrow> EqualFold (wi_Pattern i') ''notify'')
     \<and> wi_Cmd i' \<noteq> [] \<and> (\<forall>v \<in> set (wi_Folder i'). stat v = SDir) \<and> (\<forall>v \<in> set (wi_Files i'). stat v = SFile)
     \<and> wi_Folder i' @ wi_Files i' \<noteq> [] \<and> 0 < wi_PreCmdTimeout i' \<and> wi_Pattern i' = wi_Pattern i"
  using assms ToLower_poll
  by (auto simp: Filter_def factory_New_def EqualFold_def list_all_iff Let_def split: if_splits)

theorem Filter_excludes_poll_witness:
  "\<not> EqualFold (wi_Pattern (the (Filter (\<lambda>_. SDir) ((NewInfo False)\<lparr>wi_Cmd := ''run'', wi_Folder := [''src''], wi_Pattern := ''notify''\<rparr>)))) ''poll''"
proof -
  let ?i = "(NewInfo False)\<lparr>wi_Cmd := ''run'', wi_Folder := [''src''], wi_Pattern := ''notify''\<rparr>"
  obtain i' where "Filter (\<lambda>_. SDir) ?i = Some i'"
    by (simp add: Filter_def NewInfo_def EqualFold_def ToLower_def TrimSpace_def slashes_def is_space_def)
  then show ?thesis using Filter_excludes_poll[of "\<lambda>_. SDir" ?i i'] by (metis option.sel)
qed

lemma chunk_loop_sum:
  assumes "1 \<le> cur" "exist = 2 * cur - 2"
  shows "\<exists>res. chunk_loop T exist cur exist = Some res \<and> (\<forall>v \<in> set res. 0 < v) \<and> sum_list res \<le> max 0 (T - exist)
     \<and> T + 1 \<le> 2 * (1 + exist + sum_list res)"
  using assms
proof (induction "nat (T - exist)" arbitrary: exist cur rule: less_induct)
  case less
  show ?case
  proof (cases "exist + cur * 2 > T")
    case True
    then show ?thesis using less.prems by (subst chunk_loop.simps) (auto simp: Let_def)
  next
    case False
    have "nat (T - (exist + cur * 2)) < nat (T - exist)" using False less.prems by linarith
    moreover have "1 \<le> cur * 2" "exist + cur * 2 = 2 * (cur * 2) - 2" using less.prems by auto
    ultimately obtain res where res: "chunk_loop T (exist + cur * 2) (cur * 2) (exist + cur * 2) = Some res" "\<forall>v \<in> set res. 0 < v"
        "sum_list res \<le> max 0 (T - (exist + cur * 2))" "T + 1 \<le> 2 * (1 + (exist + cur * 2) + sum_list res)"
      using less.hyps[of "exist + cur * 2" "cur * 2"] by blast
    have "chunk_loop T exist cur exist = Some (cur * 2 # res)" using False res(1) by (subst chunk_loop.simps) (simp add: Let_def)
    moreover have "sum_list (cur * 2 # res) \<le> max 0 (T - exist)" using res(3) False by simp
    ultimately show ?thesis using res(2,4) less.prems(1) by (intro exI[of _ "cur * 2 # res"]) auto
  qed
qed

text \<open>The waiting times that \<open>chunk\<close> computes are positive, and their sum is at most the timeout and at least half of it; so \<open>stop\<close> waits
  for the child neither longer than configured nor much shorter, and the computation ends for every timeout.\<close>

theorem chunk_within_timeout:
  "\<exists>xs. chunk timeout = Some xs \<and> list_all (\<lambda>v. 0 < v) xs \<and> sum_list xs \<le> max 1 timeout \<and> max 1 timeout \<le> 2 * sum_list xs"
proof -
  let ?t = "if timeout < 2 then 1 else timeout"
  obtain res where res: "chunk_loop (?t - 1) 0 1 0 = Some res" "\<forall>v \<in> set res. 0 < v" "sum_list res \<le> max 0 (?t - 1)" "?t - 1 + 1 \<le> 2 * (1 + 0 + sum_list res)"
    using chunk_loop_sum[of 1 0 "?t - 1"] by auto
  have "chunk timeout = Some (1 # res)" unfolding chunk_def Let_def res(1) by simp
  then show ?thesis using res(2-4) by (intro exI[of _ "1 # res"]) (auto simp: list_all_iff split: if_splits)
qed

text \<open>A child that exits during the last wait is noticed, but \<open>cmd\<close> is not set to nil, so that \<open>start\<close>, which returns when \<open>cmd\<close> is set, never starts a child
  again.\<close>

theorem stop_late_exit_keeps_cmd: "stop True False (\<lambda>t. t \<ge> 3300) 5 = Some (Stopped_at 4200 False)"
proof -
  have "chunk_loop 4 0 1 0 = Some [2, 1]" by (simp add: chunk_loop.simps[of 4 0 1 0] chunk_loop.simps[of 4 2 2 2])
  then show ?thesis by (simp add: stop_def chunk_def)
qed

text \<open>The loop calls a method that sends to the channel it is itself the only receiver of.\<close>

lemma calling_step: "exec_step e e' \<Longrightarrow> ex_loop e = Calling s k \<Longrightarrow>
   ex_loop e' = Calling s k \<and> ex_kill e' = ex_kill e \<and> (\<forall>c x p. ex_clients e c = To_signal x # p \<longrightarrow> ex_clients e' c = To_signal x # p)"
  by (cases rule: exec_step.cases) (auto simp: receiver_ready_def)

text \<open>The executor stops working with the first signal to start or stop: the loop calls \<open>Start\<close> or \<open>Stop\<close> and waits in it for ever, since no other goroutine
  receives; from then on no call of \<open>Start\<close>, \<open>Stop\<close> or \<open>Kill\<close> that has reached its send to \<open>signal\<close> ever returns, and \<open>kill\<close> is never closed.\<close>

theorem executor_blocks_forever:
  assumes "ex_loop e = Inner" "ex_clients e c = To_signal s # p" "s = SIGNAL_START \<or> s = SIGNAL_STOP \<or> s = SIGNAL_KILL"
  shows "\<exists>e1. exec_step e e1 \<and> (\<forall>e2. exec_step\<^sup>*\<^sup>* e1 e2 \<longrightarrow> ex_loop e2 = ex_loop e1 \<and> ex_loop e2 \<noteq> Inner \<and> ex_kill e2 = ex_kill e
     \<and> (\<forall>d x q. ex_clients e1 d = To_signal x # q \<longrightarrow> ex_clients e2 d = To_signal x # q))"
proof -
  let ?e = "e\<lparr>ex_clients := (ex_clients e)(c := p), ex_loop := (if s = SIGNAL_CANCEL_OBSTRUCT then Outer else handle False s)\<rparr>"
  have "exec_step e ?e" by (rule send_signal[OF assms(2)]) (simp add: receiver_ready_def assms(1))
  moreover obtain x k where k: "ex_loop ?e = Calling x k"
    using assms(3) by (auto simp: handle_def SIGNAL_START_def SIGNAL_STOP_def SIGNAL_KILL_def SIGNAL_CANCEL_OBSTRUCT_def)
  moreover have "ex_loop e2 = Calling x k \<and> ex_kill e2 = ex_kill e \<and> (\<forall>d x q. ex_clients ?e d = To_signal x # q \<longrightarrow> ex_clients e2 d = To_signal x # q)"
    if "exec_step\<^sup>*\<^sup>* ?e e2" for e2
    using that
  proof (induction rule: rtranclp_induct)
    case base
    then show ?case using k by simp
  next
    case (step e2 e3)
    then show ?case using calling_step[OF step.hyps(2)] by metis
  qed
  ultimately show ?thesis by (intro exI[of _ ?e]) auto
qed

theorem executor_blocks_forever_witness:
  "\<exists>e1. exec_step (NewExecutor\<lparr>ex_loop := Inner, ex_clients := (\<lambda>_. [])(0 := exec_Start)\<rparr>) e1 \<and> (\<forall>e2. exec_step\<^sup>*\<^sup>* e1 e2 \<longrightarrow> ex_loop e2 \<noteq> Inner)"
  using executor_blocks_forever[of "NewExecutor\<lparr>ex_loop := Inner, ex_clients := (\<lambda>_. [])(0 := exec_Start)\<rparr>" 0 SIGNAL_START "[]"]
  by (auto simp: exec_Start_def)

end
