(* ===== verification/Watch_Run.thy ===== *)
theory Watch_Run
  imports Watcher
begin

text \<open>
  The rest of the process watcher: the events of \<^verbatim>\<open>watch/monitor/event.go\<close> and their translation from the two notification libraries
  (\<^verbatim>\<open>watch/monitor/poll\<close>, \<^verbatim>\<open>watch/monitor/notify\<close>), the main function of \<^verbatim>\<open>watch/run.go\<close>, and the command runner of
  \<^verbatim>\<open>watch/bash\<close>.  The operation codes of the libraries are arguments.
\<close>

section \<open>Events\<close>

definition Create :: "32 word" where "Create = 1"
definition Write :: "32 word" where "Write = 2"
definition Remove :: "32 word" where "Remove = 4"
definition Rename :: "32 word" where "Rename = 8"
definition Chmod :: "32 word" where "Chmod = 16"

lemmas op_defs = Create_def Write_def Remove_def Rename_def Chmod_def

definition Op_String :: "32 word \<Rightarrow> string" where
  "Op_String op =
     (if op AND Create = Create then ''|CREATE'' else []) @ (if op AND Remove = Remove then ''|REMOVE'' else []) @
     (if op AND Write = Write then ''|WRITE'' else []) @ (if op AND Rename = Rename then ''|RENAME'' else []) @
     (if op AND Chmod = Chmod then ''|CHMOD'' else [])"

record codes =
  cd_Create :: "32 word"
  cd_Write :: "32 word"
  cd_Remove :: "32 word"
  cd_Rename :: "32 word"
  cd_Chmod :: "32 word"

text \<open>The translation of an event: its operation, or \<open>None\<close> when the event is dropped.\<close>

definition poll_op :: "codes \<Rightarrow> 32 word \<Rightarrow> 32 word option" where
  "poll_op w op =
     (if op = cd_Create w then Some Create
      else if op = cd_Remove w then Some Remove
      else if op = cd_Write w then Some Write
      else if op = cd_Rename w then Some Rename
      else if op = cd_Chmod w then Some Chmod
      else None)"

definition notify_op :: "codes \<Rightarrow> 32 word \<Rightarrow> 32 word option" where
  "notify_op w op =
     (if op AND cd_Create w = cd_Create w then Some Create
      else if op AND cd_Remove w = cd_Remove w then Some Remove
      else if op AND cd_Write w = cd_Write w then Some Write
      else if op AND cd_Rename w = cd_Rename w then Some Rename
      else if op AND cd_Chmod w = cd_Chmod w then Some Chmod
      else None)"

text \<open>What \<open>Init\<close> of either monitor reports: the errors of the paths it could not add, each on a line.  \<open>add\<close> says what adding a path gives.\<close>

definition monitor_Init :: "(string \<Rightarrow> string option) \<Rightarrow> (string \<Rightarrow> string option) \<Rightarrow> string list \<Rightarrow> string list \<Rightarrow> string option" where
  "monitor_Init add_folder add_file folder files =
     (let line = (\<lambda>e. case e of None \<Rightarrow> [] | Some s \<Rightarrow> s @ [CHR 0x0A]);
          errs = concat (map (line \<circ> add_folder) folder) @ concat (map (line \<circ> add_file) files)
      in if length errs > 0 then Some errs else None)"

text \<open>The notifying monitor first creates its watcher, which may fail.\<close>

definition notify_Init :: "string option \<Rightarrow> (string \<Rightarrow> string option) \<Rightarrow> (string \<Rightarrow> string option) \<Rightarrow> string list \<Rightarrow> string list \<Rightarrow> string option" where
  "notify_Init e walk add_file folder files = (case e of Some s \<Rightarrow> Some s | None \<Rightarrow> monitor_Init walk add_file folder files)"

section \<open>The main function\<close>

record exec_info =
  ei_Cmd :: string
  ei_Args :: "string list"
  ei_Signal :: int
  ei_Timeout :: int
  ei_AutoRestart :: bool
  ei_PreCmd :: string
  ei_PreCmdTimeout :: int
  ei_PreCmdIgnoreError :: bool

record monitor_info =
  mi_Folder :: "string list"
  mi_Files :: "string list"

text \<open>The slices that are copied into have no elements: \<open>copy\<close> copies as many elements as both slices have.\<close>

definition exec_info_of :: "Info \<Rightarrow> exec_info" where
  "exec_info_of i = \<lparr>ei_Cmd = wi_Cmd i, ei_Args = go_copy [] (wi_Args i), ei_Signal = wi_Signal i, ei_Timeout = wi_Timeout i, ei_AutoRestart = wi_AutoRestart i,
     ei_PreCmd = wi_PreCmd i, ei_PreCmdTimeout = wi_PreCmdTimeout i, ei_PreCmdIgnoreError = wi_PreCmdIgnoreError i\<rparr>"

definition monitor_info_of :: "Info \<Rightarrow> monitor_info" where
  "monitor_info_of i = \<lparr>mi_Folder = [], mi_Files = go_copy [] (wi_Files i)\<rparr>"

text \<open>The events of the loop: a file has changed, the monitor reports an error, which ends the process, the monitor is closed, or nothing has happened for the
  delay.  The loop asks for a restart, by \<open>Stop\<close> and \<open>Start\<close>, or ends.\<close>

datatype watch_event = File_changed | Monitor_error | Monitor_closed | Quiet

datatype watch_action = Restart | Exit

fun watch_loop :: "bool \<Rightarrow> watch_event list \<Rightarrow> watch_action list" where
  "watch_loop send [] = []"
| "watch_loop send (File_changed # es) = watch_loop True es"
| "watch_loop send (Monitor_error # es) = [Exit]"
| "watch_loop send (Monitor_closed # es) = [Exit]"
| "watch_loop send (Quiet # es) = (if send then Restart # watch_loop False es else watch_loop send es)"

section \<open>The command runner\<close>

text \<open>The process is running, has exited, or has been killed; the goroutine that waits for it; the call of \<open>Start\<close>, at its \<open>select\<close>, before closing
  \<open>closed\<close>, or returned; and how many calls of \<open>Stop\<close> wait to send.\<close>

datatype bash_error = Start_failed | Exit_error string | Cmd_timeout | Cmd_terminated | Signal_failed

datatype bash_proc = P_running | P_ended "bash_error option"

datatype bash_waiter = W_none | W_waiting | W_sending "bash_error option" | W_done

datatype bash_start = S_none | S_select | S_closing "bash_error option" | S_returned "bash_error option"

record Bash =
  b_timeout :: int
  b_proc :: bash_proc
  b_waiter :: bash_waiter
  b_start :: bash_start
  b_closed :: bool
  b_stops :: nat

definition NewBash :: "int \<Rightarrow> Bash" where
  "NewBash timeout = \<lparr>b_timeout = (if timeout \<le> 0 then 3600 else timeout), b_proc = P_running, b_waiter = W_none, b_start = S_none, b_closed = False, b_stops = 0\<rparr>"

text \<open>\<open>terminate\<close> sends the kill signal, which fails for a process that has been waited for.\<close>

definition bash_terminate :: "bash_error \<Rightarrow> Bash \<Rightarrow> Bash" where
  "bash_terminate err b =
     (if b_proc b = P_running \<or> b_waiter b = W_waiting
      then b\<lparr>b_proc := (if b_proc b = P_running then P_ended (Some (Exit_error ''signal: killed'')) else b_proc b), b_start := S_closing (Some err)\<rparr>
      else b\<lparr>b_start := S_closing (Some Signal_failed)\<rparr>)"

inductive bash_step :: "Bash \<Rightarrow> Bash \<Rightarrow> bool" where
  start_fails: "b_start b = S_none \<Longrightarrow> bash_step b (b\<lparr>b_start := S_returned (Some Start_failed)\<rparr>)"
| start_ok: "b_start b = S_none \<Longrightarrow> bash_step b (b\<lparr>b_start := S_select, b_waiter := W_waiting\<rparr>)"
| exits: "b_start b \<noteq> S_none \<Longrightarrow> b_waiter b = W_waiting \<Longrightarrow> b_proc b = P_running \<Longrightarrow> e = None \<or> (\<exists>s. e = Some (Exit_error s)) \<Longrightarrow> bash_step b (b\<lparr>b_proc := P_ended e\<rparr>)"
| waited: "b_waiter b = W_waiting \<Longrightarrow> b_proc b = P_ended e \<Longrightarrow> bash_step b (b\<lparr>b_waiter := (if b_closed b then W_done else W_sending e)\<rparr>)"
| answered: "b_waiter b = W_sending e \<Longrightarrow> b_start b = S_select \<Longrightarrow> bash_step b (b\<lparr>b_waiter := W_done, b_start := S_closing e\<rparr>)"
| timed_out: "b_start b = S_select \<Longrightarrow> bash_step b (bash_terminate Cmd_timeout b)"
| stop_called: "\<not> b_closed b \<Longrightarrow> bash_step b (b\<lparr>b_stops := b_stops b + 1\<rparr>)"
| stop_received: "b_start b = S_select \<Longrightarrow> 0 < b_stops b \<Longrightarrow> bash_step b (bash_terminate Cmd_terminated (b\<lparr>b_stops := b_stops b - 1\<rparr>))"
| returns: "b_start b = S_closing e \<Longrightarrow> bash_step b (b\<lparr>b_closed := True, b_start := S_returned e\<rparr>)"

section \<open>Properties\<close>

text \<open>Neither the arguments of the command nor any path reaches the executor or the monitor: the child is started without arguments and nothing is watched.\<close>

theorem watch_loses_arguments:
  "ei_Args (exec_info_of i) = []" "mi_Folder (monitor_info_of i) = []" "mi_Files (monitor_info_of i) = []"
  by (simp_all add: exec_info_of_def monitor_info_of_def go_copy_def)

text \<open>The package checks its configuration when it is initialised, before anything can set the command: the check fails and the process ends.\<close>

theorem watch_init_exits: "Filter stat (NewInfo windows) = None"
  by (simp add: Filter_def NewInfo_def TrimSpace_def Let_def)

text \<open>The loop restarts the child once for each quiet delay that ends a time with changes, however many changes there were.\<close>

lemma watch_loop_changes: "n > 0 \<Longrightarrow> watch_loop send (replicate n File_changed @ Quiet # es) = Restart # watch_loop False es"
proof (induction n arbitrary: send)
  case (Suc n)
  then show ?case by (cases "n = 0") simp_all
qed simp

lemma watch_loop_quiet: "watch_loop False (replicate n Quiet @ es) = watch_loop False es"
  by (induction n) simp_all

theorem watch_restarts_per_burst:
  "watch_loop False (concat (map (\<lambda>n. replicate (Suc n) File_changed @ replicate (Suc (f n)) Quiet) bursts)) = replicate (length bursts) Restart"
proof (induction bursts)
  case (Cons n bursts)
  then show ?case using watch_loop_changes[of "Suc n" False] watch_loop_quiet[of "f n"] by simp
qed simp

text \<open>The two translations agree on events with a single operation, for libraries whose codes are distinct single bits; an event with several operations is reported with
  one of them.\<close>

definition bit_codes :: codes where
  "bit_codes = \<lparr>cd_Create = 1, cd_Write = 2, cd_Remove = 4, cd_Rename = 8, cd_Chmod = 16\<rparr>"

theorem notify_agrees_with_poll:
  assumes "op \<in> {1, 2, 4, 8, 16}"
  shows "notify_op bit_codes op = poll_op bit_codes op" and "poll_op bit_codes op = Some op" and "notify_op bit_codes (op OR 1) = Some Create"
  using assms by (auto simp: notify_op_def poll_op_def bit_codes_def op_defs)

text \<open>The invariant of the command runner: whenever \<open>Start\<close> has chosen its result, other than by a failed start, the process has ended.\<close>

definition ended_with :: "bash_error option \<Rightarrow> Bash \<Rightarrow> bool" where
  "ended_with e b \<longleftrightarrow> (\<exists>x. b_proc b = P_ended x \<and> (e = x \<or> e \<in> {Some Cmd_timeout, Some Cmd_terminated, Some Signal_failed}))"

definition bash_inv :: "Bash \<Rightarrow> bool" where
  "bash_inv b \<longleftrightarrow>
     (case b_start b of
        S_none \<Rightarrow> b_waiter b = W_none \<and> \<not> b_closed b
      | S_select \<Rightarrow> b_waiter b \<notin> {W_none, W_done} \<and> \<not> b_closed b
      | S_closing e \<Rightarrow> b_waiter b \<noteq> W_none \<and> \<not> b_closed b \<and> ended_with e b
      | S_returned e \<Rightarrow> (e = Some Start_failed \<and> b_waiter b = W_none \<and> \<not> b_closed b) \<or> (b_waiter b \<noteq> W_none \<and> b_closed b \<and> ended_with e b))
   \<and> (\<forall>e. b_waiter b = W_sending e \<longrightarrow> b_proc b = P_ended e)"

lemma terminate_inv:
  assumes "bash_inv b" "b_start b = S_select" "err \<in> {Cmd_timeout, Cmd_terminated}"
  shows "bash_inv (bash_terminate err (b\<lparr>b_stops := n\<rparr>))"
  using assms by (cases "b_proc b"; cases "b_waiter b") (auto simp: bash_inv_def bash_terminate_def ended_with_def)

lemma bash_step_inv:
  assumes inv: "bash_inv b" and st: "bash_step b b'"
  shows "bash_inv b'"
  using st
proof (cases rule: bash_step.cases)
  case timed_out
  then show ?thesis using terminate_inv[OF inv, of Cmd_timeout "b_stops b"] by simp
next
  case stop_received
  then show ?thesis using terminate_inv[OF inv, of Cmd_terminated "b_stops b - 1"] by simp
qed (use inv in \<open>auto simp: bash_inv_def ended_with_def split: bash_start.splits\<close>)

interpretation bash: keeps_invariant bash_step bash_inv
  by unfold_locales (rule bash_step_inv)

lemma NewBash_inv: "bash_inv (NewBash t)"
  by (simp add: bash_inv_def NewBash_def)

text \<open>When \<open>Start\<close> returns the command is not running any more: it could not be started, or it has ended, with the result returned unless it was killed.\<close>

theorem bash_start_result:
  assumes "bash_step\<^sup>*\<^sup>* (NewBash t) b" and "b_start b = S_returned e"
  shows "e = Some Start_failed \<or> (\<exists>x. b_proc b = P_ended x \<and> (e = x \<or> e \<in> {Some Cmd_timeout, Some Cmd_terminated, Some Signal_failed}))"
  using bash.steps_keep[OF assms(1) NewBash_inv] assms(2) by (auto simp: bash_inv_def ended_with_def)

text \<open>After a timeout the goroutine that waits for the process can be left behind: once it has found \<open>closed\<close> open and \<open>Start\<close> has stopped listening, it waits for
  ever.  So does a call of \<open>Stop\<close> after a start that failed, since \<open>closed\<close> is then never closed.\<close>

lemma leaked_step:
  assumes "b_start b \<noteq> S_none" "b_start b \<noteq> S_select" "bash_step b b'"
  shows "b_start b' \<noteq> S_none \<and> b_start b' \<noteq> S_select \<and> (b_waiter b = W_sending e \<longrightarrow> b_waiter b' = W_sending e) \<and> b_stops b \<le> b_stops b'"
  using assms(3) by (cases rule: bash_step.cases) (use assms(1,2) in auto)

theorem bash_leaks:
  assumes "b_start b \<noteq> S_none" and "b_start b \<noteq> S_select" and "bash_step\<^sup>*\<^sup>* b c"
  shows "(b_waiter b = W_sending e \<longrightarrow> b_waiter c = W_sending e) \<and> b_stops b \<le> b_stops c"
proof -
  have "b_start c \<noteq> S_none \<and> b_start c \<noteq> S_select \<and> (b_waiter b = W_sending e \<longrightarrow> b_waiter c = W_sending e) \<and> b_stops b \<le> b_stops c"
    using assms(3) by (induction rule: rtranclp_induct) (use assms(1,2) in simp, meson leaked_step order_trans)
  then show ?thesis by blast
qed

end
