(* ===== verification/Child_Process.thy ===== *)
theory Child_Process
  imports Watch_Run
begin

text \<open>
  The method \<open>start\<close> of \<^verbatim>\<open>watch/executor/executor.go\<close>, which runs the watched command: its sequential part, and the five goroutines it leaves behind as a step
  relation, beside the signal loop of the theory Watcher.  The calls of the operating system are arguments or choices of the relation.  \<open>log.Fatalf\<close> ends
  the process, so that nothing after it runs.
\<close>

section \<open>The child\<close>

text \<open>A child that has been waited for has a \<open>ProcessState\<close>, which says whether it exited by itself; sending it the signal 0 may fail.\<close>

record child =
  ch_ProcessState :: "bool option"
  ch_signal_fails :: bool

definition isExited :: "bool \<Rightarrow> child option \<Rightarrow> bool" where
  "isExited linux cmd =
     (case cmd of
        None \<Rightarrow> True
      | Some c \<Rightarrow> (case ch_ProcessState c of
          None \<Rightarrow> False
        | Some exited \<Rightarrow> if linux then ch_signal_fails c else exited))"

section \<open>Starting it\<close>

record start_calls =
  sc_preCmd :: "bash_error option"
  sc_StderrPipe :: "string option"
  sc_Start :: "string option"

datatype started = Already_running | Process_dies | Child_running

definition exec_start :: "exec_info \<Rightarrow> child option \<Rightarrow> start_calls \<Rightarrow> started" where
  "exec_start info cmd calls =
     (if cmd \<noteq> None then Already_running
      else if ei_PreCmd info \<noteq> [] \<and> sc_preCmd calls \<noteq> None then Process_dies
      else if sc_StderrPipe calls \<noteq> None then Process_dies
      else if sc_Start calls \<noteq> None then Process_dies
      else Child_running)"

section \<open>The goroutines\<close>

text \<open>A reader copies its pipe, sends to \<open>quitCh\<close> whether it failed, and counts down the group.  The monitor is at its \<open>select\<close>, sends to the executor as one of
  its clients, or has returned.  The waiter waits for the child, has got its end, is past the report and sends as a client, or has returned.\<close>

datatype pipe = Stdout | Stderr

datatype reader = Copying | Sending bool | Counting | Finished

datatype pipe_monitor = Selecting | Stopping nat | Left

datatype child_waiter = Waiting | Waited | Restarting nat | Past

record child_run =
  cr_AutoRestart :: bool
  cr_cmd :: bool
  cr_readers :: "pipe \<Rightarrow> reader"
  cr_wg :: nat
  cr_quitCh :: "bool list"
  cr_quitCh_closed :: bool
  cr_quitChExit_closed :: bool
  cr_monitor :: pipe_monitor
  cr_isSendSignal :: bool
  cr_waiter :: child_waiter
  cr_exec :: Executor

definition child_started :: "bool \<Rightarrow> Executor \<Rightarrow> child_run" where
  "child_started autoRestart e = \<lparr>cr_AutoRestart = autoRestart, cr_cmd = True, cr_readers = (\<lambda>_. Copying), cr_wg = 2, cr_quitCh = [], cr_quitCh_closed = False,
     cr_quitChExit_closed = False, cr_monitor = Selecting, cr_isSendSignal = False, cr_waiter = Waiting, cr_exec = e\<rparr>"

text \<open>What the monitor and the waiter send: a signal to stop, and one to stop and one to start, each followed by the signal that wakes the loop.\<close>

definition stop_signals :: "send list" where
  "stop_signals = [To_jump SIGNAL_STOP, To_signal SIGNAL_CANCEL_OBSTRUCT]"

definition restart_signals :: "send list" where
  "restart_signals = [To_jump SIGNAL_STOP, To_jump SIGNAL_START, To_signal SIGNAL_CANCEL_OBSTRUCT]"

definition post :: "nat \<Rightarrow> send list \<Rightarrow> Executor \<Rightarrow> Executor" where
  "post c p e = e\<lparr>ex_clients := (ex_clients e)(c := p)\<rparr>"

datatype child_fault = Fatal_log | Nil_cmd | Closed_channel | Negative_group

inductive child_step :: "child_run \<Rightarrow> child_fault + child_run \<Rightarrow> bool" where
  copied: "cr_readers s w = Copying \<Longrightarrow> child_step s (Inr (s\<lparr>cr_readers := (cr_readers s)(w := Sending False)\<rparr>))"
| copy_failed: "cr_readers s w = Copying \<Longrightarrow> child_step s (Inl Fatal_log)"
| reader_sends: "cr_readers s w = Sending b \<Longrightarrow> \<not> cr_quitCh_closed s \<Longrightarrow> length (cr_quitCh s) < 2 \<Longrightarrow>
    child_step s (Inr (s\<lparr>cr_readers := (cr_readers s)(w := Counting), cr_quitCh := cr_quitCh s @ [b]\<rparr>))"
| reader_panics: "cr_readers s w = Sending b \<Longrightarrow> cr_quitCh_closed s \<Longrightarrow> child_step s (Inl Closed_channel)"
| counted: "cr_readers s w = Counting \<Longrightarrow> 0 < cr_wg s \<Longrightarrow> child_step s (Inr (s\<lparr>cr_readers := (cr_readers s)(w := Finished), cr_wg := cr_wg s - 1\<rparr>))"
| count_panics: "cr_readers s w = Counting \<Longrightarrow> cr_wg s = 0 \<Longrightarrow> child_step s (Inl Negative_group)"
| group_waited: "cr_wg s = 0 \<Longrightarrow> \<not> cr_quitChExit_closed s \<Longrightarrow> child_step s (Inr (s\<lparr>cr_quitChExit_closed := True\<rparr>))"
| monitor_leaves: "cr_monitor s = Selecting \<Longrightarrow> cr_quitChExit_closed s \<Longrightarrow> child_step s (Inr (s\<lparr>cr_monitor := Left, cr_quitCh_closed := True\<rparr>))"
| monitor_ignores: "cr_monitor s = Selecting \<Longrightarrow> cr_quitCh s = b # q \<Longrightarrow> \<not> b \<or> cr_isSendSignal s \<Longrightarrow> child_step s (Inr (s\<lparr>cr_quitCh := q\<rparr>))"
| monitor_stops: "cr_monitor s = Selecting \<Longrightarrow> cr_quitCh s = True # q \<Longrightarrow> \<not> cr_isSendSignal s \<Longrightarrow> ex_clients (cr_exec s) c = [] \<Longrightarrow>
    child_step s (Inr (s\<lparr>cr_quitCh := q, cr_isSendSignal := True, cr_monitor := Stopping c, cr_exec := post c stop_signals (cr_exec s)\<rparr>))"
| monitor_returns: "cr_monitor s = Stopping c \<Longrightarrow> ex_clients (cr_exec s) c = [] \<Longrightarrow> child_step s (Inr (s\<lparr>cr_monitor := Selecting\<rparr>))"
| child_ended: "cr_waiter s = Waiting \<Longrightarrow> child_step s (Inr (s\<lparr>cr_waiter := Waited\<rparr>))"
| child_failed: "cr_waiter s = Waiting \<Longrightarrow> child_step s (Inl Fatal_log)"
| cmd_cleared: "cr_waiter s \<noteq> Waiting \<Longrightarrow> child_step s (Inr (s\<lparr>cr_cmd := False\<rparr>))"
| restart_off: "child_step s (Inr (s\<lparr>cr_AutoRestart := False\<rparr>))"
| restarts: "cr_waiter s = Waited \<Longrightarrow> cr_cmd s \<Longrightarrow> cr_AutoRestart s \<Longrightarrow> ex_clients (cr_exec s) c = [] \<Longrightarrow>
    child_step s (Inr (s\<lparr>cr_waiter := Restarting c, cr_exec := post c restart_signals (cr_exec s)\<rparr>))"
| reported: "cr_waiter s = Waited \<Longrightarrow> cr_cmd s \<Longrightarrow> \<not> cr_AutoRestart s \<Longrightarrow> child_step s (Inr (s\<lparr>cr_waiter := Past\<rparr>))"
| report_panics: "cr_waiter s = Waited \<Longrightarrow> \<not> cr_cmd s \<Longrightarrow> child_step s (Inl Nil_cmd)"
| waiter_returns: "cr_waiter s = Restarting c \<Longrightarrow> ex_clients (cr_exec s) c = [] \<Longrightarrow> child_step s (Inr (s\<lparr>cr_waiter := Past\<rparr>))"
| executor: "exec_step (cr_exec s) e \<Longrightarrow> child_step s (Inr (s\<lparr>cr_exec := e\<rparr>))"

section \<open>Properties\<close>

text \<open>A failing preparatory command ends the process, whether its errors are to be ignored or not.\<close>

theorem PreCmdIgnoreError_ignored:
  "exec_start (info\<lparr>ei_PreCmdIgnoreError := b\<rparr>) cmd calls = exec_start info cmd calls \<and>
   exec_start (info\<lparr>ei_PreCmd := ''make'', ei_PreCmdIgnoreError := True\<rparr>) None (calls\<lparr>sc_preCmd := Some Cmd_timeout\<rparr>) = Process_dies"
  by (simp add: exec_start_def)

definition busy :: "reader \<Rightarrow> nat" where "busy r = (if r = Finished then 0 else 1)"

definition sent :: "reader \<Rightarrow> nat" where "sent r = (if r \<in> {Counting, Finished} then 1 else 0)"

abbreviation both :: "(reader \<Rightarrow> nat) \<Rightarrow> child_run \<Rightarrow> nat" where
  "both f s \<equiv> f (cr_readers s Stdout) + f (cr_readers s Stderr)"

definition child_inv :: "child_run \<Rightarrow> bool" where
  "child_inv s \<longleftrightarrow> cr_wg s = both busy s \<and> length (cr_quitCh s) \<le> both sent s \<and> (cr_quitChExit_closed s \<longrightarrow> cr_wg s = 0) \<and>
     (cr_quitCh_closed s \<longrightarrow> cr_quitChExit_closed s) \<and> (cr_quitCh_closed s \<longleftrightarrow> cr_monitor s = Left) \<and>
     list_all Not (cr_quitCh s) \<and> (\<forall>w. cr_readers s w \<noteq> Sending True) \<and> (\<forall>c. cr_monitor s \<noteq> Stopping c) \<and> \<not> cr_isSendSignal s"

lemma reader_counts [simp]:
  "busy Finished = 0" "busy Copying = 1" "busy (Sending b) = 1" "busy Counting = 1" "sent Finished = 1" "sent Counting = 1" "sent Copying = 0" "sent (Sending b) = 0"
  by (simp_all add: busy_def sent_def)

lemma sent_le: "sent r \<le> 1"
  by (simp add: sent_def)

lemma sending_room: "child_inv s \<Longrightarrow> cr_readers s w = Sending b \<Longrightarrow> length (cr_quitCh s) < 2 \<and> 0 < cr_wg s \<and> \<not> cr_quitCh_closed s \<and> \<not> b"
  using sent_le[of "cr_readers s Stdout"] sent_le[of "cr_readers s Stderr"] unfolding child_inv_def
  by (cases w; cases b) auto

lemma counting_group: "child_inv s \<Longrightarrow> cr_readers s w = Counting \<Longrightarrow> 0 < cr_wg s"
  by (cases w) (auto simp: child_inv_def)

lemma child_step_result:
  assumes "child_inv s" "child_step s r"
  shows "case r of Inl f \<Rightarrow> f = Fatal_log \<or> f = Nil_cmd \<and> cr_waiter s = Waited \<and> \<not> cr_cmd s | Inr s' \<Rightarrow> child_inv s'"
  using assms(2)
proof (cases rule: child_step.cases)
  case (copied w)
  then show ?thesis using assms(1) by (cases w) (auto simp: child_inv_def)
next
  case (reader_sends w b)
  then show ?thesis using assms(1) sending_room[OF assms(1) reader_sends(2)] by (cases w) (auto simp: child_inv_def)
next
  case (counted w)
  then show ?thesis using assms(1) by (cases w) (auto simp: child_inv_def)
next
  case (reader_panics w b)
  then show ?thesis using sending_room[OF assms(1)] by blast
next
  case (count_panics w)
  then show ?thesis using counting_group[OF assms(1)] by fastforce
qed (use assms(1) in \<open>auto simp: child_inv_def\<close>)

interpretation child_run: panics_only child_step child_inv "\<lambda>s f. f = Fatal_log \<or> f = Nil_cmd \<and> cr_waiter s = Waited \<and> \<not> cr_cmd s"
  by unfold_locales (rule child_step_result)

lemma child_started_inv: "child_inv (child_started autoRestart e)"
  by (simp add: child_inv_def child_started_def)

lemma monitor_can_leave:
  assumes "child_inv s" "\<forall>w. cr_readers s w = Finished"
  shows "\<exists>s'. reach child_step s s' \<and> cr_monitor s' = Left"
proof (cases "cr_monitor s = Left")
  case False
  then have sel: "cr_monitor s = Selecting" using assms(1) by (cases "cr_monitor s") (auto simp: child_inv_def)
  let ?s = "s\<lparr>cr_quitChExit_closed := True\<rparr>"
  have "cr_wg s = 0" using assms by (simp add: child_inv_def)
  then have "reach child_step s ?s"
  proof (cases "cr_quitChExit_closed s")
    case False
    then show ?thesis using group_waited[of s] \<open>cr_wg s = 0\<close> by blast
  qed (cases s; simp)
  moreover have "child_step ?s (Inr (?s\<lparr>cr_monitor := Left, cr_quitCh_closed := True\<rparr>))" by (rule monitor_leaves) (simp_all add: sel)
  ultimately show ?thesis by (intro exI[of _ "?s\<lparr>cr_monitor := Left, cr_quitCh_closed := True\<rparr>"]) (auto intro: reach_step)
qed auto

text \<open>C39: The goroutines that \<open>start\<close> leaves behind end properly as far as the channels go.  In every state they reach, a reader that is to report can do so at once,
  its channel being neither closed nor full; the only failures are the end of the process by \<open>log.Fatalf\<close> and the report of an end after \<open>cmd\<close> has been
  cleared; and when both readers have finished, the monitor can leave.  The branch of the monitor that stops the child after a failed pipe never runs.\<close>

theorem child_goroutines_safe:
  assumes "reach child_step (child_started autoRestart e) s"
  shows "(\<forall>w b. cr_readers s w = Sending b \<longrightarrow> \<not> cr_quitCh_closed s \<and> length (cr_quitCh s) < 2) \<and>
     (\<forall>f. child_step s (Inl f) \<longrightarrow> f = Fatal_log \<or> f = Nil_cmd \<and> cr_waiter s = Waited \<and> \<not> cr_cmd s) \<and>
     ((\<forall>w. cr_readers s w = Finished) \<longrightarrow> (\<exists>s'. reach child_step s s' \<and> cr_monitor s' = Left)) \<and> \<not> cr_isSendSignal s"
proof (intro conjI allI impI)
  note inv = child_run.steps_keep[OF assms child_started_inv]
  show "\<not> cr_quitCh_closed s" "length (cr_quitCh s) < 2" if "cr_readers s w = Sending b" for w b
    using sending_room[OF inv that] by auto
  show "f = Fatal_log \<or> f = Nil_cmd \<and> cr_waiter s = Waited \<and> \<not> cr_cmd s" if "child_step s (Inl f)" for f
    using child_run.step_result[OF inv that] by simp
  show "\<not> cr_isSendSignal s" using inv by (simp add: child_inv_def)
  show "\<exists>s'. reach child_step s s' \<and> cr_monitor s' = Left" if "\<forall>w. cr_readers s w = Finished"
    by (rule monitor_can_leave[OF inv that])
qed

text \<open>The waiter uses \<open>cmd\<close> after the child has been waited for, when \<open>stop\<close> may have cleared it.\<close>

theorem report_after_stop_panics:
  "\<exists>s. reach child_step (child_started autoRestart e) s \<and> child_step s (Inl Nil_cmd)"
proof -
  let ?s = "(child_started autoRestart e)\<lparr>cr_waiter := Waited\<rparr>"
  have "child_step (child_started autoRestart e) (Inr ?s)" by (rule child_ended) (simp add: child_started_def)
  moreover have "child_step ?s (Inr (?s\<lparr>cr_cmd := False\<rparr>))" by (rule cmd_cleared) simp
  ultimately have "reach child_step (child_started autoRestart e) (?s\<lparr>cr_cmd := False\<rparr>)" by (rule reach_step[OF reach_step[OF rtranclp.rtrancl_refl]])
  moreover have "child_step (?s\<lparr>cr_cmd := False\<rparr>) (Inl Nil_cmd)" by (rule report_panics) simp_all
  ultimately show ?thesis by blast
qed

text \<open>The waiter restarts by signals to the loop, which takes the first one and blocks in its own call of \<open>Stop\<close>.\<close>

definition restart_stuck :: "nat \<Rightarrow> child_run \<Rightarrow> bool" where
  "restart_stuck c s \<longleftrightarrow> cr_waiter s = Restarting c \<and> ex_loop (cr_exec s) = Calling SIGNAL_STOP Outer \<and>
     ex_clients (cr_exec s) c \<noteq> [] \<and> last (ex_clients (cr_exec s) c) = To_signal SIGNAL_CANCEL_OBSTRUCT"

lemma stuck_client: "exec_step e e' \<Longrightarrow> ex_loop e = Calling x k \<Longrightarrow> ex_clients e c \<noteq> [] \<Longrightarrow> last (ex_clients e c) = To_signal y \<Longrightarrow>
   ex_clients e' c \<noteq> [] \<and> last (ex_clients e' c) = To_signal y"
  by (cases rule: exec_step.cases) (auto simp: receiver_ready_def split: if_splits)

lemma restart_stuck_step: "restart_stuck c s \<Longrightarrow> child_step s (Inr s') \<Longrightarrow> restart_stuck c s'"
  by (erule child_step.cases) (auto simp: restart_stuck_def post_def dest: stuck_client calling_step)

interpretation stuck: keeps_invariant "\<lambda>s s'. child_step s (Inr s')" "restart_stuck c" for c
  by unfold_locales (rule restart_stuck_step)

theorem auto_restart_blocks:
  "\<exists>s. reach child_step (child_started True NewExecutor) s \<and>
     (\<forall>s'. reach child_step s s' \<longrightarrow> cr_waiter s' = Restarting 0 \<and> ex_loop (cr_exec s') = Calling SIGNAL_STOP Outer)"
proof -
  let ?s1 = "(child_started True NewExecutor)\<lparr>cr_waiter := Waited\<rparr>"
  let ?e2 = "post 0 restart_signals NewExecutor"
  let ?e3 = "?e2\<lparr>ex_clients := (ex_clients ?e2)(0 := tl restart_signals), ex_jump := [SIGNAL_STOP]\<rparr>"
  let ?s2 = "?s1\<lparr>cr_waiter := Restarting 0, cr_exec := ?e2\<rparr>"
  let ?s4 = "?s2\<lparr>cr_exec := ?e3\<lparr>ex_jump := [], ex_loop := handle True SIGNAL_STOP\<rparr>\<rparr>"
  have "child_step (child_started True NewExecutor) (Inr ?s1)" by (rule child_ended) (simp add: child_started_def)
  moreover have "child_step ?s1 (Inr ?s2)"
    using restarts[of ?s1 0] by (simp add: child_started_def NewExecutor_def)
  moreover have "exec_step ?e2 ?e3"
    using send_jump[of ?e2 0 SIGNAL_STOP "tl restart_signals"] by (simp add: post_def restart_signals_def NewExecutor_def)
  then have "child_step ?s2 (Inr (?s2\<lparr>cr_exec := ?e3\<rparr>))" using executor[of ?s2 ?e3] by simp
  moreover have "exec_step ?e3 (?e3\<lparr>ex_jump := [], ex_loop := handle True SIGNAL_STOP\<rparr>)"
    by (rule loop_jump) (simp_all add: post_def NewExecutor_def)
  then have "child_step (?s2\<lparr>cr_exec := ?e3\<rparr>) (Inr ?s4)" using executor[of "?s2\<lparr>cr_exec := ?e3\<rparr>"] by fastforce
  ultimately have "reach child_step (child_started True NewExecutor) ?s4" by (rule reach_step[OF reach_three])
  moreover have "restart_stuck 0 ?s4"
    by (simp add: restart_stuck_def restart_signals_def handle_def SIGNAL_START_def SIGNAL_STOP_def)
  ultimately show ?thesis using stuck.steps_keep unfolding restart_stuck_def by blast
qed

text \<open>The first reader has come to the end of its pipe.\<close>

theorem child_goroutines_safe_witness:
  "\<exists>s. reach child_step (child_started False NewExecutor) s \<and> cr_readers s Stdout = Sending False \<and> \<not> cr_quitCh_closed s \<and> length (cr_quitCh s) < 2"
proof -
  let ?s = "(child_started False NewExecutor)\<lparr>cr_readers := (\<lambda>_. Copying)(Stdout := Sending False)\<rparr>"
  have "child_step (child_started False NewExecutor) (Inr ?s)"
    using copied[of "child_started False NewExecutor" Stdout] by (simp add: child_started_def)
  then have "reach child_step (child_started False NewExecutor) ?s" by blast
  moreover have "cr_readers ?s Stdout = Sending False" by simp
  ultimately show ?thesis using child_goroutines_safe[THEN conjunct1] by blast
qed

end
