(* ===== verification/Watch_Main.thy ===== *)
theory Watch_Main
  imports Watch_Run
begin

text \<open>
  The watcher as a whole: the goroutines of the two monitors, \<^verbatim>\<open>watch/monitor/poll\<close> and \<^verbatim>\<open>watch/monitor/notify\<close>, which translate what the libraries
  report, and \<^verbatim>\<open>watch/run.go\<close> with its main loop and its signal handler as two clients of the executor of the theory Watcher.
\<close>

section \<open>The monitors\<close>

text \<open>What a library reports, and what a monitor passes on; \<open>Dies\<close> is the end of the process.\<close>

datatype raw = Raw string "32 word" | Raw_error string | Raw_closed

datatype report = Event string "32 word" | Error string | Closed | Dies

fun poll_Run :: "codes \<Rightarrow> raw list \<Rightarrow> report list" where
  "poll_Run w [] = []"
| "poll_Run w (Raw name op # rs) = (case poll_op w op of None \<Rightarrow> poll_Run w rs | Some op' \<Rightarrow> Event name op' # poll_Run w rs)"
| "poll_Run w (Raw_error e # rs) = Error e # poll_Run w rs"
| "poll_Run w (Raw_closed # rs) = [Closed]"

text \<open>The notifying monitor also watches what is created, and ends the process when it cannot; it does not look at the end of the library's channels.\<close>

fun notify_Run :: "codes \<Rightarrow> (string \<Rightarrow> string option) \<Rightarrow> raw list \<Rightarrow> report list" where
  "notify_Run w add [] = []"
| "notify_Run w add (Raw name op # rs) =
     (if op AND cd_Create w = cd_Create w \<and> add name \<noteq> None then [Dies]
      else case notify_op w op of None \<Rightarrow> notify_Run w add rs | Some op' \<Rightarrow> Event name op' # notify_Run w add rs)"
| "notify_Run w add (Raw_error e # rs) = Error e # notify_Run w add rs"
| "notify_Run w add (Raw_closed # rs) = notify_Run w add rs"

section \<open>The process\<close>

text \<open>The main function waits in a call of \<open>Start\<close>, is at its \<open>select\<close> with the flag \<open>send\<close>, within the \<open>Stop\<close> or the \<open>Start\<close> of a restart, or within \<open>Kill\<close>
  or waiting for its channel.  The handler waits for a signal, or is within \<open>Kill\<close> or waiting.  Both end the process with the code 0 after that.\<close>

datatype main_state = In_first_start | At_select bool | In_stop | In_start | In_kill | Awaits_kill

datatype handler_state = Awaits_signal | Handler_kill | Handler_awaits

record watch =
  wt_main :: main_state
  wt_handler :: handler_state
  wt_exec :: Executor

definition main_id :: nat where "main_id = 0"
definition handler_id :: nat where "handler_id = 1"

definition calls :: "nat \<Rightarrow> send list \<Rightarrow> Executor \<Rightarrow> Executor" where
  "calls c p e = e\<lparr>ex_clients := (ex_clients e)(c := p)\<rparr>"

definition returned :: "nat \<Rightarrow> Executor \<Rightarrow> bool" where
  "returned c e \<longleftrightarrow> ex_clients e c = []"

definition watch_init :: watch where
  "watch_init = \<lparr>wt_main = In_first_start, wt_handler = Awaits_signal, wt_exec = calls main_id exec_Start NewExecutor\<rparr>"

datatype exit_code = Exit_0 | Exit_fatal

text \<open>Other goroutines may call the executor, but not in the name of these two.\<close>

inductive watch_step :: "watch \<Rightarrow> exit_code + watch \<Rightarrow> bool" where
  executor_step: "exec_step (wt_exec s) e \<Longrightarrow> returned main_id (wt_exec s) \<longrightarrow> returned main_id e \<Longrightarrow> returned handler_id (wt_exec s) \<longrightarrow> returned handler_id e \<Longrightarrow>
    watch_step s (Inr (s\<lparr>wt_exec := e\<rparr>))"
| start_returns: "wt_main s = In_first_start \<or> wt_main s = In_start \<Longrightarrow> returned main_id (wt_exec s) \<Longrightarrow> watch_step s (Inr (s\<lparr>wt_main := At_select False\<rparr>))"
| event: "wt_main s = At_select b \<Longrightarrow> watch_step s (Inr (s\<lparr>wt_main := At_select True\<rparr>))"
| monitor_error: "wt_main s = At_select b \<Longrightarrow> watch_step s (Inl Exit_fatal)"
| monitor_closed: "wt_main s = At_select b \<Longrightarrow> watch_step s (Inr (s\<lparr>wt_main := In_kill, wt_exec := calls main_id exec_Kill (wt_exec s)\<rparr>))"
| quiet: "wt_main s = At_select True \<Longrightarrow> watch_step s (Inr (s\<lparr>wt_main := In_stop, wt_exec := calls main_id exec_Stop (wt_exec s)\<rparr>))"
| stop_returns: "wt_main s = In_stop \<Longrightarrow> returned main_id (wt_exec s) \<Longrightarrow> watch_step s (Inr (s\<lparr>wt_main := In_start, wt_exec := calls main_id exec_Start (wt_exec s)\<rparr>))"
| kill_returns: "wt_main s = In_kill \<Longrightarrow> returned main_id (wt_exec s) \<Longrightarrow> watch_step s (Inr (s\<lparr>wt_main := Awaits_kill\<rparr>))"
| killed: "wt_main s = Awaits_kill \<Longrightarrow> ex_kill (wt_exec s) \<Longrightarrow> watch_step s (Inl Exit_0)"
| signalled: "wt_handler s = Awaits_signal \<Longrightarrow> watch_step s (Inr (s\<lparr>wt_handler := Handler_kill, wt_exec := calls handler_id exec_Kill (wt_exec s)\<rparr>))"
| handler_returns: "wt_handler s = Handler_kill \<Longrightarrow> returned handler_id (wt_exec s) \<Longrightarrow> watch_step s (Inr (s\<lparr>wt_handler := Handler_awaits\<rparr>))"
| handler_killed: "wt_handler s = Handler_awaits \<Longrightarrow> ex_kill (wt_exec s) \<Longrightarrow> watch_step s (Inl Exit_0)"

section \<open>Properties\<close>

text \<open>The two monitors report the same for the same codes, when the operation codes are distinct single bits, only single operations occur, everything that is
  created can be watched, and the library is not closed.\<close>

definition single_ops :: "codes \<Rightarrow> raw \<Rightarrow> bool" where
  "single_ops w r = (case r of Raw _ op \<Rightarrow> notify_op w op = poll_op w op | Raw_error _ \<Rightarrow> True | Raw_closed \<Rightarrow> False)"

theorem monitors_agree: "list_all (single_ops w) rs \<Longrightarrow> notify_Run w (\<lambda>_. None) rs = poll_Run w rs"
  by (induction w rs rule: poll_Run.induct) (auto simp: single_ops_def split: option.splits)

text \<open>The loop of the executor has received nothing and the main function waits in its first call, or the loop is blocked in a call of its own.\<close>

definition watch_inv :: "watch \<Rightarrow> bool" where
  "watch_inv s \<longleftrightarrow> \<not> ex_kill (wt_exec s) \<and>
     (wt_main s = In_first_start \<and> ex_clients (wt_exec s) main_id = exec_Start \<or> (\<exists>x k. ex_loop (wt_exec s) = Calling x k)) \<and>
     (wt_main s = In_stop \<longrightarrow> ex_clients (wt_exec s) main_id = exec_Stop) \<and> wt_main s \<noteq> In_start"

lemma first_start_step:
  assumes "exec_step e e'" "ex_clients e c = exec_Start"
  shows "ex_clients e' c = exec_Start \<or> (\<exists>x k. ex_loop e' = Calling x k)"
  using assms
  by (cases rule: exec_step.cases) (auto simp: exec_Start_def handle_def SIGNAL_START_def SIGNAL_CANCEL_OBSTRUCT_def split: if_splits)

lemma never_killed: "exec_step e e' \<Longrightarrow> \<not> ex_kill e \<Longrightarrow> \<not> ex_kill e'"
  by (cases rule: exec_step.cases) (auto simp: receiver_ready_def)

lemma blocked_stop: "exec_step e e' \<Longrightarrow> ex_loop e = Calling x k \<Longrightarrow> ex_clients e c = exec_Stop \<Longrightarrow> ex_clients e' c = exec_Stop"
  using calling_step[of e e' x k] by (auto simp: exec_Stop_def)

lemma watch_step_result:
  assumes "watch_inv s" "watch_step s r"
  shows "case r of Inl e \<Rightarrow> e = Exit_fatal | Inr s' \<Rightarrow> watch_inv s'"
  using assms(2)
proof (cases rule: watch_step.cases)
  case (executor_step e)
  have "\<not> ex_kill e" using never_killed[OF executor_step(2)] assms(1) by (simp add: watch_inv_def)
  moreover have "wt_main s = In_first_start \<and> ex_clients e main_id = exec_Start \<or> (\<exists>x k. ex_loop e = Calling x k)"
    using assms(1) first_start_step[OF executor_step(2)] calling_step[OF executor_step(2)] unfolding watch_inv_def by blast
  moreover have "wt_main s = In_stop \<longrightarrow> ex_clients e main_id = exec_Stop"
    using assms(1) blocked_stop[OF executor_step(2)] by (auto simp: watch_inv_def)
  ultimately show ?thesis using executor_step(1) assms(1) by (simp add: watch_inv_def)
qed (use assms(1) in \<open>auto simp: watch_inv_def calls_def returned_def main_id_def handler_id_def exec_Start_def exec_Stop_def\<close>)

interpretation watch: panics_only watch_step watch_inv "\<lambda>_ e. e = Exit_fatal"
  by unfold_locales (rule watch_step_result)

lemma watch_init_inv: "watch_inv watch_init"
  by (simp add: watch_inv_def watch_init_def calls_def NewExecutor_def)

lemma in_stop_stays: "watch_inv s \<Longrightarrow> watch_step s (Inr s') \<Longrightarrow> wt_main s = In_stop \<Longrightarrow> wt_main s' = In_stop"
  by (erule watch_step.cases) (auto simp: watch_inv_def returned_def exec_Stop_def)

interpretation hanging: keeps_invariant "\<lambda>s s'. watch_step s (Inr s')" "\<lambda>s. watch_inv s \<and> wt_main s = In_stop"
  by unfold_locales (use in_stop_stays watch.step_keeps in blast)

text \<open>The watcher restarts nothing and cannot be stopped: neither the signals it handles nor a closed monitor end the process in any state it can reach, and the first change
  that asks for a restart leaves the main function in the call of \<open>Stop\<close> for ever.\<close>

theorem watcher_hangs:
  assumes "reach watch_step watch_init s"
  shows "\<not> watch_step s (Inl Exit_0) \<and> (wt_main s = In_stop \<longrightarrow> (\<forall>s'. reach watch_step s s' \<longrightarrow> wt_main s' = In_stop))"
proof -
  have inv: "watch_inv s" using watch.steps_keep[OF assms watch_init_inv] .
  then show ?thesis using watch.step_result[OF inv, of "Inl Exit_0"] hanging.steps_keep by auto
qed

end
