(* ===== verification/Vlog.thy ===== *)
theory Vlog
  imports Cron_Spec Go_Strings
begin

text \<open>
  The logger, \<^verbatim>\<open>vlog/vlog.go\<close>.  Callers format a message and send it to a buffered channel; one goroutine takes the messages from the channel and writes them to
  the file of their level, whose name carries a suffix made of the current time.  The operating system is an argument: which files can be closed and opened and
  how much of a buffer a write accepts.  So are the caller information, the clock and the random number a call sees.  The debug output is left out.
\<close>

section \<open>Levels and configuration\<close>

definition LOG_LEVEL_FATAL :: int where "LOG_LEVEL_FATAL = 1"
definition LOG_LEVEL_WARNING :: int where "LOG_LEVEL_WARNING = 2"
definition LOG_LEVEL_NOTICE :: int where "LOG_LEVEL_NOTICE = 4"
definition LOG_LEVEL_TRACE :: int where "LOG_LEVEL_TRACE = 8"
definition LOG_LEVEL_DEBUG :: int where "LOG_LEVEL_DEBUG = 16"

lemmas level_defs = LOG_LEVEL_FATAL_def LOG_LEVEL_WARNING_def LOG_LEVEL_NOTICE_def LOG_LEVEL_TRACE_def LOG_LEVEL_DEBUG_def

definition logLevelMap :: "int \<rightharpoonup> string" where
  "logLevelMap = [LOG_LEVEL_FATAL \<mapsto> ''FATAL'', LOG_LEVEL_WARNING \<mapsto> ''WARNING'', LOG_LEVEL_NOTICE \<mapsto> ''NOTICE'', LOG_LEVEL_TRACE \<mapsto> ''TRACE'',
     LOG_LEVEL_DEBUG \<mapsto> ''DEBUG'']"

record Msg =
  m_Level :: int
  m_Data :: string

record VlogConf =
  c_LogNoticeFilePath :: string
  c_LogDebugFilePath :: string
  c_LogTraceFilePath :: string
  c_LogFatalFilePath :: string
  c_LogWarningFilePath :: string
  c_LogCronTime :: string
  c_LogChanBuffSize :: int
  c_LogFlushTimer :: int
  c_LogDebugOpen :: int
  c_LogLevel :: int

text \<open>An open file: its name and the offset of the next write.\<close>

record log_fd =
  fd_name :: string
  fd_off :: nat

text \<open>The maps \<open>MergeLogFile\<close> and \<open>MergeLogFd\<close> have the same keys, the configured file names; a nil file is \<open>None\<close>.  \<open>FlushLogChan\<close> and the
  mutex \<open>flushLock\<close> are never created: the channel is nil, and taking the mutex dereferences nil.\<close>

record VLog =
  v_LogConf :: "VlogConf option"
  v_LogChan :: "Msg list"
  v_LogFilePath :: "int \<rightharpoonup> string"
  v_LogChanBuffSize :: int
  v_LogCronTime :: string
  v_LogFlushTimer :: int
  v_LogLevel :: int
  v_LogDebugOpen :: bool
  v_MergeLogFile :: "string \<rightharpoonup> string"
  v_MergeLogFd :: "string \<Rightarrow> log_fd option"

definition new_VLog :: VLog where
  "new_VLog = \<lparr>v_LogConf = None, v_LogChan = [], v_LogFilePath = Map.empty, v_LogChanBuffSize = 0, v_LogCronTime = [], v_LogFlushTimer = 0, v_LogLevel = 0,
     v_LogDebugOpen = False, v_MergeLogFile = Map.empty, v_MergeLogFd = (\<lambda>_. None)\<rparr>"

text \<open>The value of a map from strings or levels to strings: absent keys give the empty string.\<close>

definition str_at :: "('a \<rightharpoonup> string) \<Rightarrow> 'a \<Rightarrow> string" where
  "str_at m k = (case m k of None \<Rightarrow> [] | Some s \<Rightarrow> s)"

definition level_paths :: "VlogConf \<Rightarrow> int \<rightharpoonup> string" where
  "level_paths c = [LOG_LEVEL_FATAL \<mapsto> c_LogFatalFilePath c, LOG_LEVEL_WARNING \<mapsto> c_LogWarningFilePath c, LOG_LEVEL_NOTICE \<mapsto> c_LogNoticeFilePath c,
     LOG_LEVEL_TRACE \<mapsto> c_LogTraceFilePath c, LOG_LEVEL_DEBUG \<mapsto> c_LogDebugFilePath c]"

definition merged_paths :: "VlogConf \<Rightarrow> string list" where
  "merged_paths c = [c_LogFatalFilePath c, c_LogWarningFilePath c, c_LogNoticeFilePath c, c_LogTraceFilePath c, c_LogDebugFilePath c]"

text \<open>\<open>log.Fatal\<close> ends the process, which is \<open>None\<close>.\<close>

definition LogInit :: "VLog \<Rightarrow> VLog option" where
  "LogInit v =
     (case v_LogConf v of
        None \<Rightarrow> None
      | Some c \<Rightarrow>
          Some (v\<lparr>v_LogFilePath := level_paths c, v_LogCronTime := c_LogCronTime c,
                  v_LogChanBuffSize := (if c_LogChanBuffSize c \<le> 0 then 1024 else c_LogChanBuffSize c), v_LogFlushTimer := c_LogFlushTimer c,
                  v_LogLevel := c_LogLevel c, v_LogDebugOpen := (c_LogDebugOpen c = 1), v_LogChan := [],
                  v_MergeLogFile := (\<lambda>f. if f \<in> set (merged_paths c) then Some [] else None), v_MergeLogFd := (\<lambda>_. None)\<rparr>))"

text \<open>\<open>Run\<close> up to the goroutine it starts: \<open>once\<close> says whether \<open>LogInit\<close> has run.\<close>

definition Run_begin :: "VlogConf option \<Rightarrow> VLog option \<times> bool \<Rightarrow> (VLog \<times> bool) option" where
  "Run_begin conf vo =
     (let v = (case fst vo of None \<Rightarrow> new_VLog | Some v \<Rightarrow> v)\<lparr>v_LogConf := conf\<rparr>
      in if snd vo then Some (v, True) else map_option (\<lambda>v. (v, True)) (LogInit v))"

section \<open>The message of a call\<close>

definition dirSep :: "string \<Rightarrow> char" where
  "dirSep path = (if CHR 0x5C \<in> set path then CHR 0x5C else CHR ''/'')"

fun join :: "char \<Rightarrow> string list \<Rightarrow> string" where
  "join c [] = []"
| "join c [x] = x"
| "join c (x # xs) = x @ c # join c xs"

definition short_file :: "string \<Rightarrow> string" where
  "short_file file =
     (let sep = dirSep file; path = Split file sep
      in if length path > 2 then join sep (drop (length path - 2) path) else file)"

definition genLogID :: "int \<Rightarrow> int \<Rightarrow> string" where
  "genLogID microtime randNum = Itoa microtime @ Itoa randNum"

definition getLogID :: "string \<Rightarrow> int \<Rightarrow> int \<Rightarrow> string" where
  "getLogID LogID microtime randNum = (if LogID \<noteq> [] then LogID else genLogID microtime randNum)"

text \<open>What \<open>runtime.Caller\<close>, the clock and the random source give to a call: the function, file and line of the caller, the formatted time, the time in nanoseconds
  and the random number.\<close>

record call_info =
  ci_caller :: "(string \<times> string \<times> int) option"
  ci_ymdHis :: string
  ci_nano :: int
  ci_rand :: int

definition padMsg :: "string \<Rightarrow> call_info \<Rightarrow> int \<Rightarrow> string \<Rightarrow> string + string" where
  "padMsg LogID ci level msg =
     (case ci_caller ci of
        None \<Rightarrow> Inl ''call runtime.Caller() fail''
      | Some (callfunc, file, line) \<Rightarrow>
          (case logLevelMap level of
             None \<Rightarrow> Inl ''log_type is invalid''
           | Some levelstr \<Rightarrow>
               Inr (levelstr @ '': '' @ ci_ymdHis ci @ '' [logid='' @ getLogID LogID (ci_nano ci) (ci_rand ci) @ '' file='' @ short_file file @ '', no='' @
                    Itoa line @ '' call='' @ callfunc @ ''] '' @ msg @ [CHR 0x0A])))"

text \<open>\<open>syncMsg\<close> up to its send: an error, nothing to send, or the message that it sends.\<close>

definition syncMsg_begin :: "VLog \<Rightarrow> string \<Rightarrow> call_info \<Rightarrow> int \<Rightarrow> string \<Rightarrow> string + Msg option" where
  "syncMsg_begin v LogID ci level msg =
     (if level AND v_LogLevel v \<noteq> level then Inr None
      else if level \<le> 0 \<or> msg = [] then Inl ''level or msg param is empty''
      else case padMsg LogID ci level msg of
             Inl e \<Rightarrow> Inl e
           | Inr ret \<Rightarrow> Inr (Some \<lparr>m_Level = level, m_Data = ret\<rparr>))"

text \<open>The methods of a logger, each with its level.\<close>

record Logger =
  lg_LogID :: string

definition Logger_New :: "string \<Rightarrow> Logger" where
  "Logger_New logID = \<lparr>lg_LogID = logID\<rparr>"

definition Logger_Notice :: "VLog \<Rightarrow> Logger \<Rightarrow> call_info \<Rightarrow> string \<Rightarrow> string + Msg option" where
  "Logger_Notice v l ci msg = syncMsg_begin v (lg_LogID l) ci LOG_LEVEL_NOTICE msg"

definition Logger_Trace :: "VLog \<Rightarrow> Logger \<Rightarrow> call_info \<Rightarrow> string \<Rightarrow> string + Msg option" where
  "Logger_Trace v l ci msg = syncMsg_begin v (lg_LogID l) ci LOG_LEVEL_TRACE msg"

definition Logger_Debug :: "VLog \<Rightarrow> Logger \<Rightarrow> call_info \<Rightarrow> string \<Rightarrow> string + Msg option" where
  "Logger_Debug v l ci msg = syncMsg_begin v (lg_LogID l) ci LOG_LEVEL_DEBUG msg"

definition Logger_Fatal :: "VLog \<Rightarrow> Logger \<Rightarrow> call_info \<Rightarrow> string \<Rightarrow> string + Msg option" where
  "Logger_Fatal v l ci msg = syncMsg_begin v (lg_LogID l) ci LOG_LEVEL_FATAL msg"

definition Logger_Warning :: "VLog \<Rightarrow> Logger \<Rightarrow> call_info \<Rightarrow> string \<Rightarrow> string + Msg option" where
  "Logger_Warning v l ci msg = syncMsg_begin v (lg_LogID l) ci LOG_LEVEL_WARNING msg"

text \<open>\<open>syncMsg\<close> after its send.  The quotient of two lengths in \<open>float64\<close> is at least the constant 0.9 exactly when ten times the first is at least nine times the
  second, for the lengths below $2^{49}$ that a channel can have.  \<open>flushLogFlag\<close> is false: it is set only after the mutex, which is nil, has been taken.\<close>

definition syncMsg_end :: "VLog \<Rightarrow> VLog may_panic" where
  "syncMsg_end v = (if 10 * int (length (v_LogChan v)) \<ge> 9 * v_LogChanBuffSize v then Inl NilDereference else Inr v)"

section \<open>Files\<close>

definition pad :: "nat \<Rightarrow> int \<Rightarrow> string" where
  "pad w n = replicate (w - length (Itoa n)) (CHR ''0'') @ Itoa n"

text \<open>The layouts \<open>20060102\<close> and \<open>20060102_15\<close> of \<open>Format\<close>.\<close>

definition format_day :: "time \<Rightarrow> string" where
  "format_day t = pad 4 (Year t) @ pad 2 (Month t) @ pad 2 (Day t)"

definition format_hour :: "time \<Rightarrow> string" where
  "format_hour t = format_day t @ ''_'' @ pad 2 (Hour t)"

definition logSuffix :: "string \<Rightarrow> time \<Rightarrow> string" where
  "logSuffix cron now =
     (if cron = ''day'' then format_day now
      else if cron = ''hour'' then format_hour now
      else if cron = ''ten'' then format_hour now @ Itoa (Minute now div 10) @ ''0''
      else format_hour now)"

type_synonym files = "string \<rightharpoonup> string"

record os =
  os_close_ok :: "string \<Rightarrow> bool"
  os_open_ok :: "string \<Rightarrow> bool"
  os_written :: "string \<Rightarrow> nat \<Rightarrow> nat"

definition log_name :: "string \<Rightarrow> string \<Rightarrow> string" where
  "log_name confFileName suffix = confFileName @ ''.'' @ suffix"

text \<open>The loop of \<open>logOpenFile\<close> over the keys, in the order in which the map yields them.  A failed close or open ends the process.\<close>

definition open_new :: "string \<Rightarrow> string \<Rightarrow> VLog \<times> files \<Rightarrow> VLog \<times> files" where
  "open_new confFileName new vf =
     (let c = str_at (snd vf) new
      in ((fst vf)\<lparr>v_MergeLogFile := (v_MergeLogFile (fst vf))(confFileName \<mapsto> new),
                   v_MergeLogFd := (v_MergeLogFd (fst vf))(confFileName := Some \<lparr>fd_name = new, fd_off = length c\<rparr>)\<rparr>,
          (snd vf)(new \<mapsto> c)))"

fun logOpenFile :: "os \<Rightarrow> string \<Rightarrow> string list \<Rightarrow> VLog \<times> files \<Rightarrow> (VLog \<times> files) option" where
  "logOpenFile os suffix [] vf = Some vf"
| "logOpenFile os suffix (confFileName # cs) vf =
     (let run = str_at (v_MergeLogFile (fst vf)) confFileName; new = log_name confFileName suffix
      in if new = run then logOpenFile os suffix cs vf
         else if v_MergeLogFd (fst vf) confFileName \<noteq> None \<and> \<not> os_close_ok os run then None
         else if \<not> os_open_ok os new then None
         else logOpenFile os suffix cs (open_new confFileName new vf))"

definition write_at :: "nat \<Rightarrow> string \<Rightarrow> string \<Rightarrow> string" where
  "write_at off s c = take off c @ replicate (off - length c) (CHR 0x00) @ s @ drop (off + length s) c"

definition WriteString :: "os \<Rightarrow> string \<Rightarrow> string \<Rightarrow> VLog \<times> files \<Rightarrow> VLog \<times> files" where
  "WriteString os fileName writeBuff vf =
     (case v_MergeLogFd (fst vf) fileName of
        None \<Rightarrow> vf
      | Some d \<Rightarrow>
          (let s = take (os_written os (fd_name d) (length writeBuff)) writeBuff
           in ((fst vf)\<lparr>v_MergeLogFd := (v_MergeLogFd (fst vf))(fileName := Some (d\<lparr>fd_off := fd_off d + length s\<rparr>))\<rparr>,
               (snd vf)(fd_name d \<mapsto> write_at (fd_off d) s (str_at (snd vf) (fd_name d))))))"

fun write_all :: "os \<Rightarrow> (string \<Rightarrow> string list) \<Rightarrow> string list \<Rightarrow> VLog \<times> files \<Rightarrow> VLog \<times> files" where
  "write_all os logMap [] vf = vf"
| "write_all os logMap (fileName # fs) vf =
     write_all os logMap fs (if logMap fileName = [] then vf else WriteString os fileName (concat (logMap fileName)) vf)"

definition path_of :: "VLog \<Rightarrow> Msg \<Rightarrow> string" where
  "path_of v m = str_at (v_LogFilePath v) (m_Level m)"

definition add_line :: "VLog \<Rightarrow> Msg \<Rightarrow> (string \<Rightarrow> string list) \<Rightarrow> string \<Rightarrow> string list" where
  "add_line v m logMap = logMap(path_of v m := logMap (path_of v m) @ [m_Data m])"

text \<open>\<open>logWriteFile\<close> writes the message it is given and one more, if the channel has one.  \<open>ks\<close> and \<open>ks'\<close> are the orders of the two loops over the keys.\<close>

definition logWriteFile :: "os \<Rightarrow> string \<Rightarrow> string list \<Rightarrow> string list \<Rightarrow> Msg \<Rightarrow> VLog \<times> files \<Rightarrow> (VLog \<times> files) option" where
  "logWriteFile os suffix ks ks' m vf =
     (case logOpenFile os suffix ks vf of
        None \<Rightarrow> None
      | Some (v, fs) \<Rightarrow>
          (case v_LogChan v of
             [] \<Rightarrow> Some (write_all os (add_line v m (\<lambda>_. [])) ks' (v, fs))
           | i # is \<Rightarrow> Some (write_all os (add_line v i (add_line v m (\<lambda>_. []))) ks' (v\<lparr>v_LogChan := is\<rparr>, fs))))"

section \<open>Callers and the writer\<close>

text \<open>A caller of \<open>Notice\<close>, \<open>Warning\<close> and the others is idle, about to send, or past its send.  The goroutine of \<open>Run\<close> holds the message it has received until
  \<open>logWriteFile\<close> has written it.  \<open>s_sent\<close> lists the messages in the order of their sends, and \<open>s_log\<close> the messages in the order in which they were
  written, each with the suffix of the time.\<close>

datatype caller = Idle | Sending Msg | Sent

record log_sys =
  s_vlog :: VLog
  s_files :: files
  s_callers :: "nat \<Rightarrow> caller"
  s_held :: "Msg option"
  s_sent :: "Msg list"
  s_log :: "(string \<times> Msg) list"

definition enumerates :: "string list \<Rightarrow> VLog \<Rightarrow> bool" where
  "enumerates ks v \<longleftrightarrow> distinct ks \<and> set ks = Map.dom (v_MergeLogFile v)"

inductive vlog_step :: "os \<Rightarrow> log_sys \<Rightarrow> log_sys may_panic \<Rightarrow> bool" for os where
  call: "s_callers s p = Idle \<Longrightarrow> syncMsg_begin (s_vlog s) LogID ci level msg = Inr (Some m) \<Longrightarrow>
    vlog_step os s (Inr (s\<lparr>s_callers := (s_callers s)(p := Sending m)\<rparr>))"
| send: "s_callers s p = Sending m \<Longrightarrow> int (length (v_LogChan (s_vlog s))) < v_LogChanBuffSize (s_vlog s) \<Longrightarrow>
    vlog_step os s (Inr (s\<lparr>s_callers := (s_callers s)(p := Sent), s_vlog := (s_vlog s)\<lparr>v_LogChan := v_LogChan (s_vlog s) @ [m]\<rparr>, s_sent := s_sent s @ [m]\<rparr>))"
| check: "s_callers s p = Sent \<Longrightarrow> syncMsg_end (s_vlog s) = Inr v \<Longrightarrow> vlog_step os s (Inr (s\<lparr>s_callers := (s_callers s)(p := Idle), s_vlog := v\<rparr>))"
| check_panics: "s_callers s p = Sent \<Longrightarrow> syncMsg_end (s_vlog s) = Inl e \<Longrightarrow> vlog_step os s (Inl e)"
| receive: "s_held s = None \<Longrightarrow> v_LogChan (s_vlog s) = m # ms \<Longrightarrow>
    vlog_step os s (Inr (s\<lparr>s_held := Some m, s_vlog := (s_vlog s)\<lparr>v_LogChan := ms\<rparr>\<rparr>))"
| flush: "s_held s = Some m \<Longrightarrow> enumerates ks (s_vlog s) \<Longrightarrow> enumerates ks' (s_vlog s) \<Longrightarrow>
    logWriteFile os (logSuffix (v_LogCronTime (s_vlog s)) now) ks ks' m (s_vlog s, s_files s) = Some (v, fs) \<Longrightarrow>
    vlog_step os s (Inr (s\<lparr>s_held := None, s_vlog := v, s_files := fs,
      s_log := s_log s @ map (Pair (logSuffix (v_LogCronTime (s_vlog s)) now)) (m # take 1 (v_LogChan (s_vlog s)))\<rparr>))"

definition log_start :: "VLog \<Rightarrow> files \<Rightarrow> log_sys" where
  "log_start v fs = \<lparr>s_vlog = v, s_files = fs, s_callers = (\<lambda>_. Idle), s_held = None, s_sent = [], s_log = []\<rparr>"

section \<open>What the writer does to the files\<close>

definition complete :: "os \<Rightarrow> bool" where
  "complete os \<longleftrightarrow> (\<forall>n k. os_written os n k \<ge> k)"

definition opened :: "VLog \<Rightarrow> files \<Rightarrow> string \<Rightarrow> string \<Rightarrow> bool" where
  "opened v fs x k \<longleftrightarrow> v_MergeLogFile v k = Some (log_name k x) \<and>
     v_MergeLogFd v k = Some \<lparr>fd_name = log_name k x, fd_off = length (str_at fs (log_name k x))\<rparr>"

definition fds_ok :: "VLog \<Rightarrow> files \<Rightarrow> bool" where
  "fds_ok v fs \<longleftrightarrow> (\<forall>k y. v_MergeLogFile v k = Some y \<longrightarrow> (y = [] \<and> v_MergeLogFd v k = None) \<or> (\<exists>x. opened v fs x k))"

text \<open>What none of the writer's functions changes.\<close>

definition same_config :: "VLog \<Rightarrow> VLog \<Rightarrow> bool" where
  "same_config v w \<longleftrightarrow> v_LogFilePath w = v_LogFilePath v \<and> v_LogChanBuffSize w = v_LogChanBuffSize v \<and> v_LogCronTime w = v_LogCronTime v \<and>
     v_LogLevel w = v_LogLevel v \<and> Map.dom (v_MergeLogFile w) = Map.dom (v_MergeLogFile v)"

lemma same_config_refl [simp]: "same_config v v"
  by (simp add: same_config_def)

lemma same_config_trans: "same_config u v \<Longrightarrow> same_config v w \<Longrightarrow> same_config u w"
  by (simp add: same_config_def)

lemma log_name_inj [simp]: "log_name k x = log_name j x \<longleftrightarrow> k = j"
  by (simp add: log_name_def)

lemma log_name_nonempty [simp]: "log_name k x \<noteq> []" "[] \<noteq> log_name k x"
  by (simp_all add: log_name_def)

lemma str_at_upd [simp]: "str_at (m(k \<mapsto> s)) n = (if n = k then s else str_at m n)"
  by (simp add: str_at_def)

lemma str_at_empty [simp]: "str_at (\<lambda>_. None) n = []"
  by (simp add: str_at_def)

lemma opened_cong: "str_at fs' = str_at fs \<Longrightarrow> v_MergeLogFile v' k = v_MergeLogFile v k \<Longrightarrow> v_MergeLogFd v' k = v_MergeLogFd v k \<Longrightarrow>
    opened v' fs' x k = opened v fs x k"
  by (simp add: opened_def)

lemma open_new_spec:
  assumes ok: "fds_ok v fs" and k: "k \<in> Map.dom (v_MergeLogFile v)"
  shows "opened (fst (open_new k (log_name k x) (v, fs))) (snd (open_new k (log_name k x) (v, fs))) x k"
    and "fds_ok (fst (open_new k (log_name k x) (v, fs))) (snd (open_new k (log_name k x) (v, fs)))"
    and "same_config v (fst (open_new k (log_name k x) (v, fs)))" and "v_LogChan (fst (open_new k (log_name k x) (v, fs))) = v_LogChan v"
    and "str_at (snd (open_new k (log_name k x) (v, fs))) = str_at fs"
proof -
  let ?v = "fst (open_new k (log_name k x) (v, fs))" and ?fs = "snd (open_new k (log_name k x) (v, fs))"
  show fs: "str_at ?fs = str_at fs" by (rule ext) (simp add: open_new_def Let_def)
  show op: "opened ?v ?fs x k" by (simp add: opened_def open_new_def Let_def)
  show "same_config v ?v" using k by (auto simp: same_config_def open_new_def Let_def)
  show "v_LogChan ?v = v_LogChan v" by (simp add: open_new_def Let_def)
  have other: "opened ?v ?fs z j = opened v fs z j" if "j \<noteq> k" for z j
    using that by (intro opened_cong fs) (simp_all add: open_new_def Let_def)
  show "fds_ok ?v ?fs"
    unfolding fds_ok_def
  proof (intro allI impI)
    fix j y assume j: "v_MergeLogFile ?v j = Some y"
    show "(y = [] \<and> v_MergeLogFd ?v j = None) \<or> (\<exists>z. opened ?v ?fs z j)"
    proof (cases "j = k")
      case False
      then have "v_MergeLogFile v j = Some y" "v_MergeLogFd ?v j = v_MergeLogFd v j" using j by (simp_all add: open_new_def Let_def)
      then show ?thesis using ok other[OF False] unfolding fds_ok_def by metis
    qed (use op in blast)
  qed
qed

lemma open_new_other:
  "j \<noteq> k \<Longrightarrow> opened (fst (open_new k (log_name k x) (v, fs))) (snd (open_new k (log_name k x) (v, fs))) z j = opened v fs z j"
  by (rule opened_cong) (auto simp: open_new_def Let_def fun_eq_iff)

lemma fds_ok_current:
  assumes "fds_ok v fs" "log_name k x = str_at (v_MergeLogFile v) k" "k \<in> Map.dom (v_MergeLogFile v)"
  shows "opened v fs x k"
proof -
  obtain y where y: "v_MergeLogFile v k = Some y" using assms(3) by blast
  with assms(2) have yn: "y = log_name k x" by (simp add: str_at_def)
  obtain z where z: "opened v fs z k" using assms(1) y yn unfolding fds_ok_def by (metis log_name_nonempty(1))
  have "log_name k z = log_name k x" using z y yn by (simp add: opened_def)
  with z show ?thesis by (simp add: opened_def)
qed

lemma logOpenFile_spec:
  "logOpenFile os x ks (v, fs) = Some (v', fs') \<Longrightarrow> fds_ok v fs \<Longrightarrow> set ks \<subseteq> Map.dom (v_MergeLogFile v) \<Longrightarrow>
     str_at fs' = str_at fs \<and> fds_ok v' fs' \<and> same_config v v' \<and> v_LogChan v' = v_LogChan v \<and> (\<forall>k\<in>set ks. opened v' fs' x k) \<and>
     (\<forall>k. opened v fs x k \<longrightarrow> opened v' fs' x k)"
proof (induction ks arbitrary: v fs)
  case (Cons k ks)
  let ?w = "fst (open_new k (log_name k x) (v, fs))" and ?gs = "snd (open_new k (log_name k x) (v, fs))"
  have k: "k \<in> Map.dom (v_MergeLogFile v)" using Cons.prems(3) by simp
  note new = open_new_spec[OF Cons.prems(2) k, of x]
  show ?case
  proof (cases "log_name k x = str_at (v_MergeLogFile v) k")
    case True
    have op: "opened v fs x k" by (rule fds_ok_current[OF Cons.prems(2) True k])
    have "logOpenFile os x ks (v, fs) = Some (v', fs')" using Cons.prems(1) True by (simp add: Let_def)
    from Cons.IH[OF this Cons.prems(2)] Cons.prems(3) op show ?thesis by auto
  next
    case False
    have "logOpenFile os x ks (?w, ?gs) = Some (v', fs')"
      using Cons.prems(1) False by (auto simp: Let_def split: if_splits)
    moreover have "set ks \<subseteq> Map.dom (v_MergeLogFile ?w)" using new(3) Cons.prems(3) by (simp add: same_config_def)
    ultimately have IH: "str_at fs' = str_at ?gs \<and> fds_ok v' fs' \<and> same_config ?w v' \<and> v_LogChan v' = v_LogChan ?w \<and> (\<forall>k\<in>set ks. opened v' fs' x k) \<and>
       (\<forall>k. opened ?w ?gs x k \<longrightarrow> opened v' fs' x k)"
      using Cons.IH new(2) by blast
    have keep: "opened v fs x j \<Longrightarrow> opened ?w ?gs x j" for j
      using new(1) open_new_other[of j k x v fs x] by (cases "j = k") auto
    show ?thesis using IH new keep same_config_trans[OF new(3)] by auto
  qed
qed simp

lemma write_at_end [simp]: "write_at (length c) s c = c @ s"
  by (simp add: write_at_def)

lemma completeD: "complete os \<Longrightarrow> take (os_written os n (length s)) s = s"
  by (simp add: complete_def)

lemma WriteString_spec:
  assumes os: "complete os" and k: "opened v fs x k"
  shows "opened (fst (WriteString os k s (v, fs))) (snd (WriteString os k s (v, fs))) x k"
    and "j \<noteq> k \<Longrightarrow> opened (fst (WriteString os k s (v, fs))) (snd (WriteString os k s (v, fs))) x j = opened v fs x j"
    and "str_at (snd (WriteString os k s (v, fs))) = (str_at fs)(log_name k x := str_at fs (log_name k x) @ s)"
    and "same_config v (fst (WriteString os k s (v, fs)))" and "v_LogChan (fst (WriteString os k s (v, fs))) = v_LogChan v"
  using k by (auto simp: WriteString_def opened_def completeD[OF os] Let_def same_config_def fun_eq_iff)

lemma write_all_spec:
  assumes os: "complete os"
  shows "\<forall>k\<in>set all. opened v fs x k \<Longrightarrow> set ks \<subseteq> set all \<Longrightarrow> distinct ks \<Longrightarrow> write_all os logMap ks (v, fs) = (v', fs') \<Longrightarrow>
     (\<forall>k\<in>set all. opened v' fs' x k) \<and> same_config v v' \<and> v_LogChan v' = v_LogChan v \<and>
     (\<forall>k\<in>set ks. str_at fs' (log_name k x) = str_at fs (log_name k x) @ concat (logMap k)) \<and>
     (\<forall>n. n \<notin> (\<lambda>k. log_name k x) ` set ks \<longrightarrow> str_at fs' n = str_at fs n)"
proof (induction ks arbitrary: v fs)
  case (Cons k ks)
  obtain w gs where w: "(if logMap k = [] then (v, fs) else WriteString os k (concat (logMap k)) (v, fs)) = (w, gs)" by (metis surj_pair)
  have k: "opened v fs x k" using Cons.prems(1,2) by auto
  have step: "(\<forall>j\<in>set all. opened w gs x j) \<and> same_config v w \<and> v_LogChan w = v_LogChan v \<and>
      str_at gs = (str_at fs)(log_name k x := str_at fs (log_name k x) @ concat (logMap k))"
  proof (cases "logMap k = []")
    case True
    then show ?thesis using w Cons.prems(1) by auto
  next
    case False
    then have "w = fst (WriteString os k (concat (logMap k)) (v, fs))" "gs = snd (WriteString os k (concat (logMap k)) (v, fs))" using w by simp_all
    then show ?thesis using WriteString_spec[OF os k, where s = "concat (logMap k)"] Cons.prems(1) by metis
  qed
  have "write_all os logMap ks (w, gs) = (v', fs')" using Cons.prems(4) w by simp
  from Cons.IH[OF _ _ _ this] step Cons.prems(2,3)
  have IH: "(\<forall>k\<in>set all. opened v' fs' x k) \<and> same_config w v' \<and> v_LogChan v' = v_LogChan w \<and>
     (\<forall>k\<in>set ks. str_at fs' (log_name k x) = str_at gs (log_name k x) @ concat (logMap k)) \<and>
     (\<forall>n. n \<notin> (\<lambda>k. log_name k x) ` set ks \<longrightarrow> str_at fs' n = str_at gs n)" by auto
  have sc: "same_config v v'" using IH step same_config_trans by blast
  have "log_name k x \<notin> (\<lambda>k. log_name k x) ` set ks" using Cons.prems(3) by auto
  then have "str_at fs' (log_name k x) = str_at gs (log_name k x)" using IH by blast
  then show ?case using IH step Cons.prems(3) sc by auto
qed simp

text \<open>The messages that go to the file \<open>n\<close>, in their order.\<close>

definition lines_for :: "(int \<rightharpoonup> string) \<Rightarrow> string \<Rightarrow> (string \<times> Msg) list \<Rightarrow> string" where
  "lines_for paths n log = concat (map (m_Data \<circ> snd) (filter (\<lambda>e. log_name (str_at paths (m_Level (snd e))) (fst e) = n) log))"

lemma lines_for_append [simp]: "lines_for paths n (l @ l') = lines_for paths n l @ lines_for paths n l'"
  by (simp add: lines_for_def)

lemma lines_for_Nil [simp]: "lines_for paths n [] = []"
  by (simp add: lines_for_def)

lemma lines_for_none: "(\<forall>m\<in>set ms. log_name (str_at paths (m_Level m)) x \<noteq> n) \<Longrightarrow> lines_for paths n (map (Pair x) ms) = []"
  by (auto simp: lines_for_def filter_map comp_def)

lemma add_line_lines:
  "concat (add_line v m (\<lambda>_. []) k) = lines_for (v_LogFilePath v) (log_name k x) [(x, m)]"
  "concat (add_line v i (add_line v m (\<lambda>_. [])) k) = lines_for (v_LogFilePath v) (log_name k x) [(x, m), (x, i)]"
  by (auto simp: add_line_def lines_for_def path_of_def)

lemma opened_fds_ok: "(\<forall>k\<in>Map.dom (v_MergeLogFile v). opened v fs x k) \<Longrightarrow> fds_ok v fs"
  by (auto simp: fds_ok_def)

lemma logWriteFile_spec:
  assumes os: "complete os" and ok: "fds_ok v fs" and ks: "enumerates ks v" "enumerates ks' v"
    and lev: "\<forall>m\<in>set (m # v_LogChan v). path_of v m \<in> Map.dom (v_MergeLogFile v)"
    and wr: "logWriteFile os x ks ks' m (v, fs) = Some (v', fs')"
  shows "fds_ok v' fs'" and "same_config v v'" and "v_LogChan v' = tl (v_LogChan v)"
    and "str_at fs' n = str_at fs n @ lines_for (v_LogFilePath v) n (map (Pair x) (m # take 1 (v_LogChan v)))"
proof -
  obtain w gs where op: "logOpenFile os x ks (v, fs) = Some (w, gs)" using wr by (auto simp: logWriteFile_def split: option.splits)
  from logOpenFile_spec[OF op ok] ks(1)
  have w: "str_at gs = str_at fs" "same_config v w" "v_LogChan w = v_LogChan v" "\<forall>k\<in>set ks. opened w gs x k" by (auto simp: enumerates_def)
  define u where "u = w\<lparr>v_LogChan := tl (v_LogChan v)\<rparr>"
  define ms where "ms = m # take 1 (v_LogChan v)"
  have wp: "v_LogFilePath w = v_LogFilePath v" using w(2) by (simp add: same_config_def)
  obtain lm where all: "write_all os lm ks' (u, gs) = (v', fs')" and lm: "\<And>k. concat (lm k) = lines_for (v_LogFilePath v) (log_name k x) (map (Pair x) ms)"
  proof (cases "v_LogChan v")
    case Nil
    then have "u = w" by (simp add: u_def w(3)[symmetric])
    then have "write_all os (add_line w m (\<lambda>_. [])) ks' (u, gs) = (v', fs')" using wr op w(3) Nil by (simp add: logWriteFile_def)
    then show ?thesis by (rule that) (simp add: add_line_lines(1)[of w m _ x] wp ms_def Nil)
  next
    case (Cons i "is")
    then have "write_all os (add_line w i (add_line w m (\<lambda>_. []))) ks' (u, gs) = (v', fs')" using wr op w(3) by (simp add: logWriteFile_def u_def)
    then show ?thesis by (rule that) (simp add: add_line_lines(2)[of w i m _ x] wp ms_def Cons)
  qed
  have u: "\<forall>k\<in>set ks. opened u gs x k" "same_config v u" using w by (auto simp: u_def opened_def same_config_def)
  have sub: "set ks' \<subseteq> set ks" "distinct ks'" "set ks = set ks'" using ks by (auto simp: enumerates_def)
  note res = write_all_spec[OF os u(1) sub(1,2) all]
  show sc: "same_config v v'" using res u(2) same_config_trans by blast
  show "v_LogChan v' = tl (v_LogChan v)" using res by (simp add: u_def)
  have "Map.dom (v_MergeLogFile v') = set ks" using sc ks(1) by (simp add: same_config_def enumerates_def)
  then show "fds_ok v' fs'" using res by (intro opened_fds_ok[of v' fs' x]) simp
  have mem: "\<forall>m\<in>set ms. str_at (v_LogFilePath v) (m_Level m) \<in> set ks'"
    using lev ks(2) by (cases "v_LogChan v") (auto simp: ms_def path_of_def enumerates_def)
  show "str_at fs' n = str_at fs n @ lines_for (v_LogFilePath v) n (map (Pair x) (m # take 1 (v_LogChan v)))"
  proof (cases "n \<in> (\<lambda>k. log_name k x) ` set ks'")
    case True
    then show ?thesis using res w(1) lm by (auto simp: ms_def)
  next
    case False
    then have "\<forall>m\<in>set ms. log_name (str_at (v_LogFilePath v) (m_Level m)) x \<noteq> n" using mem by blast
    then show ?thesis using res w(1) False lines_for_none[of ms] by (simp add: ms_def)
  qed
qed

section \<open>The invariant of the logger\<close>

lemma level_paths_dom: "Map.dom (level_paths c) = Map.dom logLevelMap"
  by (auto simp: level_paths_def logLevelMap_def level_defs)

lemma level_path_merged: "l \<in> Map.dom logLevelMap \<Longrightarrow> str_at (level_paths c) l \<in> set (merged_paths c)"
  by (auto simp: level_paths_def logLevelMap_def level_defs str_at_def merged_paths_def split: if_splits)

lemma syncMsg_begin_level: "syncMsg_begin v LogID ci level msg = Inr (Some m) \<Longrightarrow> m_Level m \<in> Map.dom logLevelMap"
  by (auto simp: syncMsg_begin_def padMsg_def split: if_splits option.splits)

definition pending :: "log_sys \<Rightarrow> Msg list" where
  "pending s = (case s_held s of None \<Rightarrow> [] | Some m \<Rightarrow> [m]) @ v_LogChan (s_vlog s)"

definition log_config :: "VlogConf \<Rightarrow> VLog \<Rightarrow> bool" where
  "log_config c v \<longleftrightarrow> v_LogFilePath v = level_paths c \<and> Map.dom (v_MergeLogFile v) = set (merged_paths c)"

definition log_levels :: "log_sys \<Rightarrow> bool" where
  "log_levels s \<longleftrightarrow> (\<forall>p m. s_callers s p = Sending m \<longrightarrow> m_Level m \<in> Map.dom logLevelMap) \<and> (\<forall>m\<in>set (pending s). m_Level m \<in> Map.dom logLevelMap)"

definition log_inv :: "VlogConf \<Rightarrow> files \<Rightarrow> log_sys \<Rightarrow> bool" where
  "log_inv c fs0 s \<longleftrightarrow> log_config c (s_vlog s) \<and> log_levels s \<and> fds_ok (s_vlog s) (s_files s) \<and> s_sent s = map snd (s_log s) @ pending s \<and>
     (\<forall>n. str_at (s_files s) n = str_at fs0 n @ lines_for (level_paths c) n (s_log s))"

lemma same_config_log: "same_config v w \<Longrightarrow> log_config c w = log_config c v"
  by (simp add: same_config_def log_config_def)

lemma fds_ok_chan: "fds_ok (v\<lparr>v_LogChan := ch\<rparr>) fs = fds_ok v fs"
  by (simp add: fds_ok_def opened_def)

lemma log_config_chan: "log_config c (v\<lparr>v_LogChan := ch\<rparr>) = log_config c v"
  by (simp add: log_config_def)

lemma syncMsg_end_same: "syncMsg_end v = Inr w \<Longrightarrow> w = v"
  by (simp add: syncMsg_end_def split: if_splits)

lemma flush_inv:
  assumes os: "complete os" and inv: "log_inv c fs0 s" and held: "s_held s = Some m"
    and ks: "enumerates ks (s_vlog s)" "enumerates ks' (s_vlog s)"
    and wr: "logWriteFile os x ks ks' m (s_vlog s, s_files s) = Some (v, fs)"
  shows "log_inv c fs0 (s\<lparr>s_held := None, s_vlog := v, s_files := fs, s_log := s_log s @ map (Pair x) (m # take 1 (v_LogChan (s_vlog s)))\<rparr>)"
proof -
  have pend: "pending s = m # v_LogChan (s_vlog s)" using held by (simp add: pending_def)
  have cfg: "log_config c (s_vlog s)" and ok: "fds_ok (s_vlog s) (s_files s)" and lv: "log_levels s" using inv by (simp_all add: log_inv_def)
  have lev: "\<forall>m\<in>set (m # v_LogChan (s_vlog s)). path_of (s_vlog s) m \<in> Map.dom (v_MergeLogFile (s_vlog s))"
    using lv cfg level_path_merged unfolding pend[symmetric] log_levels_def path_of_def log_config_def by metis
  note res = logWriteFile_spec[OF os ok ks lev wr]
  have split: "v_LogChan (s_vlog s) = take 1 (v_LogChan (s_vlog s)) @ tl (v_LogChan (s_vlog s))" by (cases "v_LogChan (s_vlog s)") auto
  have "set (tl (v_LogChan (s_vlog s))) \<subseteq> set (pending s)" unfolding pend by (cases "v_LogChan (s_vlog s)") auto
  then have "log_levels (s\<lparr>s_held := None, s_vlog := v, s_files := fs, s_log := s_log s @ map (Pair x) (m # take 1 (v_LogChan (s_vlog s)))\<rparr>)"
    using lv res(3) unfolding log_levels_def by (auto simp: pending_def)
  moreover have "s_sent s = map snd (s_log s) @ m # take 1 (v_LogChan (s_vlog s)) @ tl (v_LogChan (s_vlog s))"
    using inv split unfolding log_inv_def pend by simp
  moreover have "v_LogFilePath (s_vlog s) = level_paths c" using cfg by (simp add: log_config_def)
  ultimately show ?thesis
    using inv res(1,3,4) same_config_log[OF res(2)] cfg by (simp add: log_inv_def pending_def comp_def)
qed

lemma vlog_step_inv:
  assumes os: "complete os" and inv: "log_inv c fs0 s" and st: "vlog_step os s (Inr s')"
  shows "log_inv c fs0 s'"
  using st
proof (cases rule: vlog_step.cases)
  case (call p LogID ci level msg m)
  then show ?thesis using inv syncMsg_begin_level[OF call(3)] by (auto simp: log_inv_def log_levels_def pending_def)
next
  case (send p m)
  then show ?thesis using inv by (auto simp: log_inv_def log_levels_def pending_def fds_ok_chan log_config_chan)
next
  case (check p v)
  then show ?thesis using inv syncMsg_end_same[OF check(3)] by (auto simp: log_inv_def log_levels_def pending_def)
next
  case (receive m ms)
  then show ?thesis using inv by (auto simp: log_inv_def log_levels_def pending_def fds_ok_chan log_config_chan)
next
  case (flush m ks ks' now v fs)
  then show ?thesis using flush_inv[OF os inv] by blast
qed

lemma log_start_inv:
  assumes "LogInit v = Some v'" "v_LogConf v = Some c"
  shows "log_inv c fs (log_start v' fs)"
proof -
  have "log_config c v'" "v_LogChan v' = []" "v_MergeLogFd v' = (\<lambda>_. None)" "\<And>k y. v_MergeLogFile v' k = Some y \<Longrightarrow> y = []"
    using assms by (auto simp: LogInit_def log_config_def split: if_splits)
  then show ?thesis by (auto simp: log_inv_def log_start_def log_levels_def pending_def fds_ok_def)
qed

text \<open>The only panic is that of a caller who finds the channel nine tenths full.\<close>

definition high_water :: "log_sys \<Rightarrow> panic \<Rightarrow> bool" where
  "high_water s e \<longleftrightarrow> e = NilDereference \<and> 10 * int (length (v_LogChan (s_vlog s))) \<ge> 9 * v_LogChanBuffSize (s_vlog s)"

lemma vlog_step_panic: "vlog_step os s (Inl e) \<Longrightarrow> high_water s e"
  by (cases rule: vlog_step.cases) (auto simp: high_water_def syncMsg_end_def split: if_splits)

interpretation logger: panics_only "vlog_step os" "\<lambda>s. complete os \<and> log_inv c fs0 s" high_water for os c fs0
  by unfold_locales (auto split: sum.splits intro: vlog_step_inv vlog_step_panic)

section \<open>Properties\<close>

text \<open>C33: The logger loses, repeats and reorders nothing: with complete writes, any number of callers and any interleaving with the writer, the messages sent are,
  in the order of their sends, those written, followed by the one the writer holds and those in the channel; and every file has what it had before and then the
  written messages whose level is configured for it and whose suffix it carries, in this order, whatever happens to the clock.\<close>

theorem vlog_written_once:
  assumes "LogInit v = Some v'" and "v_LogConf v = Some c" and "complete os" and "reach (vlog_step os) (log_start v' fs) s"
  shows "s_sent s = map snd (s_log s) @ pending s \<and> str_at (s_files s) n = str_at fs n @ lines_for (level_paths c) n (s_log s)"
  using logger.steps_keep[OF assms(4), of c fs] log_start_inv[OF assms(1,2)] assms(3) by (simp add: log_inv_def)

definition example_conf :: VlogConf where
  "example_conf = \<lparr>c_LogNoticeFilePath = ''a.log'', c_LogDebugFilePath = ''a.log'', c_LogTraceFilePath = ''a.log'', c_LogFatalFilePath = ''a.wf'',
     c_LogWarningFilePath = ''a.wf'', c_LogCronTime = ''day'', c_LogChanBuffSize = 10, c_LogFlushTimer = 1000, c_LogDebugOpen = 0, c_LogLevel = 31\<rparr>"

definition example_os :: os where
  "example_os = \<lparr>os_close_ok = (\<lambda>_. True), os_open_ok = (\<lambda>_. True), os_written = (\<lambda>_ k. k)\<rparr>"

definition example_vlog :: VLog where
  "example_vlog = the (LogInit (new_VLog\<lparr>v_LogConf := Some example_conf\<rparr>))"

definition example_msg :: Msg where
  "example_msg = \<lparr>m_Level = LOG_LEVEL_NOTICE, m_Data = ''NOTICE: 2024 [logid=7 file=main.go, no=3 call=f] x'' @ [CHR 0x0A]\<rparr>"

definition example_info :: call_info where
  "example_info = \<lparr>ci_caller = Some (''f'', ''main.go'', 3), ci_ymdHis = ''2024'', ci_nano = 0, ci_rand = 0\<rparr>"

lemma example_init: "LogInit (new_VLog\<lparr>v_LogConf := Some example_conf\<rparr>) = Some example_vlog"
  by (simp add: example_vlog_def LogInit_def)

lemma Itoa_3: "Itoa 3 = ''3''"
  by code_simp

lemma example_call: "syncMsg_begin example_vlog ''7'' example_info LOG_LEVEL_NOTICE ''x'' = Inr (Some example_msg)"
  by (simp add: syncMsg_begin_def example_vlog_def LogInit_def example_conf_def padMsg_def example_info_def logLevelMap_def level_defs getLogID_def
      short_file_def dirSep_def Split_def Itoa_3 example_msg_def Let_def)

lemma logOpenFile_ok: "logOpenFile example_os x ks vf \<noteq> None"
  by (induction ks arbitrary: vf) (simp_all add: example_os_def Let_def)

lemma logWriteFile_ok: "logWriteFile example_os x ks ks' m vf \<noteq> None"
  using logOpenFile_ok[of x ks vf] by (auto simp: logWriteFile_def split: option.splits list.splits)

text \<open>Executions that write: a caller logs a message, and the writer receives and writes it.\<close>

definition log_sending :: "log_sys \<Rightarrow> log_sys" where
  "log_sending s = s\<lparr>s_callers := (s_callers s)(0 := Sending example_msg)\<rparr>"

definition log_sent :: "log_sys \<Rightarrow> log_sys" where
  "log_sent s = s\<lparr>s_callers := (s_callers s)(0 := Sent), s_vlog := (s_vlog s)\<lparr>v_LogChan := v_LogChan (s_vlog s) @ [example_msg]\<rparr>, s_sent := s_sent s @ [example_msg]\<rparr>"

lemma log_sent_reach:
  assumes r: "reach (vlog_step os) s0 s" and idle: "s_callers s 0 = Idle" and room: "int (length (v_LogChan (s_vlog s))) < v_LogChanBuffSize (s_vlog s)"
    and acc: "syncMsg_begin (s_vlog s) ''7'' example_info LOG_LEVEL_NOTICE ''x'' = Inr (Some example_msg)"
  shows "reach (vlog_step os) s0 (log_sent s)"
proof -
  have "reach (vlog_step os) s0 (log_sending s)" unfolding log_sending_def by (rule reach_step[OF r vlog_step.call[OF idle acc]])
  moreover have "vlog_step os (log_sending s) (Inr (log_sent s))"
    using vlog_step.send[of "log_sending s" 0 example_msg os] room by (simp add: log_sending_def log_sent_def)
  ultimately show ?thesis by (rule reach_step)
qed

lemma example_enum: "enumerates [''a.log'', ''a.wf''] (example_vlog\<lparr>v_LogChan := ch\<rparr>)"
  by (auto simp: enumerates_def example_vlog_def LogInit_def example_conf_def merged_paths_def split: if_splits)

theorem vlog_written_once_witness:
  "\<exists>s x. reach (vlog_step example_os) (log_start example_vlog Map.empty) s \<and> s_sent s = [example_msg] \<and> pending s = [] \<and>
     str_at (s_files s) (''a.log.'' @ x) = m_Data example_msg"
proof -
  let ?s = "log_start example_vlog Map.empty"
  let ?r = "(log_sent ?s)\<lparr>s_held := Some example_msg, s_vlog := (s_vlog (log_sent ?s))\<lparr>v_LogChan := []\<rparr>\<rparr>"
  let ?x = "logSuffix (v_LogCronTime (s_vlog ?r)) zero_time"
  have chan: "v_LogChan example_vlog = []" "int (length (v_LogChan example_vlog)) < v_LogChanBuffSize example_vlog"
    by (simp_all add: example_vlog_def LogInit_def example_conf_def)
  have r1: "reach (vlog_step example_os) ?s (log_sent ?s)"
    by (rule log_sent_reach[OF rtranclp.rtrancl_refl]) (simp_all add: log_start_def example_call chan(2))
  have "vlog_step example_os (log_sent ?s) (Inr ?r)"
    by (rule vlog_step.receive) (simp_all add: log_sent_def log_start_def chan)
  with r1 have r2: "reach (vlog_step example_os) ?s ?r" by (rule reach_step)
  obtain v fs where w: "logWriteFile example_os ?x [''a.log'', ''a.wf''] [''a.log'', ''a.wf''] example_msg (s_vlog ?r, s_files ?r) = Some (v, fs)"
    using logWriteFile_ok by fast
  let ?t = "?r\<lparr>s_held := None, s_vlog := v, s_files := fs, s_log := s_log ?r @ map (Pair ?x) (example_msg # take 1 (v_LogChan (s_vlog ?r)))\<rparr>"
  have en: "enumerates [''a.log'', ''a.wf''] (s_vlog ?r)" using example_enum[of "[]"] by (simp add: log_sent_def log_start_def)
  have held: "s_held ?r = Some example_msg" by simp
  have r3: "reach (vlog_step example_os) ?s ?t" by (rule reach_step[OF r2 vlog_step.flush[OF held en en w]])
  have com: "complete example_os" by (simp add: complete_def example_os_def)
  have sent: "s_sent ?t = [example_msg]" "s_log ?t = [(?x, example_msg)]" by (simp_all add: log_sent_def log_start_def)
  have path: "str_at (level_paths example_conf) (m_Level example_msg) = ''a.log''"
    by (simp add: level_paths_def str_at_def example_msg_def example_conf_def level_defs)
  have conf: "v_LogConf (new_VLog\<lparr>v_LogConf := Some example_conf\<rparr>) = Some example_conf" by simp
  note th = vlog_written_once[OF example_init conf com r3, of "log_name ''a.log'' ?x"]
  have "pending ?t = []" using th sent by simp
  moreover have "str_at (s_files ?t) (log_name ''a.log'' ?x) = m_Data example_msg"
    using th unfolding sent lines_for_def by (simp add: path)
  ultimately show ?thesis using r3 sent(1) by (intro exI[of _ ?t] exI[of _ ?x]) (simp add: log_name_def)
qed

section \<open>The high-water mark\<close>

text \<open>A caller whose message fills the channel to nine tenths takes the mutex, which is nil.  So for every configuration that accepts messages there is an execution
  that ends the program with a panic: nine tenths of the channel are filled before the writer receives anything.\<close>

lemma notice_accepted:
  assumes "LOG_LEVEL_NOTICE AND v_LogLevel v = LOG_LEVEL_NOTICE"
  shows "syncMsg_begin (v\<lparr>v_LogChan := ch\<rparr>) ''7'' example_info LOG_LEVEL_NOTICE ''x'' = Inr (Some example_msg)"
  using example_call assms by (simp add: syncMsg_begin_def example_vlog_def LogInit_def example_conf_def level_defs split: if_splits)

lemma fill_reach:
  assumes v: "v_LogChan v = []" "0 < v_LogChanBuffSize v" "LOG_LEVEL_NOTICE AND v_LogLevel v = LOG_LEVEL_NOTICE" and k: "10 * int k < 9 * v_LogChanBuffSize v"
  shows "\<exists>s. reach (vlog_step os) (log_start v fs) s \<and> s_callers s 0 = Idle \<and> s_vlog s = v\<lparr>v_LogChan := replicate k example_msg\<rparr>"
  using k
proof (induction k)
  case 0
  then show ?case using v(1) by (intro exI[of _ "log_start v fs"]) (simp add: rtranclp.rtrancl_refl log_start_def)
next
  case (Suc k)
  then obtain s where s: "reach (vlog_step os) (log_start v fs) s" "s_callers s 0 = Idle" "s_vlog s = v\<lparr>v_LogChan := replicate k example_msg\<rparr>" by fastforce
  have acc: "syncMsg_begin (s_vlog s) ''7'' example_info LOG_LEVEL_NOTICE ''x'' = Inr (Some example_msg)"
    unfolding s(3) by (rule notice_accepted[OF v(3)])
  have r: "reach (vlog_step os) (log_start v fs) (log_sent s)"
    using Suc.prems v(2) by (intro log_sent_reach[OF s(1,2) _ acc]) (simp add: s(3))
  have "syncMsg_end (s_vlog (log_sent s)) = Inr (s_vlog (log_sent s))"
    using Suc.prems by (simp add: syncMsg_end_def log_sent_def s(3))
  from vlog_step.check[of "log_sent s" 0, OF _ this]
  have "vlog_step os (log_sent s) (Inr ((log_sent s)\<lparr>s_callers := (s_callers (log_sent s))(0 := Idle), s_vlog := s_vlog (log_sent s)\<rparr>))" by (simp add: log_sent_def)
  from reach_step[OF r this] show ?case
    by (intro exI[of _ "(log_sent s)\<lparr>s_callers := (s_callers (log_sent s))(0 := Idle), s_vlog := s_vlog (log_sent s)\<rparr>"])
       (simp add: log_sent_def s(3) replicate_append_same)
qed

lemma nine_tenths:
  assumes "0 < (n :: int)"
  obtains k :: nat where "10 * int k < 9 * n" "9 * n \<le> 10 * int (k + 1)" "int k < n"
proof -
  obtain q r where "9 * n - 1 = 10 * q + r" "0 \<le> r" "r < 10" using mult_div_mod_eq[of 10 "9 * n - 1"] by (metis pos_mod_bound pos_mod_sign zero_less_numeral)
  then have q: "9 * n = 10 * q + r + 1" "0 \<le> r" "r \<le> 9" "1 \<le> n" using assms by simp_all
  have "10 * q < 9 * n" using q by linarith
  moreover have "9 * n \<le> 10 * (q + 1)" unfolding q(1) using q(3) by simp
  moreover have "q < n" using q by linarith
  moreover have "-1 \<le> 10 * q" using q by linarith
  then have "0 \<le> q" by presburger
  ultimately show ?thesis by (intro that[of "nat q"]) simp_all
qed

text \<open>A logger that accepts notices can end the program: some execution fills the channel to nine tenths of its size and then dereferences nil.\<close>

theorem high_water_panics:
  assumes "LogInit v = Some v'" and "LOG_LEVEL_NOTICE AND v_LogLevel v' = LOG_LEVEL_NOTICE"
  shows "\<exists>s. reach (vlog_step os) (log_start v' fs) s \<and> vlog_step os s (Inl NilDereference)"
proof -
  let ?n = "v_LogChanBuffSize v'"
  have v: "v_LogChan v' = []" "0 < ?n" using assms(1) by (auto simp: LogInit_def split: option.splits)
  obtain k where k: "10 * int k < 9 * ?n" "9 * ?n \<le> 10 * int (k + 1)" "int k < ?n" using nine_tenths[OF v(2)] by blast
  obtain s where s: "reach (vlog_step os) (log_start v' fs) s" "s_callers s 0 = Idle" "s_vlog s = v'\<lparr>v_LogChan := replicate k example_msg\<rparr>"
    using fill_reach[OF v assms(2) k(1)] by blast
  have "reach (vlog_step os) (log_start v' fs) (log_sent s)"
    using k(3) by (intro log_sent_reach[OF s(1,2)]) (simp_all add: s(3) notice_accepted[OF assms(2)])
  moreover have "syncMsg_end (s_vlog (log_sent s)) = Inl NilDereference" using k(2) by (simp add: syncMsg_end_def log_sent_def s(3))
  ultimately show ?thesis using vlog_step.check_panics[of "log_sent s" 0 NilDereference os] by (auto simp: log_sent_def)
qed

section \<open>Rotation\<close>

text \<open>The period of a time for which a file is written: the day, the ten minutes, or the hour.\<close>

definition period :: "string \<Rightarrow> time \<Rightarrow> int" where
  "period cron t = (if cron = ''day'' then local_day t else if cron = ''ten'' then local_sec t div 600 else local_sec t div 3600)"

text \<open>With all levels enabled every method sends a line that begins with the name of its own level and ends with the message.\<close>

definition log_methods :: "(int \<times> string \<times> (VLog \<Rightarrow> Logger \<Rightarrow> call_info \<Rightarrow> string \<Rightarrow> string + Msg option)) list" where
  "log_methods = [(1, ''FATAL'', Logger_Fatal), (2, ''WARNING'', Logger_Warning), (4, ''NOTICE'', Logger_Notice), (8, ''TRACE'', Logger_Trace), (16, ''DEBUG'', Logger_Debug)]"

lemmas method_defs = Logger_Fatal_def Logger_Warning_def Logger_Notice_def Logger_Trace_def Logger_Debug_def

lemma syncMsg_line:
  assumes "level AND v_LogLevel v = level" "0 < level" "logLevelMap level = Some name" "ci_caller ci = Some c" "msg \<noteq> []"
  shows "\<exists>mid. syncMsg_begin v LogID ci level msg = Inr (Some \<lparr>m_Level = level, m_Data = name @ mid @ msg @ [CHR 0x0A]\<rparr>)"
  using assms by (cases c) (simp add: syncMsg_begin_def padMsg_def)

theorem log_methods_lines:
  assumes "v_LogLevel v = 31" "ci_caller ci = Some c" "msg \<noteq> []"
  shows "list_all (\<lambda>(level, name, meth). \<exists>mid. meth v l ci msg = Inr (Some \<lparr>m_Level = level, m_Data = name @ mid @ msg @ [CHR 0x0A]\<rparr>)) log_methods"
proof -
  note line = syncMsg_line[OF _ _ _ assms(2,3), of _ v _ "lg_LogID l"]
  show ?thesis
    using line[of 1 "''FATAL''"] line[of 2 "''WARNING''"] line[of 4 "''NOTICE''"] line[of 8 "''TRACE''"] line[of 16 "''DEBUG''"] assms(1)
    by (simp add: log_methods_def method_defs level_defs logLevelMap_def)
qed

lemma length_nat_digits: "n < 10 ^ w \<Longrightarrow> 0 < w \<Longrightarrow> length (nat_digits n) \<le> w"
proof (induction n arbitrary: w rule: nat_digits.induct)
  case (1 n)
  show ?case
  proof (cases "n < 10")
    case True
    then show ?thesis using 1(3) by (subst nat_digits.simps) simp
  next
    case False
    then obtain u where u: "w = Suc u" "0 < u" using 1(2,3) by (cases w; cases "w - 1") auto
    have "n div 10 < 10 ^ u" using 1(2) u(1) by (simp add: div_less_iff_less_mult)
    with 1(1)[OF False _ u(2)] False u(1) show ?thesis by (subst nat_digits.simps) simp
  qed
qed

lemma digits_val_zeros: "digits_val (replicate k (CHR ''0'') @ s) = digits_val s"
proof -
  have "foldl (\<lambda>n c. 10 * n + digit_val c) 0 (replicate k (CHR ''0'')) = 0" by (induction k) (simp_all add: digit_val_def)
  then show ?thesis by (simp add: digits_val_def)
qed

lemma pad_length: "0 \<le> n \<Longrightarrow> n < 10 ^ w \<Longrightarrow> 0 < w \<Longrightarrow> length (pad w n) = w"
  using length_nat_digits[of "nat n" w] by (simp add: pad_def Itoa_def nat_less_iff)

lemma pad_val: "0 \<le> n \<Longrightarrow> digits_val (pad w n) = n"
  by (simp add: pad_def digits_val_zeros Itoa_def digits_val_nat_digits)

lemma pad_inj: "pad w m = pad w n \<Longrightarrow> 0 \<le> m \<Longrightarrow> 0 \<le> n \<Longrightarrow> m = n"
  using pad_val by metis

lemma local_day_cong: "Year t = Year u \<Longrightarrow> Month t = Month u \<Longrightarrow> Day t = Day u \<Longrightarrow> local_day t = local_day u"
  using day_number_local[of t] day_number_local[of u] by simp

definition four_digits :: "time \<Rightarrow> bool" where
  "four_digits t \<longleftrightarrow> 0 \<le> Year t \<and> Year t \<le> 9999"

lemma format_day_length: "four_digits t \<Longrightarrow> length (format_day t) = 8"
  using date_ranges[of t] pad_length[of "Year t" 4] pad_length[of "Month t" 2] pad_length[of "Day t" 2]
  by (simp add: format_day_def four_digits_def)

lemma format_hour_length: "four_digits t \<Longrightarrow> length (format_hour t) = 11"
  using clock_ranges[of t] pad_length[of "Hour t" 2] by (simp add: format_hour_def format_day_length)

lemma format_day_iff:
  assumes "four_digits t" "four_digits u"
  shows "format_day t = format_day u \<longleftrightarrow> local_day t = local_day u"
proof
  assume eq: "format_day t = format_day u"
  have "length (pad 4 (Year z)) = 4" "length (pad 2 (Month z)) = 2" if "four_digits z" for z
    using that date_ranges[of z] pad_length[of "Year z" 4] pad_length[of "Month z" 2] by (simp_all add: four_digits_def)
  then have "pad 4 (Year t) = pad 4 (Year u)" "pad 2 (Month t) = pad 2 (Month u)" "pad 2 (Day t) = pad 2 (Day u)"
    using eq assms by (simp_all add: format_day_def)
  then show "local_day t = local_day u"
    using assms date_ranges(1,3)[of t] date_ranges(1,3)[of u] by (intro local_day_cong; elim pad_inj) (simp_all add: four_digits_def)
next
  assume "local_day t = local_day u"
  then show "format_day t = format_day u" by (simp add: format_day_def Year_def Month_def Day_def)
qed

lemma hour_split: "local_sec t div 3600 = 24 * local_day t + Hour t"
proof (rule int_div_pos_eq[symmetric, THEN sym])
  show "local_sec t = 3600 * (24 * local_day t + Hour t) + (60 * Minute t + Second t)" using local_sec_split[of t] by simp
qed (use clock_ranges[of t] in simp_all)

lemma ten_split: "local_sec t div 600 = 6 * (local_sec t div 3600) + Minute t div 10"
proof (rule int_div_pos_eq)
  define a b where "a = Minute t div 10" and "b = Minute t mod 10"
  have "Minute t = 10 * a + b" by (simp add: a_def b_def)
  then have "local_sec t = 600 * (6 * (24 * local_day t + Hour t) + a) + (60 * b + Second t)" using local_sec_split[of t] by simp
  then show "local_sec t = 600 * (6 * (local_sec t div 3600) + Minute t div 10) + (60 * (Minute t mod 10) + Second t)"
    unfolding hour_split a_def b_def .
  show "0 \<le> 60 * (Minute t mod 10) + Second t" using clock_ranges[of t] by simp
  show "60 * (Minute t mod 10) + Second t < 600" using clock_ranges[of t] pos_mod_bound[of 10 "Minute t"] by linarith
qed

lemma pair_quotient:
  assumes "0 \<le> b" "b < k" "0 \<le> d" "d < (k :: int)"
  shows "k * a + b = k * c + d \<longleftrightarrow> a = c \<and> b = d"
proof
  assume eq: "k * a + b = k * c + d"
  have "(k * a + b) div k = a" "(k * c + d) div k = c" using assms by (simp_all add: div_pos_pos_trivial)
  with eq show "a = c \<and> b = d" by simp
qed simp

lemma format_hour_iff:
  assumes "four_digits t" "four_digits u"
  shows "format_hour t = format_hour u \<longleftrightarrow> local_sec t div 3600 = local_sec u div 3600"
proof -
  have "format_hour t = format_hour u \<longleftrightarrow> format_day t = format_day u \<and> pad 2 (Hour t) = pad 2 (Hour u)"
    using assms by (simp add: format_hour_def format_day_length)
  also have "\<dots> \<longleftrightarrow> local_day t = local_day u \<and> Hour t = Hour u"
    using assms format_day_iff pad_inj[of 2 "Hour t" "Hour u"] clock_ranges(1)[of t] clock_ranges(1)[of u] by auto
  also have "\<dots> \<longleftrightarrow> local_sec t div 3600 = local_sec u div 3600"
    unfolding hour_split using clock_ranges(1,2)[of t] clock_ranges(1,2)[of u] pair_quotient[of "Hour t" 24 "Hour u" "local_day t" "local_day u"] by simp
  finally show ?thesis .
qed

lemma Itoa_inj: "Itoa m = Itoa n \<Longrightarrow> 0 \<le> m \<Longrightarrow> 0 \<le> n \<Longrightarrow> m = n"
  using pad_inj[of 0 m n] by (simp add: pad_def)

text \<open>C34: The log files are rotated exactly at the ends of the periods: for years of four digits, two times give the same suffix, and with it the same file, exactly when
  they lie in the same day, the same ten minutes or the same hour, as \<open>LogCronTime\<close> says; an unknown value of it means the hour.\<close>

theorem logSuffix_rotates:
  assumes "four_digits t" and "four_digits u"
  shows "logSuffix cron t = logSuffix cron u \<longleftrightarrow> period cron t = period cron u"
proof -
  have ten: "0 \<le> Minute z div 10" "Minute z div 10 < 6" for z using clock_ranges(3,4)[of z] by auto
  have "format_hour t @ Itoa (Minute t div 10) = format_hour u @ Itoa (Minute u div 10) \<longleftrightarrow> local_sec t div 600 = local_sec u div 600"
    unfolding ten_split using ten[of t] ten[of u] format_hour_iff[OF assms] format_hour_length[OF assms(1)] format_hour_length[OF assms(2)]
      pair_quotient[of "Minute t div 10" 6 "Minute u div 10" "local_sec t div 3600" "local_sec u div 3600"] Itoa_inj[of "Minute t div 10" "Minute u div 10"] by auto
  then show ?thesis
    by (simp add: logSuffix_def period_def format_day_iff[OF assms] format_hour_iff[OF assms])
qed

theorem logSuffix_rotates_witness:
  "logSuffix ''hour'' zero_time \<noteq> logSuffix ''hour'' \<lparr>t_ns = 3600 * ns_per_sec, t_loc = 0\<rparr> \<and>
   logSuffix ''day'' zero_time = logSuffix ''day'' \<lparr>t_ns = 3600 * ns_per_sec, t_loc = 0\<rparr>"
proof -
  let ?t = "\<lparr>t_ns = 3600 * ns_per_sec, t_loc = 0\<rparr>"
  have day: "local_sec zero_time = 0" "local_sec ?t = 3600" "local_day zero_time = 0" "local_day ?t = 0"
    by (simp_all add: local_day_def local_sec_def zero_time_def)
  have "four_digits zero_time" "four_digits ?t" by (simp_all add: four_digits_def Year_def day year_of_day_def days_before_year_def)
  from logSuffix_rotates[OF this, of "''hour''"] logSuffix_rotates[OF this, of "''day''"] show ?thesis by (simp add: period_def day)
qed

end
