(* ===== verification/Simple_Pools.thy ===== *)
theory Simple_Pools
  imports Prelude
begin

text \<open>
  The small pools of the repository: the pool of \<^verbatim>\<open>http.go\<close> with a fixed number of workers on a channel without buffer, the semaphore of
  \<^verbatim>\<open>sem.go\<close>, and the pool of connection numbers of \<^verbatim>\<open>bitmap/connIDPool\<close>.
\<close>

section \<open>Fixed workers\<close>

text \<open>A worker waits for a function, runs one, or has ended.  A caller of \<open>Add\<close> waits until a worker takes its function.  \<open>sp_run\<close> is the state of the call of
  \<open>Run\<close>.  \<open>sp_taken\<close> and \<open>sp_finished\<close> record which functions workers have taken and which have ended, by returning or by a panic.\<close>

datatype 'f sp_worker = Waits | Runs 'f | Ended

datatype sp_run = Not_called | In_Wait | Done

record 'f SimplePool =
  sp_wg :: int
  sp_closed :: bool
  sp_workers :: "'f sp_worker list"
  sp_callers :: "'f list"
  sp_run :: sp_run
  sp_taken :: "'f list"
  sp_finished :: "'f list"

definition NewPool :: "int \<Rightarrow> 'f SimplePool may_panic" where
  "NewPool workers =
     (if workers < 0 then Inl (NegativeCounter workers)
      else Inr \<lparr>sp_wg = workers, sp_closed = False, sp_workers = replicate (nat workers) Waits, sp_callers = [], sp_run = Not_called, sp_taken = [], sp_finished = []\<rparr>)"

definition wg_Done :: "'f SimplePool \<Rightarrow> 'f SimplePool may_panic" where
  "wg_Done p = (if sp_wg p - 1 < 0 then Inl (NegativeCounter (sp_wg p - 1)) else Inr (p\<lparr>sp_wg := sp_wg p - 1\<rparr>))"

text \<open>\<open>Add\<close> sends on the channel, which panics when it is closed, and \<open>Run\<close> closes it, which panics when it is closed already.\<close>

definition pool_Add :: "'f \<Rightarrow> 'f SimplePool \<Rightarrow> 'f SimplePool may_panic" where
  "pool_Add fn p = (if sp_closed p then Inl (Panic ''send on closed channel'') else Inr (p\<lparr>sp_callers := sp_callers p @ [fn]\<rparr>))"

definition Run_close :: "'f SimplePool \<Rightarrow> 'f SimplePool may_panic" where
  "Run_close p =
     (if sp_closed p then Inl (Panic ''close of closed channel'')
      else if sp_callers p \<noteq> [] then Inl (Panic ''send on closed channel'')
      else Inr (p\<lparr>sp_closed := True, sp_run := In_Wait\<rparr>))"

text \<open>A worker receives the function of some waiting caller; its function returns, or panics, which ends the worker; or it finds the channel closed.\<close>

definition worker_take :: "nat \<Rightarrow> 'f list \<Rightarrow> 'f \<Rightarrow> 'f list \<Rightarrow> 'f SimplePool \<Rightarrow> 'f SimplePool" where
  "worker_take i xs fn ys p = p\<lparr>sp_workers := (sp_workers p)[i := Runs fn], sp_callers := xs @ ys, sp_taken := sp_taken p @ [fn]\<rparr>"

definition worker_end :: "nat \<Rightarrow> 'f SimplePool \<Rightarrow> 'f SimplePool may_panic" where
  "worker_end i p = wg_Done (p\<lparr>sp_workers := (sp_workers p)[i := Ended]\<rparr>)"

inductive sp_step :: "'f SimplePool \<Rightarrow> 'f SimplePool may_panic \<Rightarrow> bool" where
  add: "sp_step p (pool_Add fn p)"
| take: "i < length (sp_workers p) \<Longrightarrow> sp_workers p ! i = Waits \<Longrightarrow> sp_callers p = xs @ fn # ys \<Longrightarrow> sp_step p (Inr (worker_take i xs fn ys p))"
| return: "i < length (sp_workers p) \<Longrightarrow> sp_workers p ! i = Runs fn \<Longrightarrow>
    sp_step p (Inr (p\<lparr>sp_workers := (sp_workers p)[i := Waits], sp_finished := sp_finished p @ [fn]\<rparr>))"
| panic: "i < length (sp_workers p) \<Longrightarrow> sp_workers p ! i = Runs fn \<Longrightarrow> sp_step p (worker_end i (p\<lparr>sp_finished := sp_finished p @ [fn]\<rparr>))"
| closed: "i < length (sp_workers p) \<Longrightarrow> sp_workers p ! i = Waits \<Longrightarrow> sp_closed p \<Longrightarrow> sp_callers p = [] \<Longrightarrow> sp_step p (worker_end i p)"
| run: "sp_step p (Run_close p)"
| wait: "sp_run p = In_Wait \<Longrightarrow> sp_wg p = 0 \<Longrightarrow> sp_step p (Inr (p\<lparr>sp_run := Done\<rparr>))"

definition held :: "'f sp_worker \<Rightarrow> 'f multiset" where
  "held w = (case w of Runs fn \<Rightarrow> {#fn#} | _ \<Rightarrow> {#})"

definition live :: "'f sp_worker \<Rightarrow> nat" where
  "live w = (case w of Ended \<Rightarrow> 0 | _ \<Rightarrow> 1)"

definition held_all :: "'f sp_worker list \<Rightarrow> 'f multiset" where
  "held_all ws = sum_list (map held ws)"

definition live_all :: "'f sp_worker list \<Rightarrow> nat" where
  "live_all ws = sum_list (map live ws)"

lemma held_simps [simp]: "held Waits = {#}" "held (Runs fn) = {#fn#}" "held Ended = {#}"
  by (simp_all add: held_def)

lemma live_simps [simp]: "live Waits = 1" "live (Runs fn) = 1" "live Ended = 0"
  by (simp_all add: live_def)

lemma held_all_update: "i < length ws \<Longrightarrow> held_all (ws[i := w]) + held (ws ! i) = held_all ws + held w"
  by (induction ws arbitrary: i) (auto simp: held_all_def add.commute add.left_commute split: nat.splits)

lemma live_all_update: "i < length ws \<Longrightarrow> live_all (ws[i := w]) + live (ws ! i) = live_all ws + live w"
  by (induction ws arbitrary: i) (auto simp: live_all_def split: nat.splits)

definition sp_inv :: "nat \<Rightarrow> 'f SimplePool \<Rightarrow> bool" where
  "sp_inv n p \<longleftrightarrow> length (sp_workers p) = n \<and> sp_wg p = int (live_all (sp_workers p)) \<and> mset (sp_taken p) = mset (sp_finished p) + held_all (sp_workers p) \<and>
     (sp_run p = Not_called \<or> sp_closed p) \<and> (sp_closed p \<longrightarrow> sp_callers p = []) \<and> (sp_run p = Done \<longrightarrow> sp_wg p = 0)"

lemma live_zero: "live_all ws = 0 \<Longrightarrow> held_all ws = {#}"
  by (induction ws) (auto simp: live_all_def held_all_def live_def held_def split: sp_worker.splits)

lemma live_positive: "i < length ws \<Longrightarrow> ws ! i \<noteq> Ended \<Longrightarrow> 0 < live_all ws"
  by (induction ws arbitrary: i) (auto simp: live_all_def live_def nth_Cons split: sp_worker.splits nat.splits)

lemma worker_end_inv:
  assumes "sp_inv n p" "i < length (sp_workers p)" "sp_workers p ! i = w" "w \<noteq> Ended" "mset fs = mset (sp_finished p) + held w"
  obtains p' where "worker_end i (p\<lparr>sp_finished := fs\<rparr>) = Inr p'" "sp_inv n p'"
proof -
  have one: "live w = 1" using assms(4) by (cases w) simp_all
  have pos: "0 < live_all (sp_workers p)" using live_positive assms(2-4) by blast
  have lv: "live_all ((sp_workers p)[i := Ended]) + 1 = live_all (sp_workers p)" using live_all_update[OF assms(2), of Ended] assms(3) one by simp
  have hd: "held_all ((sp_workers p)[i := Ended]) + held w = held_all (sp_workers p)" using held_all_update[OF assms(2), of Ended] assms(3) by simp
  show ?thesis
    by (rule that[of "p\<lparr>sp_finished := fs, sp_workers := (sp_workers p)[i := Ended], sp_wg := sp_wg p - 1\<rparr>"])
       (use assms(1,5) pos lv hd in \<open>auto simp: worker_end_def wg_Done_def sp_inv_def ac_simps simp flip: hd\<close>)
qed

lemma take_inv:
  assumes "sp_inv n p" "i < length (sp_workers p)" "sp_workers p ! i = Waits" "sp_callers p = xs @ fn # ys"
  shows "sp_inv n (worker_take i xs fn ys p)"
proof -
  have "live_all ((sp_workers p)[i := Runs fn]) = live_all (sp_workers p)" "held_all ((sp_workers p)[i := Runs fn]) = held_all (sp_workers p) + {#fn#}"
    using live_all_update[OF assms(2), of "Runs fn"] held_all_update[OF assms(2), of "Runs fn"] assms(3) by simp_all
  then show ?thesis using assms by (auto simp: sp_inv_def worker_take_def)
qed

lemma return_inv:
  assumes "sp_inv n p" "i < length (sp_workers p)" "sp_workers p ! i = Runs fn"
  shows "sp_inv n (p\<lparr>sp_workers := (sp_workers p)[i := Waits], sp_finished := sp_finished p @ [fn]\<rparr>)"
proof -
  have "live_all ((sp_workers p)[i := Waits]) = live_all (sp_workers p)" "held_all ((sp_workers p)[i := Waits]) + {#fn#} = held_all (sp_workers p)"
    using live_all_update[OF assms(2), of Waits] held_all_update[OF assms(2), of Waits] assms(3) by simp_all
  then show ?thesis using assms(1) by (auto simp: sp_inv_def)
qed

text \<open>The only panics are those of a closed channel, when \<open>Add\<close> or \<open>Run\<close> is called after \<open>Run\<close>.\<close>

definition misuse :: "'f SimplePool \<Rightarrow> panic \<Rightarrow> bool" where
  "misuse p e \<longleftrightarrow> e \<in> {Panic ''send on closed channel'', Panic ''close of closed channel''} \<and> (sp_closed p \<or> sp_callers p \<noteq> [])"

lemma sp_step_inv:
  assumes inv: "sp_inv n p" and st: "sp_step p r"
  shows "case r of Inl e \<Rightarrow> misuse p e | Inr p' \<Rightarrow> sp_inv n p'"
  using st
proof (cases rule: sp_step.cases)
  case (add fn)
  then show ?thesis using inv by (auto simp: pool_Add_def misuse_def sp_inv_def)
next
  case (take i xs fn ys)
  then show ?thesis using take_inv[OF inv] by simp
next
  case (return i fn)
  then show ?thesis using return_inv[OF inv] by simp
next
  case (panic i fn)
  then show ?thesis using worker_end_inv[OF inv, of i "Runs fn" "sp_finished p @ [fn]"] by (metis held_simps(2) mset.simps(1,2) mset_append sp_worker.distinct(5) sum.simps(6))
next
  case (closed i)
  then show ?thesis using worker_end_inv[OF inv, of i Waits "sp_finished p"] by force
next
  case run
  then show ?thesis using inv by (auto simp: Run_close_def misuse_def sp_inv_def)
next
  case wait
  then show ?thesis using inv by (auto simp: sp_inv_def)
qed

lemma waiting_workers: "live_all (replicate k Waits) = k" "held_all (replicate k Waits) = {#}"
  by (induction k) (simp_all add: live_all_def held_all_def)

lemma NewPool_inv: "NewPool workers = Inr p \<Longrightarrow> sp_inv (nat workers) p"
  by (auto simp: NewPool_def sp_inv_def waiting_workers split: if_splits)

interpretation simple_pool: panics_only sp_step "sp_inv n" misuse for n
  by unfold_locales (rule sp_step_inv)

text \<open>C35: The pool runs every function it accepts exactly once and with at most \<open>workers\<close> at a time: whatever functions panic, those taken are those ended and those
  in the hands of the workers; when \<open>Run\<close> has returned all of them have ended; and no goroutine panics except for calls of \<open>Add\<close> or \<open>Run\<close> on a closed channel.\<close>

theorem simple_pool_runs_all:
  assumes "NewPool workers = Inr p0" and "reach sp_step p0 p"
  shows "mset (sp_taken p) = mset (sp_finished p) + held_all (sp_workers p) \<and> length (sp_workers p) = nat workers \<and>
     (sp_run p = Done \<longrightarrow> mset (sp_taken p) = mset (sp_finished p) \<and> sp_callers p = []) \<and> (\<forall>e. sp_step p (Inl e) \<longrightarrow> misuse p e)"
proof -
  have inv: "sp_inv (nat workers) p" by (rule simple_pool.steps_keep[OF assms(2) NewPool_inv[OF assms(1)]])
  have "held_all (sp_workers p) = {#}" if "sp_run p = Done" using inv that live_zero[of "sp_workers p"] by (auto simp: sp_inv_def)
  then show ?thesis using inv simple_pool.reached_panic[OF assms(2) NewPool_inv[OF assms(1)]] by (auto simp: sp_inv_def)
qed

theorem simple_pool_runs_all_witness:
  "\<exists>p. reach sp_step (the (case NewPool 1 of Inl _ \<Rightarrow> None | Inr p \<Rightarrow> Some p)) p \<and> sp_finished p = [7 :: nat] \<and> held_all (sp_workers p) = {#}"
proof -
  let ?p = "\<lparr>sp_wg = 1, sp_closed = False, sp_workers = [Waits], sp_callers = [], sp_run = Not_called, sp_taken = [], sp_finished = []\<rparr> :: nat SimplePool"
  have new: "NewPool 1 = Inr ?p" by (simp add: NewPool_def)
  let ?a = "?p\<lparr>sp_callers := [7]\<rparr>" and ?t = "?p\<lparr>sp_workers := [Runs 7], sp_taken := [7]\<rparr>" and ?r = "?p\<lparr>sp_taken := [7], sp_finished := [7]\<rparr>"
  have "sp_step ?p (Inr ?a)" "sp_step ?a (Inr ?t)" "sp_step ?t (Inr ?r)"
    using sp_step.add[of ?p 7] sp_step.take[of 0 ?a "[]" 7 "[]"] sp_step.return[of 0 ?t 7] by (simp_all add: pool_Add_def worker_take_def)
  then have "reach sp_step ?p ?r" by (rule reach_three)
  with simple_pool_runs_all[OF new this] show ?thesis using new by (intro exI[of _ ?r]) simp
qed

text \<open>When every worker has ended by a panic and \<open>Run\<close> has not been called, no function is taken any more: \<open>Add\<close> waits for ever.\<close>

lemma no_live_step:
  assumes dead: "live_all (sp_workers p) = 0" and st: "sp_step p (Inr p')"
  shows "sp_workers p' = sp_workers p \<and> sp_taken p' = sp_taken p"
proof -
  have no: "\<not> i < length (sp_workers p)" if "sp_workers p ! i \<noteq> Ended" for i using live_positive[of i "sp_workers p"] dead that by auto
  show ?thesis using st by (cases rule: sp_step.cases) (use no in \<open>force simp: pool_Add_def Run_close_def split: if_splits\<close>)+
qed

theorem panicked_pool_blocks:
  assumes "live_all (sp_workers p) = 0" and "reach sp_step p q"
  shows "sp_workers q = sp_workers p \<and> sp_taken q = sp_taken p"
  using assms(2)
proof (induction rule: rtranclp_induct)
  case (step q q')
  then show ?case using no_live_step[of q q'] assms(1) by simp
qed simp

section \<open>A semaphore\<close>

text \<open>\<^verbatim>\<open>sem.go\<close>: the main function starts a goroutine for each element after it has sent to a channel of capacity two; a goroutine processes its element,
  receives from the channel, and counts itself done.\<close>

datatype sem_phase = In_syncProd | At_release | At_done | Gone

record sem_state =
  se_next :: nat
  se_sem :: nat
  se_phases :: "sem_phase list"
  se_wg :: int
  se_ended :: bool

definition sem_cap :: nat where "sem_cap = 2"

definition sem_main :: "nat \<Rightarrow> sem_state" where
  "sem_main n = \<lparr>se_next = 0, se_sem = 0, se_phases = [], se_wg = int n, se_ended = False\<rparr>"

inductive sem_step :: "nat \<Rightarrow> sem_state \<Rightarrow> sem_state \<Rightarrow> bool" for n where
  spawn: "se_next s < n \<Longrightarrow> se_sem s < sem_cap \<Longrightarrow>
    sem_step n s (s\<lparr>se_next := se_next s + 1, se_sem := se_sem s + 1, se_phases := se_phases s @ [In_syncProd]\<rparr>)"
| prod: "i < length (se_phases s) \<Longrightarrow> se_phases s ! i = In_syncProd \<Longrightarrow> sem_step n s (s\<lparr>se_phases := (se_phases s)[i := At_release]\<rparr>)"
| release: "i < length (se_phases s) \<Longrightarrow> se_phases s ! i = At_release \<Longrightarrow> 0 < se_sem s \<Longrightarrow>
    sem_step n s (s\<lparr>se_phases := (se_phases s)[i := At_done], se_sem := se_sem s - 1\<rparr>)"
| finish: "i < length (se_phases s) \<Longrightarrow> se_phases s ! i = At_done \<Longrightarrow> sem_step n s (s\<lparr>se_phases := (se_phases s)[i := Gone], se_wg := se_wg s - 1\<rparr>)"
| wait: "se_next s = n \<Longrightarrow> se_wg s = 0 \<Longrightarrow> sem_step n s (s\<lparr>se_ended := True\<rparr>)"

lemma count_list_update:
  "i < length xs \<Longrightarrow> count_list (xs[i := x]) y + (if xs ! i = y then 1 else 0) = count_list xs y + (if x = y then 1 else 0)"
proof (induction xs arbitrary: i)
  case (Cons z xs)
  show ?case using Cons.IH[of "i - 1"] Cons.prems by (cases i) auto
qed simp

lemma count_moved:
  assumes "i < length xs" "xs ! i = a" "a \<noteq> b"
  shows "count_list xs a = count_list (xs[i := b]) a + 1" "count_list (xs[i := b]) b = count_list xs b + 1"
    "y \<noteq> a \<Longrightarrow> y \<noteq> b \<Longrightarrow> count_list (xs[i := b]) y = count_list xs y"
  using count_list_update[OF assms(1), of b a] count_list_update[OF assms(1), of b b] count_list_update[OF assms(1), of b y] assms(2,3) by simp_all

definition sem_inv :: "nat \<Rightarrow> sem_state \<Rightarrow> bool" where
  "sem_inv n s \<longleftrightarrow> se_sem s = count_list (se_phases s) In_syncProd + count_list (se_phases s) At_release \<and> se_sem s \<le> sem_cap \<and>
     length (se_phases s) = se_next s \<and> se_next s \<le> n \<and> se_wg s = int n - int (count_list (se_phases s) Gone) \<and>
     (se_ended s \<longrightarrow> se_next s = n \<and> se_wg s = 0)"

lemma sem_step_inv:
  assumes inv: "sem_inv n s" and st: "sem_step n s s'"
  shows "sem_inv n s'"
  using st
proof (cases rule: sem_step.cases)
  case spawn
  then show ?thesis using inv by (auto simp: sem_inv_def)
next
  case (prod i)
  then show ?thesis using inv count_moved[OF prod(2,3), of At_release] by (auto simp: sem_inv_def)
next
  case (release i)
  then show ?thesis using inv count_moved[OF release(2,3), of At_done] by (auto simp: sem_inv_def)
next
  case (finish i)
  note moved = count_moved[OF finish(2,3), of Gone]
  have "count_list ((se_phases s)[i := Gone]) Gone \<le> length (se_phases s)" using count_le_length[of "(se_phases s)[i := Gone]" Gone] by simp
  then have "\<not> se_ended s" using inv moved(2) by (auto simp: sem_inv_def)
  then show ?thesis using inv finish(1) moved by (auto simp: sem_inv_def)
next
  case wait
  then show ?thesis using inv by (auto simp: sem_inv_def)
qed

interpretation semaphore: keeps_invariant "sem_step n" "sem_inv n" for n
  by unfold_locales (rule sem_step_inv)

text \<open>At most two elements are processed at a time, and the program ends only after all of them have been processed.\<close>

theorem semaphore_bounds:
  assumes "(sem_step n)\<^sup>*\<^sup>* (sem_main n) s"
  shows "count_list (se_phases s) In_syncProd \<le> 2 \<and> (se_ended s \<longrightarrow> length (se_phases s) = n \<and> count_list (se_phases s) Gone = n)"
proof -
  have "sem_inv n (sem_main n)" by (simp add: sem_inv_def sem_main_def)
  then have "sem_inv n s" by (rule semaphore.steps_keep[OF assms])
  then show ?thesis by (auto simp: sem_inv_def sem_cap_def)
qed

section \<open>Connection numbers\<close>

text \<open>The channel \<open>idCache\<close> holds the free numbers; \<open>id_held\<close> are those that callers have.  \<open>Get\<close> waits while the channel is empty, \<open>Put\<close> while it is full.\<close>

record id_pool =
  idCache :: "32 word list"
  id_held :: "32 word list"

definition id_cap :: nat where "id_cap = 65536"

definition id_init :: id_pool where
  "id_init = \<lparr>idCache = map of_nat [1..<65536], id_held = []\<rparr>"

definition id_Get :: "id_pool \<Rightarrow> (32 word \<times> id_pool) option" where
  "id_Get p = (case idCache p of [] \<Rightarrow> None | i # is \<Rightarrow> Some (i, p\<lparr>idCache := is, id_held := i # id_held p\<rparr>))"

definition id_Put :: "32 word \<Rightarrow> id_pool \<Rightarrow> id_pool option" where
  "id_Put i p = (if length (idCache p) < id_cap then Some (p\<lparr>idCache := idCache p @ [i], id_held := remove1 i (id_held p)\<rparr>) else None)"

text \<open>Callers give back only numbers they have.\<close>

inductive id_reach :: "id_pool \<Rightarrow> bool" where
  init: "id_reach id_init"
| get: "id_reach p \<Longrightarrow> id_Get p = Some (i, p') \<Longrightarrow> id_reach p'"
| put: "id_reach p \<Longrightarrow> i \<in> set (id_held p) \<Longrightarrow> id_Put i p = Some p' \<Longrightarrow> id_reach p'"

lemma id_init_distinct: "distinct (idCache id_init)"
proof -
  have "inj_on (of_nat :: nat \<Rightarrow> 32 word) {1..<65536}"
    by (rule inj_on_inverseI[of _ unat]) (simp add: unat_of_nat)
  then show ?thesis by (simp add: id_init_def distinct_map)
qed

lemma id_conserved: "id_reach p \<Longrightarrow> mset (idCache p) + mset (id_held p) = mset (idCache id_init)"
proof (induction rule: id_reach.induct)
  case init
  then show ?case by (simp add: id_init_def)
next
  case (get p i p')
  then show ?case by (auto simp: id_Get_def split: list.splits)
next
  case (put p i p')
  have p': "idCache p' = idCache p @ [i]" "id_held p' = remove1 i (id_held p)" using put(3) by (auto simp: id_Put_def split: if_splits)
  have "mset (id_held p) = add_mset i (mset (remove1 i (id_held p)))" using put(2) by simp
  with put(4) show ?case unfolding p' by (metis add_mset_add_single mset.simps(1,2) mset_append union_assoc union_commute)
qed

text \<open>Numbers are unique: as long as callers give back only what they have, the numbers held are different from each other and from the free ones, and giving one back
  never waits.\<close>

theorem id_pool_unique:
  assumes "id_reach p"
  shows "distinct (id_held p @ idCache p)" and "i \<in> set (id_held p) \<Longrightarrow> id_Put i p \<noteq> None"
proof -
  note cons = id_conserved[OF assms]
  have "mset (id_held p @ idCache p) = mset (idCache id_init)" using cons by (simp add: add.commute)
  then show "distinct (id_held p @ idCache p)" using id_init_distinct mset_eq_imp_distinct_iff by blast
  have "length (idCache p) \<le> 65535" using arg_cong[OF cons, of size] by (simp add: id_init_def)
  then show "id_Put i p \<noteq> None" by (simp add: id_Put_def id_cap_def)
qed

end
