(* ===== verification/Stream_Programs.thy ===== *)
theory Stream_Programs
  imports Simple_Pools
begin

text \<open>
  The programs of \<^verbatim>\<open>work_test\<close> that are about streams: the two readers that keep letters only (\<^verbatim>\<open>io_read_str.go\<close>, \<^verbatim>\<open>io_read_str2.go\<close>), the writer on a
  channel (\<^verbatim>\<open>io_writer.go\<close>), the hand-over of jobs through a channel that is closed at the end (\<^verbatim>\<open>block.go\<close>), and the pool with results (\<^verbatim>\<open>pool.go\<close>).
\<close>

section \<open>The readers\<close>

definition is_alpha :: "char \<Rightarrow> bool" where
  "is_alpha r \<longleftrightarrow> (65 \<le> (of_char r :: nat) \<and> (of_char r :: nat) \<le> 90) \<or> (97 \<le> (of_char r :: nat) \<and> (of_char r :: nat) \<le> 122)"

definition alpha :: "char \<Rightarrow> char" where
  "alpha r = (if is_alpha r then r else CHR 0x00)"

record alphaReader =
  ar_src :: string
  ar_cur :: nat

definition newAlphaReader :: "string \<Rightarrow> alphaReader" where
  "newAlphaReader src = \<lparr>ar_src = src, ar_cur = 0\<rparr>"

text \<open>The loop of \<open>Read\<close>: the slice, the position in the source and the number of bytes.\<close>

function alpha_loop :: "string \<Rightarrow> nat \<Rightarrow> string \<Rightarrow> nat \<Rightarrow> nat \<Rightarrow> (string \<times> nat \<times> nat) may_panic" where
  "alpha_loop src cur buf n bound =
     (if n < bound
      then bindp (go_index src (int cur)) (\<lambda>r.
           bindp (if alpha r \<noteq> CHR 0x00 then go_store buf (int n) (alpha r) else Inr buf) (\<lambda>buf'.
           alpha_loop src (cur + 1) buf' (n + 1) bound))
      else Inr (buf, cur, n))"
  by pat_completeness auto
termination by (relation "measure (\<lambda>(_, _, _, n, bound). bound - n)") auto

text \<open>\<open>Read\<close> into a slice \<open>p\<close>: \<open>None\<close> is \<open>io.EOF\<close>; otherwise the slice afterwards and the number of bytes.\<close>

definition alpha_Read :: "string \<Rightarrow> alphaReader \<Rightarrow> ((string \<times> nat) option \<times> alphaReader) may_panic" where
  "alpha_Read p a =
     (if ar_cur a \<ge> length (ar_src a) then Inr (None, a)
      else let x = length (ar_src a) - ar_cur a; bound = (if x \<ge> length p then length p else x)
           in bindp (go_make (int bound) (CHR 0x00)) (\<lambda>buf.
              bindp (alpha_loop (ar_src a) (ar_cur a) buf 0 bound) (\<lambda>(buf', cur, n).
              Inr (Some (go_copy p buf', n), a\<lparr>ar_cur := cur\<rparr>))))"

text \<open>The second reader, whose function \<open>alpha2\<close> is the same as \<open>alpha\<close>, reads from another one, \<open>rd\<close>, which yields the slice, the number of bytes and an error, if any.\<close>

type_synonym 'r reader = "string \<Rightarrow> 'r \<Rightarrow> (string \<times> nat \<times> string option) \<times> 'r"

definition alpha2_Read :: "'r reader \<Rightarrow> string \<Rightarrow> 'r \<Rightarrow> ((string \<times> nat \<times> string option) \<times> 'r) may_panic" where
  "alpha2_Read rd p r =
     (case rd p r of ((p1, n, err), r1) \<Rightarrow>
        if err \<noteq> None then Inr ((p1, n, err), r1)
        else bindp (go_make (int n) (CHR 0x00)) (\<lambda>buf.
             bindp (alpha_loop p1 0 buf 0 n) (\<lambda>(buf', _, _).
             Inr ((go_copy p1 buf', n, None), r1))))"

text \<open>The main functions print what \<open>Read\<close> gives, until \<open>io.EOF\<close>, with a slice of four bytes; here of any length.\<close>

partial_function (option) alpha_print :: "string \<Rightarrow> alphaReader \<Rightarrow> string may_panic option" where
  "alpha_print p a =
     (case alpha_Read p a of
        Inl e \<Rightarrow> Some (Inl e)
      | Inr (None, _) \<Rightarrow> Some (Inr [])
      | Inr (Some (p1, n), a1) \<Rightarrow> Option.bind (alpha_print p1 a1) (\<lambda>out. Some (case out of Inl e \<Rightarrow> Inl e | Inr t \<Rightarrow> Inr (take n p1 @ t))))"

section \<open>Properties of the readers\<close>

declare alpha_loop.simps [simp del]

lemma alpha_loop_step:
  assumes "n < bound" "cur < length src" "n < length buf" "buf ! n = CHR 0x00"
  shows "alpha_loop src cur buf n bound = alpha_loop src (cur + 1) (buf[n := alpha (src ! cur)]) (n + 1) bound"
proof -
  have "(if alpha (src ! cur) \<noteq> CHR 0x00 then go_store buf (int n) (alpha (src ! cur)) else Inr buf) = Inr (buf[n := alpha (src ! cur)])"
    using assms(3,4) list_update_id[of buf n] by (auto simp: go_store_in)
  then show ?thesis using assms(1,2) by (subst alpha_loop.simps) (simp add: go_index_in)
qed

lemma alpha_loop_spec:
  "cur + m \<le> length src \<Longrightarrow> alpha_loop src cur (done_bytes @ replicate m (CHR 0x00)) (length done_bytes) (length done_bytes + m) =
     Inr (done_bytes @ map alpha (take m (drop cur src)), cur + m, length done_bytes + m)"
proof (induction m arbitrary: cur done_bytes)
  case 0
  then show ?case by (subst alpha_loop.simps) simp
next
  case (Suc m)
  have "alpha_loop src cur (done_bytes @ replicate (Suc m) (CHR 0x00)) (length done_bytes) (length done_bytes + Suc m) =
      alpha_loop src (cur + 1) ((done_bytes @ [alpha (src ! cur)]) @ replicate m (CHR 0x00)) (length (done_bytes @ [alpha (src ! cur)])) (length (done_bytes @ [alpha (src ! cur)]) + m)"
    using Suc.prems by (subst alpha_loop_step) (simp_all add: list_update_append)
  also have "\<dots> = Inr (done_bytes @ map alpha (take (Suc m) (drop cur src)), cur + Suc m, length done_bytes + Suc m)"
    using Suc.prems by (subst Suc.IH) (simp_all add: take_Suc_conv_app_nth flip: Cons_nth_drop_Suc)
  finally show ?case .
qed

lemmas alpha_loop_fresh = alpha_loop_spec[where done_bytes = "[]", simplified]

lemma alpha_Read_spec:
  assumes "ar_cur a < length (ar_src a)"
  shows "alpha_Read p a = (let m = min (length p) (length (ar_src a) - ar_cur a)
     in Inr (Some (map alpha (take m (drop (ar_cur a) (ar_src a))) @ drop m p, m), a\<lparr>ar_cur := ar_cur a + m\<rparr>))"
  using assms by (auto simp: alpha_Read_def go_make_def go_copy_def alpha_loop_fresh Let_def)

text \<open>The first program prints the whole source with every other byte than a letter replaced by zero, and ends, for a slice of any length but zero.\<close>

theorem alpha_prints_all:
  assumes "p \<noteq> []"
  shows "alpha_print p (newAlphaReader src) = Some (Inr (map alpha src))"
proof -
  have "alpha_print p a = Some (Inr (map alpha (drop (ar_cur a) (ar_src a))))" if "p \<noteq> []" for p a
    using that
  proof (induction "length (ar_src a) - ar_cur a" arbitrary: p a rule: less_induct)
    case less
    show ?case
    proof (cases "ar_cur a < length (ar_src a)")
      case True
      let ?m = "min (length p) (length (ar_src a) - ar_cur a)"
      let ?p = "map alpha (take ?m (drop (ar_cur a) (ar_src a))) @ drop ?m p"
      let ?a = "a\<lparr>ar_cur := ar_cur a + ?m\<rparr>"
      have "length (ar_src ?a) - ar_cur ?a < length (ar_src a) - ar_cur a" using less.prems True by (cases p) (auto simp: min_def)
      moreover have "?p \<noteq> []" using less.prems True by auto
      ultimately have "alpha_print ?p ?a = Some (Inr (map alpha (drop (ar_cur ?a) (ar_src ?a))))" by (rule less.hyps)
      moreover have "map alpha (take ?m (drop (ar_cur a) (ar_src a))) @ map alpha (drop (ar_cur a + ?m) (ar_src a)) = map alpha (drop (ar_cur a) (ar_src a))"
        by (metis add.commute append_take_drop_id drop_drop map_append)
      ultimately show ?thesis by (subst alpha_print.simps) (simp add: alpha_Read_spec[OF True] Let_def)
    next
      case False
      then show ?thesis by (subst alpha_print.simps) (simp add: alpha_Read_def)
    qed
  qed
  then show ?thesis using assms by (simp add: newAlphaReader_def)
qed

text \<open>The second reader over a reader of a string is the first one; the bytes that a reader gives together with an error are handed on as they are.\<close>

definition string_reader :: "alphaReader reader" where
  "string_reader p a =
     (if ar_cur a \<ge> length (ar_src a) then ((p, 0, Some ''EOF''), a)
      else let m = min (length p) (length (ar_src a) - ar_cur a)
           in ((take m (drop (ar_cur a) (ar_src a)) @ drop m p, m, None), a\<lparr>ar_cur := ar_cur a + m\<rparr>))"

theorem alpha_readers_agree:
  "alpha2_Read string_reader p a =
     (case alpha_Read p a of Inl e \<Rightarrow> Inl e | Inr (None, a1) \<Rightarrow> Inr ((p, 0, Some ''EOF''), a1) | Inr (Some (p1, n), a1) \<Rightarrow> Inr ((p1, n, None), a1))"
proof (cases "ar_cur a < length (ar_src a)")
  case True
  then show ?thesis
    by (auto simp: alpha_Read_spec alpha2_Read_def string_reader_def go_make_def alpha_loop_fresh go_copy_def Let_def)
qed (simp add: alpha_Read_def alpha2_Read_def string_reader_def)

theorem alpha2_error_unfiltered:
  "alpha2_Read (\<lambda>p r. ((''a1'', 2, Some ''EOF''), r)) p r = Inr ((''a1'', 2, Some ''EOF''), r)"
  by (simp add: alpha2_Read_def)

section \<open>A channel that is closed at the end\<close>

text \<open>One goroutine sends a list of values and closes the channel; the other receives until the channel is closed and empty.\<close>

record 'a handover =
  ho_cap :: nat
  ho_todo :: "'a list"
  ho_chan :: "'a list"
  ho_closed :: bool
  ho_got :: "'a list"
  ho_ended :: bool

inductive ho_step :: "'a handover \<Rightarrow> 'a handover \<Rightarrow> bool" where
  send: "ho_todo s = x # xs \<Longrightarrow> length (ho_chan s) < ho_cap s \<Longrightarrow> ho_step s (s\<lparr>ho_todo := xs, ho_chan := ho_chan s @ [x]\<rparr>)"
| close: "ho_todo s = [] \<Longrightarrow> \<not> ho_closed s \<Longrightarrow> ho_step s (s\<lparr>ho_closed := True\<rparr>)"
| receive: "\<not> ho_ended s \<Longrightarrow> ho_chan s = x # xs \<Longrightarrow> ho_step s (s\<lparr>ho_chan := xs, ho_got := ho_got s @ [x]\<rparr>)"
| end_of_range: "\<not> ho_ended s \<Longrightarrow> ho_chan s = [] \<Longrightarrow> ho_closed s \<Longrightarrow> ho_step s (s\<lparr>ho_ended := True\<rparr>)"

definition handing :: "nat \<Rightarrow> 'a list \<Rightarrow> 'a handover" where
  "handing cap xs = \<lparr>ho_cap = cap, ho_todo = xs, ho_chan = [], ho_closed = False, ho_got = [], ho_ended = False\<rparr>"

text \<open>The writer of \<^verbatim>\<open>io_writer.go\<close> on a channel of 1024 bytes, and the jobs of \<^verbatim>\<open>block.go\<close>.\<close>

definition chanWriter_main :: "char handover" where
  "chanWriter_main = handing 1024 (''Stream '' @ ''me!'')"

definition block_main :: "int handover" where
  "block_main = handing 5 [1, 2]"

definition ho_inv :: "'a list \<Rightarrow> 'a handover \<Rightarrow> bool" where
  "ho_inv xs s \<longleftrightarrow> ho_got s @ ho_chan s @ ho_todo s = xs \<and> (ho_closed s \<longrightarrow> ho_todo s = []) \<and> (ho_ended s \<longrightarrow> ho_closed s \<and> ho_chan s = []) \<and> 0 < ho_cap s"

lemma ho_step_inv: "ho_inv xs s \<Longrightarrow> ho_step s s' \<Longrightarrow> ho_inv xs s'"
  by (erule ho_step.cases) (auto simp: ho_inv_def)

interpretation handover: keeps_invariant ho_step "ho_inv xs" for xs
  by unfold_locales (rule ho_step_inv)

definition ho_left :: "'a handover \<Rightarrow> nat" where
  "ho_left s = 2 * length (ho_todo s) + length (ho_chan s) + (if ho_closed s then 0 else 1) + (if ho_ended s then 0 else 1)"

lemma ho_step_left: "ho_step s s' \<Longrightarrow> ho_left s' < ho_left s"
  by (erule ho_step.cases) (simp_all add: ho_left_def)

lemma ho_can_step: "ho_inv xs s \<Longrightarrow> \<not> ho_ended s \<Longrightarrow> \<exists>s'. ho_step s s'"
  using send[of s "hd (ho_todo s)" "tl (ho_todo s)"] close[of s] receive[of s "hd (ho_chan s)" "tl (ho_chan s)"] end_of_range[of s]
  by (cases "ho_chan s"; cases "ho_todo s"; cases "ho_closed s") (auto simp: ho_inv_def)

text \<open>What is received is a beginning of what is sent, in its order; every run ends, and ends with all of it received.\<close>

theorem handover_complete:
  fixes xs :: "'a list"
  assumes "0 < cap" "ho_step\<^sup>*\<^sup>* (handing cap xs) s"
  shows "take (length (ho_got s)) xs = ho_got s \<and> ((\<nexists>s'. ho_step s s') \<longrightarrow> ho_ended s \<and> ho_got s = xs) \<and> wfp (\<lambda>s' s. ho_step s (s' :: 'a handover))"
proof -
  have "ho_inv xs (handing cap xs)" using assms(1) by (simp add: ho_inv_def handing_def)
  note inv = handover.steps_keep[OF assms(2) this]
  have "wfp (\<lambda>s' s. ho_step s (s' :: 'a handover))" by (rule wfp_if_convertible_to_nat[of _ ho_left]) (rule ho_step_left)
  then show ?thesis using inv ho_can_step[OF inv] by (auto simp: ho_inv_def)
qed

section \<open>A pool with results\<close>

text \<open>The main function sends the jobs to a channel of capacity 100, closes it, and takes as many results as there are jobs; a worker takes a job, works on it and
  sends its result to the second channel, of the same capacity, until the first is closed and empty.\<close>

record 'j result_pool =
  rs_todo :: "'j list"
  rs_jobs :: "'j list"
  rs_closed :: bool
  rs_workers :: "'j sp_worker list"
  rs_results :: "'j list"
  rs_got :: "'j list"
  rs_count :: nat

definition pool_main :: "nat \<Rightarrow> 'j list \<Rightarrow> 'j result_pool" where
  "pool_main k js = \<lparr>rs_todo = js, rs_jobs = [], rs_closed = False, rs_workers = replicate k Waits, rs_results = [], rs_got = [], rs_count = length js\<rparr>"

inductive rs_step :: "'j result_pool \<Rightarrow> 'j result_pool \<Rightarrow> bool" where
  give: "rs_todo s = j # js \<Longrightarrow> length (rs_jobs s) < 100 \<Longrightarrow> rs_step s (s\<lparr>rs_todo := js, rs_jobs := rs_jobs s @ [j]\<rparr>)"
| close_jobs: "rs_todo s = [] \<Longrightarrow> \<not> rs_closed s \<Longrightarrow> rs_step s (s\<lparr>rs_closed := True\<rparr>)"
| take_job: "i < length (rs_workers s) \<Longrightarrow> rs_workers s ! i = Waits \<Longrightarrow> rs_jobs s = j # js \<Longrightarrow>
    rs_step s (s\<lparr>rs_workers := (rs_workers s)[i := Runs j], rs_jobs := js\<rparr>)"
| deliver: "i < length (rs_workers s) \<Longrightarrow> rs_workers s ! i = Runs j \<Longrightarrow> length (rs_results s) < 100 \<Longrightarrow>
    rs_step s (s\<lparr>rs_workers := (rs_workers s)[i := Waits], rs_results := rs_results s @ [j]\<rparr>)"
| worker_exits: "i < length (rs_workers s) \<Longrightarrow> rs_workers s ! i = Waits \<Longrightarrow> rs_jobs s = [] \<Longrightarrow> rs_closed s \<Longrightarrow> rs_step s (s\<lparr>rs_workers := (rs_workers s)[i := Ended]\<rparr>)"
| collect: "rs_closed s \<Longrightarrow> length (rs_got s) < rs_count s \<Longrightarrow> rs_results s = r # rs \<Longrightarrow> rs_step s (s\<lparr>rs_results := rs, rs_got := rs_got s @ [r]\<rparr>)"

definition rs_inv :: "nat \<Rightarrow> 'j list \<Rightarrow> 'j result_pool \<Rightarrow> bool" where
  "rs_inv k js s \<longleftrightarrow> length (rs_workers s) = k \<and> rs_count s = length js \<and>
     mset (rs_todo s) + mset (rs_jobs s) + held_all (rs_workers s) + mset (rs_results s) + mset (rs_got s) = mset js \<and>
     (rs_closed s \<longrightarrow> rs_todo s = []) \<and> (Ended \<in> set (rs_workers s) \<longrightarrow> rs_closed s \<and> rs_jobs s = [])"

lemma held_all_to: "i < length ws \<Longrightarrow> ws ! i = Waits \<Longrightarrow> held_all (ws[i := Runs j]) = add_mset j (held_all ws)"
  using held_all_update[of i ws "Runs j"] by simp

lemma held_all_from: "i < length ws \<Longrightarrow> ws ! i = Runs j \<Longrightarrow> held_all ws = add_mset j (held_all (ws[i := Waits]))"
  using held_all_update[of i ws Waits] by simp

lemma held_all_end: "i < length ws \<Longrightarrow> ws ! i = Waits \<Longrightarrow> held_all (ws[i := Ended]) = held_all ws"
  using held_all_update[of i ws Ended] by simp

lemma in_updated: "w \<in> set (ws[i := v]) \<Longrightarrow> w = v \<or> w \<in> set ws"
  by (metis insertE set_update_subset_insert subsetD)

lemma rs_step_inv:
  assumes "rs_inv k js s" "rs_step s s'"
  shows "rs_inv k js s'"
  using assms(2)
proof (cases rule: rs_step.cases)
  case (deliver i j)
  then show ?thesis using assms(1) held_all_from[OF deliver(2,3)] by (auto simp: rs_inv_def dest!: in_updated)
qed (use assms(1) in \<open>auto simp: rs_inv_def held_all_to held_all_end dest!: in_updated\<close>)

interpretation result_pool: keeps_invariant rs_step "rs_inv k js" for k js
  by unfold_locales (rule rs_step_inv)

definition rs_left :: "'j result_pool \<Rightarrow> nat" where
  "rs_left s = 4 * length (rs_todo s) + 3 * length (rs_jobs s) + 2 * size (held_all (rs_workers s)) + length (rs_results s) + live_all (rs_workers s) +
     (if rs_closed s then 0 else 1)"

lemma rs_step_left:
  assumes "rs_step s s'"
  shows "rs_left s' < rs_left s"
  using assms
proof (cases rule: rs_step.cases)
  case (take_job i j js)
  then show ?thesis using live_all_update[of i "rs_workers s" "Runs j"] by (simp add: rs_left_def held_all_to)
next
  case (deliver i j)
  then show ?thesis using live_all_update[of i "rs_workers s" Waits] held_all_from[of i "rs_workers s" j] by (simp add: rs_left_def)
next
  case (worker_exits i)
  then show ?thesis using live_all_update[of i "rs_workers s" Ended] by (simp add: rs_left_def held_all_end)
qed (simp_all add: rs_left_def)

lemma held_all_empty: "\<forall>j. Runs j \<notin> set ws \<Longrightarrow> held_all ws = {#}"
  by (induction ws) (auto simp: held_all_def held_def split: sp_worker.splits)

lemma rs_among: "rs_inv k js s \<Longrightarrow> mset (rs_got s) \<subseteq># mset js"
  unfolding rs_inv_def by (metis mset_subset_eq_add_right)

lemma rs_stuck:
  assumes inv: "rs_inv k js s" and k: "0 < k" and few: "length js \<le> 100" and stuck: "\<nexists>s'. rs_step s s'"
  shows "mset (rs_got s) = mset js"
proof (rule ccontr)
  assume more: "mset (rs_got s) \<noteq> mset js"
  have sum: "length (rs_todo s) + length (rs_jobs s) + size (held_all (rs_workers s)) + length (rs_results s) + length (rs_got s) = length js"
    using arg_cong[where f = size] inv unfolding rs_inv_def by (metis size_mset size_union)
  have "rs_todo s = []" using stuck give[of s "hd (rs_todo s)" "tl (rs_todo s)"] sum few by (cases "rs_todo s") auto
  then have closed: "rs_closed s" using stuck close_jobs[of s] by blast
  have "mset (rs_got s) \<subset># mset js" using rs_among[OF inv] more by (simp add: subset_mset.less_le)
  then have "length (rs_got s) < rs_count s" using mset_subset_size inv by (fastforce simp: rs_inv_def)
  then have results: "rs_results s = []" using stuck collect[of s "hd (rs_results s)" "tl (rs_results s)"] closed by (cases "rs_results s") auto
  then have "\<forall>j. Runs j \<notin> set (rs_workers s)" using stuck deliver[of _ s] by (auto simp: in_set_conv_nth)
  then have jobs: "rs_jobs s \<noteq> []"
    using more inv held_all_empty[of "rs_workers s"] results \<open>rs_todo s = []\<close> by (auto simp: rs_inv_def)
  then have "rs_workers s ! 0 \<noteq> Waits" using stuck take_job[of 0 s "hd (rs_jobs s)" "tl (rs_jobs s)"] inv k by (auto simp: rs_inv_def)
  moreover have "rs_workers s ! 0 \<in> set (rs_workers s)" using inv k by (auto simp: rs_inv_def)
  ultimately show False
    using jobs inv \<open>\<forall>j. Runs j \<notin> set (rs_workers s)\<close> by (cases "rs_workers s ! 0") (auto simp: rs_inv_def)
qed

text \<open>The pool of the example computes every result: with at least one worker and at most as many jobs as a channel holds, whatever the order in which the goroutines run, the
  results taken are always among the jobs, each run ends, and when nothing can happen any more the main function has taken exactly the result of each job.\<close>

theorem pool_computes_all:
  fixes js :: "'j list"
  assumes "0 < k" and "length js \<le> 100" and "rs_step\<^sup>*\<^sup>* (pool_main k js) s"
  shows "mset (rs_got s) \<subseteq># mset js \<and> ((\<nexists>s'. rs_step s s') \<longrightarrow> mset (rs_got s) = mset js) \<and> wfp (\<lambda>s' s. rs_step s (s' :: 'j result_pool))"
proof (intro conjI impI)
  have "held_all (replicate k Waits) = ({#} :: 'j multiset)" by (induction k) (simp_all add: held_all_def)
  then have "rs_inv k js (pool_main k js)" by (simp add: rs_inv_def pool_main_def)
  note inv = result_pool.steps_keep[OF assms(3) this]
  show "mset (rs_got s) \<subseteq># mset js" using rs_among[OF inv] .
  show "mset (rs_got s) = mset js" if "\<nexists>s'. rs_step s s'" using rs_stuck[OF inv assms(1,2) that] .
  show "wfp (\<lambda>s' s. rs_step s (s' :: 'j result_pool))" by (rule wfp_if_convertible_to_nat[of _ rs_left]) (rule rs_step_left)
qed

text \<open>With more jobs than the channels and the workers hold the program would block: here the main function still sends, and the workers cannot deliver.\<close>

definition full_pool :: "nat result_pool" where
  "full_pool = \<lparr>rs_todo = [0], rs_jobs = replicate 100 0, rs_closed = False, rs_workers = [Runs 0], rs_results = replicate 100 0, rs_got = [], rs_count = 202\<rparr>"

theorem full_pool_blocks: "\<nexists>s'. rs_step full_pool s'"
  by (auto simp: full_pool_def elim!: rs_step.cases)

end
