(* ===== verification/Delay_Queue.thy ===== *)
theory Delay_Queue
  imports Prelude "HOL-Library.Product_Lexorder" "HOL-Library.List_Lexorder" "HOL-Library.Char_ord"
begin

text \<open>
  The delay queue of \<^verbatim>\<open>service/delay.go\<close>, kept in a sorted set of Redis.  The Redis client and the JSON codec are not part of the repository: the calls the
  queue makes are the fields of two records, which are arguments of every operation.  What the proofs use of them is their documented behaviour, stated as
  \<open>zset_laws\<close> and \<open>json_laws\<close>.
\<close>

section \<open>The operations\<close>

definition keyPre :: string where "keyPre = ''delay:queue''"

record Item =
  it_Ts :: int
  it_Event :: string
  it_Args :: string

record Delay =
  d_Group :: string
  d_Key :: string

definition NewDelay :: "string \<Rightarrow> Delay" where
  "NewDelay grp = \<lparr>d_Group = grp, d_Key = keyPre @ '':'' @ grp\<rparr>"

text \<open>\<open>zr_Eval\<close> is the call of \<open>Eval\<close> with the script \<open>zScript\<close>: the members with a score from 0 to the given one, at most the given number, which the script
  removes.\<close>

record 'r zredis =
  zr_ZAdd :: "string \<Rightarrow> int \<Rightarrow> string \<Rightarrow> 'r \<Rightarrow> string option \<times> 'r"
  zr_Eval :: "string \<Rightarrow> int \<Rightarrow> nat \<Rightarrow> 'r \<Rightarrow> (string + string list) \<times> 'r"

record json =
  js_marshal :: "Item \<Rightarrow> string + string"
  js_unmarshal :: "string \<Rightarrow> string + Item"
  js_marshal_list :: "string list \<Rightarrow> string + string"
  js_unmarshal_list :: "string \<Rightarrow> string + string list"

text \<open>\<open>args\<close> is what \<open>args.Marshal\<close> returns, \<open>now\<close> the time in nanoseconds, \<open>runAt\<close> in seconds; a score is a \<open>float64\<close>, which holds the seconds exactly.\<close>

definition delay_Add :: "json \<Rightarrow> 'r zredis \<Rightarrow> Delay \<Rightarrow> int \<Rightarrow> string \<Rightarrow> string \<Rightarrow> int \<Rightarrow> 'r \<Rightarrow> string option \<times> 'r" where
  "delay_Add J R d runAt event args now r =
     (case js_marshal J \<lparr>it_Ts = now, it_Event = event, it_Args = args\<rparr> of
        Inl e \<Rightarrow> (Some e, r)
      | Inr vals \<Rightarrow> zr_ZAdd R (d_Key d) runAt vals r)"

text \<open>The items of a batch that can be decoded, in their order; the others are only logged.\<close>

definition decoded :: "json \<Rightarrow> string list \<Rightarrow> Item list" where
  "decoded J items = concat (map (\<lambda>js. case js_unmarshal J js of Inl _ \<Rightarrow> [] | Inr item \<Rightarrow> [item]) items)"

text \<open>One round of the inner loop of \<open>Run\<close>: an error makes it go on, an empty answer ends it, and otherwise a batch is handed out.\<close>

datatype round = Again | Break | Batch "string list"

definition Run_round :: "json \<Rightarrow> (string + string list) \<Rightarrow> round" where
  "Run_round J ans =
     (case ans of
        Inl e \<Rightarrow> Again
      | Inr ret \<Rightarrow>
          (case js_marshal_list J ret of
             Inl e \<Rightarrow> Break
           | Inr buf \<Rightarrow> if buf = ''[]'' then Break else (case js_unmarshal_list J buf of Inl e \<Rightarrow> Again | Inr items \<Rightarrow> Batch items)))"

text \<open>The inner loop: the items handed out, in their order, and the state of the server; \<open>None\<close> when it never ends.\<close>

partial_function (option) Run_loop :: "json \<Rightarrow> 'r zredis \<Rightarrow> Delay \<Rightarrow> nat \<Rightarrow> int \<Rightarrow> 'r \<Rightarrow> (Item list \<times> 'r) option" where
  "Run_loop J R d sz ts r =
     (let ans = zr_Eval R (d_Key d) ts sz r; rd = Run_round J (fst ans)
      in if rd = Break then Some ([], snd ans)
         else Option.bind (Run_loop J R d sz ts (snd ans)) (\<lambda>rest.
                Some ((case rd of Batch items \<Rightarrow> decoded J items | _ \<Rightarrow> []) @ fst rest, snd rest)))"

text \<open>What \<open>Run\<close> does at a tick with the time \<open>ts\<close>.\<close>

definition Run_tick :: "json \<Rightarrow> 'r zredis \<Rightarrow> Delay \<Rightarrow> int \<Rightarrow> int \<Rightarrow> 'r \<Rightarrow> (Item list \<times> 'r) option" where
  "Run_tick J R d sz ts r = Run_loop J R d (nat (if sz < 1 then 1 else sz)) ts r"

section \<open>Sorted sets and the codec\<close>

definition due :: "int \<Rightarrow> (int \<times> string) set \<Rightarrow> (int \<times> string) set" where
  "due ts S = {x \<in> S. 0 \<le> fst x \<and> fst x \<le> ts}"

definition batch :: "nat \<Rightarrow> int \<Rightarrow> (int \<times> string) set \<Rightarrow> string list" where
  "batch sz ts S = map snd (take sz (sorted_list_of_set (due ts S)))"

text \<open>What the documentation says, for a server whose sorted sets are \<open>zs\<close>: a member has one score; \<open>ZADD\<close> sets the score of a member; the script, which
  the server runs as one step, yields the members in the order of their scores and, for equal scores, of their bytes, and removes them.\<close>

definition zset_laws :: "'r zredis \<Rightarrow> ('r \<Rightarrow> string \<Rightarrow> (int \<times> string) set) \<Rightarrow> bool" where
  "zset_laws R zs \<longleftrightarrow>
     (\<forall>r key. finite (zs r key) \<and> inj_on snd (zs r key))
   \<and> (\<forall>key s m r r1. zr_ZAdd R key s m r = (None, r1) \<longrightarrow> zs r1 = (zs r)(key := insert (s, m) {x \<in> zs r key. snd x \<noteq> m}))
   \<and> (\<forall>key s m r e r1. zr_ZAdd R key s m r = (Some e, r1) \<longrightarrow> zs r1 = zs r)
   \<and> (\<forall>key ts n r. fst (zr_Eval R key ts n r) = Inr (batch n ts (zs r key)))
   \<and> (\<forall>key ts n r. zs (snd (zr_Eval R key ts n r)) = (zs r)(key := {x \<in> zs r key. snd x \<notin> set (batch n ts (zs r key))}))"

definition json_laws :: "json \<Rightarrow> bool" where
  "json_laws J \<longleftrightarrow>
     (\<forall>i s. js_marshal J i = Inr s \<longrightarrow> js_unmarshal J s = Inr i)
   \<and> (\<forall>xs. \<exists>s. js_marshal_list J xs = Inr s \<and> js_unmarshal_list J s = Inr xs \<and> (s = ''[]'' \<longleftrightarrow> xs = []))"

lemma zset_lawsD:
  assumes "zset_laws R zs"
  shows "finite (zs r key)" "inj_on snd (zs r key)"
    "zr_ZAdd R key s m r = (None, r1) \<Longrightarrow> zs r1 = (zs r)(key := insert (s, m) {x \<in> zs r key. snd x \<noteq> m})"
    "fst (zr_Eval R key ts n r) = Inr (batch n ts (zs r key))"
    "zs (snd (zr_Eval R key ts n r)) = (zs r)(key := {x \<in> zs r key. snd x \<notin> set (batch n ts (zs r key))})"
  using assms unfolding zset_laws_def by (simp, simp, blast, blast, blast)

lemma Run_round_batch: "json_laws J \<Longrightarrow> Run_round J (Inr xs) = (if xs = [] then Break else Batch xs)"
proof -
  assume "json_laws J"
  then obtain s where "js_marshal_list J xs = Inr s" "js_unmarshal_list J s = Inr xs" "s = ''[]'' \<longleftrightarrow> xs = []" unfolding json_laws_def by blast
  then show ?thesis by (simp add: Run_round_def)
qed

text \<open>Taking a batch leaves the rest, in the same order.\<close>

lemma sorted_list_rest:
  assumes "finite (S :: (int \<times> string) set)"
  shows "sorted_list_of_set (S - set (take n (sorted_list_of_set S))) = drop n (sorted_list_of_set S)"
proof -
  let ?L = "sorted_list_of_set S"
  have L: "sorted ?L" "distinct ?L" "set ?L = S" using assms by simp_all
  have "set (take n ?L) \<inter> set (drop n ?L) = {}" using L(2) by (rule set_take_disj_set_drop_if_distinct) simp
  moreover have "set (take n ?L) \<union> set (drop n ?L) = S" using L by (simp flip: set_append)
  ultimately have "S - set (take n ?L) = set (drop n ?L)" by auto
  moreover have "sorted (drop n ?L)" "distinct (drop n ?L)" using L by (simp_all add: sorted_wrt_drop)
  ultimately show ?thesis by (simp add: sorted_list_of_set.idem_if_sorted_distinct)
qed

lemma removed_members:
  assumes "inj_on snd S" "finite S"
  shows "{x \<in> S. snd x \<notin> set (batch n ts S)} = S - set (take n (sorted_list_of_set (due ts S)))"
proof -
  have "set (take n (sorted_list_of_set (due ts S))) \<subseteq> S"
    using set_take_subset[of n "sorted_list_of_set (due ts S)"] assms(2) by (auto simp: due_def)
  then show ?thesis using assms(1) unfolding batch_def by (auto simp: inj_on_def)
qed

lemma decoded_append: "decoded J (xs @ ys) = decoded J xs @ decoded J ys"
  by (simp add: decoded_def)

lemma decoded_split: "decoded J (map snd (take n L)) @ decoded J (map snd (drop n L)) = decoded J (map snd L)"
  by (metis append_take_drop_id decoded_append map_append)

lemma Run_loop_drains:
  assumes z: "zset_laws R zs" and j: "json_laws J" and sz: "0 < sz"
  shows "\<exists>r'. Run_loop J R d sz ts r = Some (decoded J (map snd (sorted_list_of_set (due ts (zs r (d_Key d))))), r') \<and>
     zs r' = (zs r)(d_Key d := zs r (d_Key d) - due ts (zs r (d_Key d)))"
proof (induction "card (due ts (zs r (d_Key d)))" arbitrary: r rule: less_induct)
  case less
  let ?S = "zs r (d_Key d)" and ?ans = "zr_Eval R (d_Key d) ts sz r"
  let ?D = "due ts ?S" and ?T = "set (take sz (sorted_list_of_set (due ts ?S)))"
  have fin: "finite ?S" "finite ?D" "inj_on snd ?S" using zset_lawsD(1,2)[OF z] by (simp_all add: due_def)
  have ans: "fst ?ans = Inr (batch sz ts ?S)" "zs (snd ?ans) = (zs r)(d_Key d := ?S - ?T)"
    using zset_lawsD(4,5)[OF z] removed_members[OF fin(3,1)] by simp_all
  have T: "?T \<subseteq> ?D" using fin(2) set_take_subset[of sz "sorted_list_of_set ?D"] by simp
  have rest: "due ts (zs (snd ?ans) (d_Key d)) = ?D - ?T" by (auto simp: ans(2) due_def)
  show ?case
  proof (cases "?D = {}")
    case True
    then have "batch sz ts ?S = []" by (simp add: batch_def)
    then have "Run_loop J R d sz ts r = Some ([], snd ?ans)" by (subst Run_loop.simps) (simp add: Let_def ans(1) Run_round_batch[OF j])
    then show ?thesis using True by (auto simp: decoded_def ans(2))
  next
    case False
    then have "sorted_list_of_set ?D \<noteq> []" using fin(2) by simp
    then have ne: "take sz (sorted_list_of_set ?D) \<noteq> []" "batch sz ts ?S \<noteq> []" using sz by (simp_all add: batch_def)
    obtain x where "x \<in> ?T" using ne(1) by (meson ex_in_conv set_empty)
    then have "?D - ?T \<subset> ?D" using T by blast
    then have "card (due ts (zs (snd ?ans) (d_Key d))) < card ?D" unfolding rest using fin(2) by (rule psubset_card_mono[rotated])
    from less[OF this] obtain r' where a: "Run_loop J R d sz ts (snd ?ans) = Some (decoded J (map snd (sorted_list_of_set (?D - ?T))), r')"
        and b: "zs r' = (zs (snd ?ans))(d_Key d := zs (snd ?ans) (d_Key d) - (?D - ?T))"
      unfolding rest by blast
    have zs': "zs r' = (zs r)(d_Key d := ?S - ?T - (?D - ?T))" unfolding b ans(2) by simp
    have "Run_loop J R d sz ts r = Some (decoded J (batch sz ts ?S) @ decoded J (map snd (sorted_list_of_set (?D - ?T))), r')"
      using ne(2) by (subst Run_loop.simps) (simp add: Let_def ans(1) Run_round_batch[OF j] a)
    moreover have "sorted_list_of_set (?D - ?T) = drop sz (sorted_list_of_set ?D)" by (rule sorted_list_rest[OF fin(2)])
    moreover have "?S - ?T - (?D - ?T) = ?S - ?D" using T by auto
    ultimately show ?thesis using zs' unfolding batch_def by (metis decoded_split)
  qed
qed

section \<open>Properties\<close>


text \<open>A server that satisfies the laws: its state is a list of members with their scores, the latest first.\<close>

definition zset_of :: "(string \<times> int) list \<Rightarrow> (int \<times> string) set" where
  "zset_of al = {x. map_of al (snd x) = Some (fst x)}"

definition zset_server :: "(string \<Rightarrow> (string \<times> int) list) zredis" where
  "zset_server = \<lparr>zr_ZAdd = (\<lambda>key s m r. (None, r(key := (m, s) # r key))),
     zr_Eval = (\<lambda>key ts n r. (Inr (batch n ts (zset_of (r key))), r(key := filter (\<lambda>x. fst x \<notin> set (batch n ts (zset_of (r key)))) (r key))))\<rparr>"

lemma zset_of_finite: "finite (zset_of al)"
proof (rule finite_subset)
  show "zset_of al \<subseteq> (\<lambda>x. (snd x, fst x)) ` set al" by (force simp: zset_of_def dest: map_of_SomeD)
qed simp

lemma zset_of_inj: "inj_on snd (zset_of al)"
  by (auto simp: inj_on_def zset_of_def)

lemma zset_of_Cons: "zset_of ((m, s) # al) = insert (s, m) {x \<in> zset_of al. snd x \<noteq> m}"
  by (auto simp: zset_of_def split: if_splits)

lemma zset_of_filter: "zset_of (filter (\<lambda>x. P (fst x)) al) = {x \<in> zset_of al. P (snd x)}"
proof -
  have "map_of (filter (\<lambda>x. P (fst x)) al) m = (if P m then map_of al m else None)" for m by (induction al) auto
  then show ?thesis by (auto simp: zset_of_def split: if_splits)
qed

lemma zset_server_laws: "zset_laws zset_server (\<lambda>r key. zset_of (r key))"
proof -
  have "zset_of (filter (\<lambda>x. fst x \<notin> A) al) = {x \<in> zset_of al. snd x \<notin> A}" for A al by (rule zset_of_filter)
  then show ?thesis
    by (auto simp: zset_laws_def zset_server_def zset_of_finite zset_of_inj zset_of_Cons fun_upd_def intro!: ext)
qed

text \<open>A codec that satisfies the laws: each character of a string is marked, a dot ends a string, and one item has an encoding.\<close>

definition mark :: "string \<Rightarrow> string" where
  "mark s = concat (map (\<lambda>c. [CHR ''c'', c]) s) @ ''.''"

fun unmark :: "string \<Rightarrow> string \<Rightarrow> string list" where
  "unmark acc [] = []"
| "unmark acc [x] = [acc]"
| "unmark acc (x # c # s) = (if x = CHR ''c'' then unmark (acc @ [c]) s else acc # unmark [] (c # s))"

lemma unmark_mark: "unmark acc (mark s @ rest) = (acc @ s) # unmark [] rest"
proof (induction s arbitrary: acc)
  case Nil
  show ?case by (cases rest) (simp_all add: mark_def)
next
  case (Cons c s)
  have "unmark acc (mark (c # s) @ rest) = unmark (acc @ [c]) (mark s @ rest)" by (simp add: mark_def)
  with Cons show ?case by simp
qed

lemma unmark_marks: "unmark [] (concat (map mark xs)) = xs"
  by (induction xs) (simp_all add: unmark_mark)

definition example_item :: Item where
  "example_item = \<lparr>it_Ts = 1, it_Event = ''mail'', it_Args = ''7''\<rparr>"

definition example_json :: json where
  "example_json = \<lparr>js_marshal = (\<lambda>i. if i = example_item then Inr ''mail:7'' else Inl ''unsupported''),
     js_unmarshal = (\<lambda>s. if s = ''mail:7'' then Inr example_item else Inl ''malformed''),
     js_marshal_list = (\<lambda>xs. Inr (if xs = [] then ''[]'' else concat (map mark xs))),
     js_unmarshal_list = (\<lambda>s. Inr (if s = ''[]'' then [] else unmark [] s))\<rparr>"

lemma marks_not_brackets: "xs \<noteq> [] \<Longrightarrow> concat (map mark xs) \<noteq> ''[]''"
proof (cases xs)
  case (Cons x ys)
  have "hd (mark x) \<in> {CHR ''c'', CHR ''.''}" "mark x \<noteq> []" by (cases x; simp add: mark_def)+
  then have "hd (concat (map mark xs)) \<in> {CHR ''c'', CHR ''.''}" using Cons by simp
  then show ?thesis by auto
qed simp

lemma example_json_laws: "json_laws example_json"
  by (auto simp: json_laws_def example_json_def unmark_marks marks_not_brackets split: if_splits)


section \<open>Forced batches\<close>

text \<open>With \<open>force\<close> every item of a batch has a goroutine of its own, but they share the variable \<open>err\<close>: a goroutine first decodes its item, which stores the
  outcome in \<open>err\<close>, and then tests \<open>err\<close>.  An item that could not be decoded is taken to be left empty.  \<open>forced\<close> runs the goroutines in the order of the schedule, which names each twice, and yields the items handed to
  the function.\<close>

fun forced :: "json \<Rightarrow> string list \<Rightarrow> nat set \<Rightarrow> bool \<Rightarrow> nat list \<Rightarrow> Item list" where
  "forced J items begun err [] = []"
| "forced J items begun err (i # sched) =
     (if i \<notin> begun then forced J items (insert i begun) (isl (js_unmarshal J (items ! i))) sched
      else (if err then [] else (case js_unmarshal J (items ! i) of Inr item \<Rightarrow> [item] | Inl _ \<Rightarrow> [\<lparr>it_Ts = 0, it_Event = [], it_Args = []\<rparr>])) @
           forced J items begun err sched)"

text \<open>A malformed neighbour makes a good item disappear, or is itself handed out empty, depending on the schedule.\<close>

theorem shared_err:
  "forced example_json [''mail:7'', ''bad''] {} False [0, 1, 0, 1] = []"
  "forced example_json [''mail:7'', ''bad''] {} False [1, 0, 1, 0] = [\<lparr>it_Ts = 0, it_Event = [], it_Args = []\<rparr>, example_item]"
  by (simp_all add: example_json_def)

end
