(* ===== verification/Page_Scraper.thy ===== *)
theory Page_Scraper
  imports Watcher
begin

text \<open>
  The service of \<^verbatim>\<open>chromedp/chromedp.go\<close>: a request names a page, a browser loads it, and the answer holds its text, its title and the addresses of its
  images.  The browser, the document parser, the JSON codec and the connection are not part of the repository; their calls are the fields of a record.
\<close>

section \<open>The handler\<close>

record Data =
  dt_Html :: string
  dt_Title :: string
  dt_Imgs :: "string list"

record Response =
  rp_Code :: int
  rp_Msg :: string
  rp_Data :: "Data option"

record Req =
  rq_Link :: string

text \<open>What the handler calls.  Decoding into a pointer to a pointer leaves \<open>nil\<close> for the text \<open>null\<close>; reading an attribute that is missing gives the empty
  string; the elements come in the order of the document, each with its \<open>src\<close> and its \<open>data-src\<close>.\<close>

record 'doc services =
  sv_body :: "string + string"
  sv_unmarshal :: "string \<Rightarrow> string + Req option"
  sv_marshal :: "Response \<Rightarrow> string + string"
  sv_write :: "string \<Rightarrow> string option"
  sv_browse :: "string \<Rightarrow> string + string"
  sv_document :: "string \<Rightarrow> string + 'doc"
  sv_imgs :: "'doc \<Rightarrow> (string \<times> string) list"
  sv_title :: "'doc \<Rightarrow> string"

text \<open>How a call ends: with an answer that has been written, with the end of the process by \<open>log.Fatal\<close>, or with a panic.\<close>

datatype outcome = Written string | Fatal string | Panicked panic

definition JSONResp :: "'doc services \<Rightarrow> Response \<Rightarrow> outcome" where
  "JSONResp S res =
     (case sv_marshal S res of
        Inl err \<Rightarrow> Fatal err
      | Inr byteJson \<Rightarrow> (case sv_write S byteJson of Some err \<Rightarrow> Fatal err | None \<Rightarrow> Written byteJson))"

definition TrimLeft :: "string \<Rightarrow> string \<Rightarrow> string" where
  "TrimLeft s cutset = dropWhile (\<lambda>c. c \<in> set cutset) s"

text \<open>The address of an image: \<open>img[0:4]\<close> panics for a string of fewer than four bytes.\<close>

definition img_url :: "string \<Rightarrow> string may_panic" where
  "img_url src =
     (let img = TrimLeft src ''//''
      in case go_slice img 0 4 of
           Inl p \<Rightarrow> Inl p
         | Inr start \<Rightarrow> Inr (if start \<noteq> ''http'' then ''http://'' @ img else img))"

definition add_img :: "string \<Rightarrow> string list \<Rightarrow> string list may_panic" where
  "add_img src imgs = (if src = [] then Inr imgs else case img_url src of Inl p \<Rightarrow> Inl p | Inr img \<Rightarrow> Inr (imgs @ [img]))"

fun each_img :: "(string \<times> string) list \<Rightarrow> string list \<Rightarrow> string list may_panic" where
  "each_img [] imgs = Inr imgs"
| "each_img ((src, dsrc) # sels) imgs =
     (case add_img src imgs of
        Inl p \<Rightarrow> Inl p
      | Inr imgs1 \<Rightarrow> (case add_img dsrc imgs1 of Inl p \<Rightarrow> Inl p | Inr imgs2 \<Rightarrow> each_img sels imgs2))"

text \<open>The message for an empty link, in UTF-8.\<close>

definition link_error :: string where
  "link_error = map char_of [0xE9, 0x93, 0xBE, 0xE6, 0x8E, 0xA5, 0xE9, 0x94, 0x99, 0xE8, 0xAF, 0xAF :: nat]"

definition failure :: "string \<Rightarrow> Response" where
  "failure msg = \<lparr>rp_Code = -1, rp_Msg = msg, rp_Data = None\<rparr>"

definition scrape :: "'doc services \<Rightarrow> string \<Rightarrow> outcome" where
  "scrape S link =
     (case sv_browse S link of
        Inl err \<Rightarrow> Fatal err
      | Inr htmlcon \<Rightarrow> (case sv_document S htmlcon of
          Inl err \<Rightarrow> Fatal err
        | Inr doc \<Rightarrow> (case each_img (sv_imgs S doc) [] of
            Inl p \<Rightarrow> Panicked p
          | Inr imgs \<Rightarrow> JSONResp S \<lparr>rp_Code = 0, rp_Msg = [],
              rp_Data = Some \<lparr>dt_Html = htmlcon, dt_Title = TrimSpace (sv_title S doc), dt_Imgs = imgs\<rparr>\<rparr>)))"

text \<open>The contexts a call creates: the allocator's, the browser's, and the one with the time limit.  The deferred call cancels what the variable \<open>cancel\<close> holds,
  the last of them; the list holds those that are never cancelled.\<close>

datatype scrape_context = Allocator | Browser | Time_limit

definition Post :: "'doc services \<Rightarrow> outcome \<times> scrape_context list" where
  "Post S =
     (case sv_body S of
        Inl err \<Rightarrow> (JSONResp S (failure err), [])
      | Inr raw \<Rightarrow> (case sv_unmarshal S raw of
          Inl err \<Rightarrow> (JSONResp S (failure err), [])
        | Inr None \<Rightarrow> (Panicked NilDereference, [])
        | Inr (Some req) \<Rightarrow>
            (let link = TrimSpace (rq_Link req)
             in if link = [] then (JSONResp S (failure link_error), [])
                else (scrape S link, [Allocator, Browser]))))"

section \<open>The signals\<close>

text \<open>The loop takes the signals in their order; the result is what is left when it returns, or \<open>None\<close> while it still waits.\<close>

fun Signal :: "os_signal list \<Rightarrow> os_signal list option" where
  "Signal [] = None"
| "Signal (s # ss) = (if s = SIGHUP then Signal ss else Some ss)"

section \<open>Properties\<close>

definition attrs :: "(string \<times> string) list \<Rightarrow> string list" where
  "attrs sels = filter (\<lambda>s. s \<noteq> []) (concat (map (\<lambda>(src, dsrc). [src, dsrc]) sels))"

definition long_enough :: "string \<Rightarrow> bool" where
  "long_enough src \<longleftrightarrow> 4 \<le> length (TrimLeft src ''//'')"

definition address :: "string \<Rightarrow> string" where
  "address src = (let img = TrimLeft src ''//'' in if take 4 img \<noteq> ''http'' then ''http://'' @ img else img)"

lemma add_img_eq:
  "add_img src imgs = (if src = [] then Inr imgs else if long_enough src then Inr (imgs @ [address src]) else Inl IndexOutOfRange)"
  by (simp add: add_img_def img_url_def go_slice_def long_enough_def address_def Let_def)

lemma each_img_eq:
  "each_img sels imgs = (if list_all long_enough (attrs sels) then Inr (imgs @ map address (attrs sels)) else Inl IndexOutOfRange)"
  by (induction sels imgs rule: each_img.induct) (auto simp: attrs_def add_img_eq)

definition absolute :: "string \<Rightarrow> bool" where
  "absolute img \<longleftrightarrow> take 4 img = ''http''"

lemma address_absolute: "absolute (address src)"
  by (simp add: absolute_def address_def Let_def)

text \<open>The two kinds of answer: an error message without data, or the data with addresses only.\<close>

definition well_typed :: "Response \<Rightarrow> bool" where
  "well_typed r \<longleftrightarrow> (case rp_Data r of None \<Rightarrow> rp_Code r = -1 | Some d \<Rightarrow> rp_Code r = 0 \<and> rp_Msg r = [] \<and> list_all absolute (dt_Imgs d))"

lemma well_typed_failure [simp]: "well_typed (failure msg)"
  by (simp add: well_typed_def failure_def)

lemma JSONResp_Written: "JSONResp S r = Written bs \<longleftrightarrow> sv_marshal S r = Inr bs \<and> sv_write S bs = None"
  by (auto simp: JSONResp_def split: sum.splits option.splits)

lemma JSONResp_not_panics [simp]: "JSONResp S r \<noteq> Panicked p"
  by (simp add: JSONResp_def split: sum.splits option.splits)

lemma well_typed_page: "well_typed \<lparr>rp_Code = 0, rp_Msg = [], rp_Data = Some \<lparr>dt_Html = h, dt_Title = t, dt_Imgs = map address xs\<rparr>\<rparr>"
  by (simp add: well_typed_def list_all_iff address_absolute)

lemma scrape_Written: "scrape S link = Written bs \<Longrightarrow> \<exists>r. well_typed r \<and> sv_marshal S r = Inr bs"
  using well_typed_page by (fastforce simp: scrape_def each_img_eq JSONResp_Written split: sum.splits if_splits)

text \<open>The link of a request that has one.\<close>

definition requested_link :: "'doc services \<Rightarrow> string option" where
  "requested_link S =
     (case sv_body S of Inr raw \<Rightarrow> (case sv_unmarshal S raw of Inr (Some req) \<Rightarrow> (let link = TrimSpace (rq_Link req) in if link = [] then None else Some link) | _ \<Rightarrow> None) | _ \<Rightarrow> None)"

definition null_body :: "'doc services \<Rightarrow> bool" where
  "null_body S \<longleftrightarrow> (case sv_body S of Inr raw \<Rightarrow> sv_unmarshal S raw = Inr None | _ \<Rightarrow> False)"

definition page_attrs :: "'doc services \<Rightarrow> string \<Rightarrow> string list" where
  "page_attrs S link = (case sv_browse S link of Inr htmlcon \<Rightarrow> (case sv_document S htmlcon of Inr doc \<Rightarrow> attrs (sv_imgs S doc) | _ \<Rightarrow> []) | _ \<Rightarrow> [])"

lemma Post_cases:
  obtains (link) link where "requested_link S = Some link" "\<not> null_body S" "Post S = (scrape S link, [Allocator, Browser])"
  | (null) "requested_link S = None" "null_body S" "Post S = (Panicked NilDereference, [])"
  | (rejected) msg where "requested_link S = None" "\<not> null_body S" "Post S = (JSONResp S (failure msg), [])"
proof (cases "sv_body S")
  case (Inl err)
  then show ?thesis by (intro rejected) (auto simp: Post_def requested_link_def null_body_def)
next
  case (Inr raw)
  consider (error) err where "sv_unmarshal S raw = Inl err" | (nil) "sv_unmarshal S raw = Inr None" | (req) req where "sv_unmarshal S raw = Inr (Some req)"
    by (metis obj_sumE option.exhaust)
  then show ?thesis
  proof cases
    case req
    with Inr show ?thesis
      by (cases "TrimSpace (rq_Link req) = []")
         (use link rejected in \<open>simp_all add: Post_def requested_link_def null_body_def Let_def\<close>)
  qed (use Inr null rejected in \<open>simp_all add: Post_def requested_link_def null_body_def\<close>)
qed

lemma scrape_panics: "(\<exists>p. scrape S link = Panicked p) \<longleftrightarrow> \<not> list_all long_enough (page_attrs S link)"
  by (auto simp: scrape_def page_attrs_def each_img_eq split: sum.splits)


text \<open>A page that loads and has no short address is answered with its text, its title without the white space around it, and the addresses of its images in the order of
  the document, an element's \<open>src\<close> before its \<open>data-src\<close>.\<close>

theorem Post_delivers_images:
  assumes "requested_link S = Some link" "sv_browse S link = Inr htmlcon" "sv_document S htmlcon = Inr doc" "list_all long_enough (attrs (sv_imgs S doc))"
  shows "fst (Post S) = JSONResp S \<lparr>rp_Code = 0, rp_Msg = [],
     rp_Data = Some \<lparr>dt_Html = htmlcon, dt_Title = TrimSpace (sv_title S doc), dt_Imgs = map address (attrs (sv_imgs S doc))\<rparr>\<rparr>"
  using assms by (cases S rule: Post_cases) (auto simp: scrape_def each_img_eq)

text \<open>A concrete instance: the body is the link, every page is the same document, and an answer is encoded by its message or its addresses.\<close>

definition example_services :: "string \<Rightarrow> (string \<times> string) list \<Rightarrow> unit services" where
  "example_services body sels = \<lparr>sv_body = Inr body, sv_unmarshal = (\<lambda>raw. if raw = ''null'' then Inr None else Inr (Some \<lparr>rq_Link = raw\<rparr>)),
     sv_marshal = (\<lambda>r. Inr (case rp_Data r of None \<Rightarrow> rp_Msg r | Some d \<Rightarrow> concat (map (\<lambda>i. i @ '' '') (dt_Imgs d)))), sv_write = (\<lambda>_. None),
     sv_browse = (\<lambda>link. Inr ''<html/>''), sv_document = (\<lambda>_. Inr ()), sv_imgs = (\<lambda>_. sels), sv_title = (\<lambda>_. '' Shop '')\<rparr>"

lemma example_post: "fst (Post (example_services '' shop.cn '' [(''//img.cn/a.png'', []), ([], ''https://b.cn'')])) = Written ''http://img.cn/a.png https://b.cn ''"
  by code_simp


text \<open>An address relative to the host of the page loses its first slash and becomes an address on another host.\<close>

theorem host_relative_address: "img_url ''/static/a.png'' = Inr ''http://static/a.png''"
  by code_simp

text \<open>The service ends at the first signal that is not \<open>SIGHUP\<close>, and not before.\<close>

theorem Signal_returns: "Signal ss = (case dropWhile (\<lambda>s. s = SIGHUP) ss of [] \<Rightarrow> None | _ # rest \<Rightarrow> Some rest)"
  by (induction ss) auto

end
