(* ===== verification/Spec2Isabelle.thy ===== *)
theory Spec2Isabelle
  imports Cron_Runner My_Queue Dqueue_Copy Registry_Race Work_Pool_Safety Zero_Server Byte_Buffer
    Pub_Loop Rate_Limiter Job_Lifecycle Ants_Pool Child_Process Watch_Main Vlog Stream_Programs Delay_Queue
    Page_Scraper
begin

text \<open>
  A verification library for the Go module \<^verbatim>\<open>twist\<close>.

  \<^bold>\<open>The program.\<close>  The module is a service that runs jobs and a collection of the packages such a service is built from.  The job service
  (\<^verbatim>\<open>service\<close>, \<^verbatim>\<open>dao\<close>) runs consumers at once and hands scheduled jobs to the scheduler of \<^verbatim>\<open>core/cron\<close>; its pods exchange stop requests and
  job states through Redis, and it has a delay queue and a rate limiter on Redis.  Beside it stand a work pool on a guarded ring buffer (\<^verbatim>\<open>workpool\<close>), two
  copies of a disk queue (\<^verbatim>\<open>diskqueue\<close>, \<^verbatim>\<open>dqueue\<close>), a service registry (\<^verbatim>\<open>registry\<close>), a TCP server with its worker pool (\<^verbatim>\<open>zero\<close>) and
  another version of this pool (\<^verbatim>\<open>worker_pool.go\<close>), a pool of byte buffers (\<^verbatim>\<open>bytebufferpool\<close>), goroutine pools (\<^verbatim>\<open>ants.go\<close>, \<^verbatim>\<open>http.go\<close>,
  \<^verbatim>\<open>sem.go\<close>), connection numbers (\<^verbatim>\<open>bitmap/connIDPool\<close>), a publisher loop (\<^verbatim>\<open>consume/nsq.go\<close>), a logger (\<^verbatim>\<open>vlog\<close>), a process
  watcher (\<^verbatim>\<open>watch\<close>), a service that lists the images of web pages (\<^verbatim>\<open>chromedp\<close>), and small programs about streams (\<^verbatim>\<open>work_test\<close>).

  \<^bold>\<open>How it is modelled.\<close>  A struct is a record, an operation a function on it.  A goroutine panic is the value \<open>Inl\<close> of \<open>may_panic\<close>, an error of the
  program is a value of an error type, and the end of the process by \<open>log.Fatal\<close> or \<open>os.Exit\<close> is \<open>None\<close>.  Machine integers are words where bits matter and
  integers with the wrap-around written out elsewhere.  Goroutines are step relations: a step is a critical section, a channel operation or a stretch of code that
  shares nothing; blocking is the absence of a step, and what holds in all reachable states holds under every schedule.  Loops without an evident end are
  \<open>partial_function (option)\<close> or have a fuel argument, and it is proved that they return, or that the fuel chosen is enough.

  \<^bold>\<open>The theories\<close> and the sources they model.
  \<^item> \<open>Prelude\<close>: panics, slices, 32- and 64-bit integers, signals; the interfaces of step relations and the interfaces \<open>fifo\<close> (a queue against a list) and \<open>simulation\<close> (a state machine against a
    specification).
  \<^item> \<open>Go_Time\<close>, \<open>Go_Strings\<close>: what the sources use of the packages \<open>time\<close>, \<open>strings\<close> and \<open>strconv\<close>, with the calendar proved correct; the
    interfaces \<open>clock_unit\<close> and \<open>nested_units\<close>.
  \<^item> \<open>Ring_Queue\<close> (\<^verbatim>\<open>workpool/queue\<close>), \<open>My_Queue\<close> (\<^verbatim>\<open>workpool/myqueue\<close>), \<open>Work_Pool\<close> and \<open>Work_Pool_Safety\<close> (\<^verbatim>\<open>workpool\<close>): the ring buffer is a
    queue; the guarded queue is one under every interleaving and loses no wake-up; \<open>Wait\<close> returns the first error or that all tasks have run.
  \<^item> \<open>Cron_Spec\<close> and \<open>Cron_Next\<close> (\<^verbatim>\<open>core/cron/spec.go\<close>), \<open>Cron_Parser\<close> and \<open>Cron_Text\<close> (\<^verbatim>\<open>parser.go\<close>, \<^verbatim>\<open>constantdelay.go\<close>), \<open>Cron_Runner\<close>
    (\<^verbatim>\<open>cron.go\<close>): the five loops of \<open>Next\<close>, each an instance of \<open>field_loop\<close> and \<open>exact_loop\<close>, find the earliest matching second; the parser gives
    the text of a specification its meaning and always returns; the scheduler runs exactly the entries that are due, in time, and keeps its entries.
  \<^item> \<open>Disk_Queue\<close>, \<open>Disk_Fifo\<close>, \<open>Disk_Restart\<close> (\<^verbatim>\<open>diskqueue\<close>), \<open>Dqueue_Copy\<close> (\<^verbatim>\<open>dqueue\<close>): on a file system whose calls may fail, the queue is first in first
    out across files, survives a restart and every failed call, and its loop always comes back to its \<open>select\<close>; the copy agrees with it up to a file that is
    exactly full.
  \<^item> \<open>Registry\<close>, \<open>Registry_Spec\<close>, \<open>Registry_Race\<close> (\<^verbatim>\<open>registry\<close>): the heap of shared objects refines a directory; what concurrent registrations keep and lose.
  \<^item> \<open>Worker_Pools\<close> (\<^verbatim>\<open>zero/pool.go\<close>, \<^verbatim>\<open>worker_pool.go\<close>), \<open>Zero_Server\<close> (\<^verbatim>\<open>zero/server.go\<close>, \<^verbatim>\<open>zero/peripconn.go\<close>): both pools implement the
    interface \<open>idle_workers\<close>, stay within their limit and lose no connection; connections per address are limited.
  \<^item> \<open>Byte_Buffer\<close> (\<^verbatim>\<open>bytebufferpool\<close>): a buffer is a list of bytes; the pool hands out empty buffers.
  \<^item> \<open>Ants_Pool\<close> (\<^verbatim>\<open>ants.go\<close>), \<open>Simple_Pools\<close> (\<^verbatim>\<open>http.go\<close>, \<^verbatim>\<open>sem.go\<close>, \<^verbatim>\<open>bitmap/connIDPool\<close>): bounds on running tasks, nothing run twice or lost, numbers
    unique.
  \<^item> \<open>Pub_Loop\<close> (\<^verbatim>\<open>consume/nsq.go\<close>): no message is answered twice.
  \<^item> \<open>Rate_Limiter\<close> (\<^verbatim>\<open>service/koala.go\<close>), \<open>Delay_Queue\<close> (\<^verbatim>\<open>service/delay.go\<close>): the windows of the limiters; a tick of the delay queue ends and hands
    out exactly what is due.
  \<^item> \<open>Job_Task\<close> (\<^verbatim>\<open>service/task.go\<close>, \<^verbatim>\<open>service/conf.go\<close>), \<open>Job_Service\<close> (\<^verbatim>\<open>service/svr.go\<close>, \<^verbatim>\<open>service/grpc.go\<close>), \<open>Job_Dao\<close> (\<^verbatim>\<open>dao/status.go\<close>), \<open>Job_Lifecycle\<close>
    (\<^verbatim>\<open>main.go\<close>, \<^verbatim>\<open>service/service.go\<close>, \<^verbatim>\<open>dao/dao.go\<close>, \<^verbatim>\<open>core/middleware\<close>): one run of a job at a time; \<open>Start\<close> schedules every acceptable
    job, composed with the parser; stop requests and states pass through Redis unchanged; in a cluster of pods a stop request lives until a pod starts, and a closed pod
    is unlisted until its ticker runs again.
  \<^item> \<open>Vlog\<close> (\<^verbatim>\<open>vlog\<close>): every message is written once, in order, to the file of its level and time; files rotate exactly at the ends of the periods.
  \<^item> \<open>Watcher\<close> (\<^verbatim>\<open>watch/info.go\<close>, \<^verbatim>\<open>watch/executor\<close>, \<^verbatim>\<open>watch/monitor/factory\<close>), \<open>Watch_Run\<close> (\<^verbatim>\<open>watch/run.go\<close>, \<^verbatim>\<open>watch/bash\<close>, the monitors),
    \<open>Child_Process\<close> (\<open>start\<close> of the executor), \<open>Watch_Main\<close> (the monitors and \<^verbatim>\<open>watch/run.go\<close> with the executor): the configuration check, the waiting times of a
    stop, the signal loop, restarts, the command runner; the goroutines around a child use their channels safely; what the watcher as a whole cannot do.
  \<^item> \<open>Page_Scraper\<close> (\<^verbatim>\<open>chromedp\<close>): the shapes of its answers and when it panics.
  \<^item> \<open>Stream_Programs\<close> (\<^verbatim>\<open>work_test\<close>): the two readers agree and read everything; a channel that is closed at the end hands over everything in its order; the pool
    with results computes all of them and ends.

  \<^bold>\<open>Interfaces.\<close>  \<open>fifo\<close> is interpreted by the ring buffer, the guarded queue and the disk queue; \<open>simulation\<close> by the registry and the byte buffer;
  \<open>idle_workers\<close> by the two worker pools; \<open>keeps_invariant\<close> (a step relation and an invariant it keeps) and \<open>panics_only\<close> (a step ends
  in the invariant or in one kind of failure) by the logger, the pools, the semaphore, the publisher, the bash runner,
  the job task, the watcher, the child's goroutines and the stream programs; \<open>nested_units\<close>, \<open>field_loop\<close> and \<open>exact_loop\<close> by the units of time and the loops of \<open>Next\<close>.

  \<^bold>\<open>What the theorems rest on.\<close>  A time zone is a fixed offset from UTC.  A read through \<open>bufio\<close> sees what the file holds when the buffer is filled.  Redis, JSON, the
  loaded time zones, readers and writers, the growth of \<open>append\<close> and the order of equal elements in \<open>sort.Sort\<close> are arguments; their documented behaviour is a
  hypothesis where a theorem needs it, and the witness of the theorem gives a concrete instance.  The clients of the work pool call \<open>Wait\<close> after their last
  \<open>Do\<close>; calls of \<open>Run\<close> on one job do not overlap in their test; \<open>ants.go\<close> has one submitter.  Where the code breaks without such a condition, a
  theorem shows it: overlapping runs, two submitters, a nil mutex, a lost registration, a stop signal that is lost, a limiter that trims too much, a logger
  that panics at its high-water mark, an executor that waits for itself.

  \<^bold>\<open>Fuel and bounds.\<close>  The loops of the schedule's \<open>Next\<close> are \<open>function\<close>s with termination proofs.  The loops over the bits of a field, over the bytes of a reader, of
  the delay queue and of the waiting times of the watcher are \<open>partial_function (option)\<close>, with proofs that they return.  The rounds of the disk queue before its \<open>select\<close>
  have a fuel argument, each round with its own faults; it is proved that two more rounds than there are files to read are enough.

  \<^bold>\<open>Not modelled.\<close>  Log output and debug printing, and sleeping.  The libraries behind Redis, the browser, the document parser and the file monitors, which are
  parameters.  The constants of \<^verbatim>\<open>config\<close> and \<^verbatim>\<open>core/json\<close>; the main functions that only demonstrate a package; \<^verbatim>\<open>limiter/serialize\<close>, which only calls
  \<open>encoding/gob\<close>; \<^verbatim>\<open>bitmap/connCloseMonitor\<close>, which does not compile; and the other experiments of \<^verbatim>\<open>work_test\<close> and \<^verbatim>\<open>vlog_test\<close>, which print,
  sleep or call a library.
\<close>

end
